(* ===== verification/Prelude.thy ===== *)
theory Prelude
  imports Main "HOL-Library.Word"
begin

unbundle bit_operations_syntax

text \<open>
  Shared vocabulary of the development: the machine integer types of the sources, the ways
  the C++ code can fail (as values of a sum type), monadic plumbing for such results, and the
  generic facts on lists, arrays of optional cells and power-of-two masks that the component
  theories use.
\<close>

section \<open>Machine integers and failures\<close>

type_synonym u8 = "8 word"
type_synonym u32 = "32 word"
type_synonym u64 = "64 word"

text \<open>
  Every way an operation of the sources leaves its normal path: the exceptions it throws (of the
  Python modules too; \<open>RuntimeError\<close> carries what kind of message is thrown), a failed \<open>CHECK\<close>, a call to \<open>std::abort\<close>; \<open>OutOfBounds\<close> is an access outside an object, which
  the language leaves undefined, and so is \<open>BadFree\<close>, releasing memory that is not allocated; \<open>OutOfFuel\<close> is the model's own value for a
  loop that was not given enough steps, and theorems show where it cannot occur.
\<close>

datatype error =
    OutOfRange
  | RangeError
  | EndOfData
  | TrailingBytes nat
  | DoesNotFit
  | CheckFailed
  | Aborted
  | OutOfBounds
  | BadFree
  | RuntimeError string
  | ValueError
  | TypeError
  | KeyError
  | AttributeError
  | ZeroDivisionError
  | OutOfFuel

type_synonym 'a result = "error + 'a"

definition bind_result :: "'a result \<Rightarrow> ('a \<Rightarrow> 'b result) \<Rightarrow> 'b result" where
  "bind_result r f = (case r of Inl e \<Rightarrow> Inl e | Inr x \<Rightarrow> f x)"

fun fold_result :: "('s \<Rightarrow> 'a \<Rightarrow> 's result) \<Rightarrow> 's \<Rightarrow> 'a list \<Rightarrow> 's result" where
  "fold_result f s [] = Inr s"
| "fold_result f s (x # xs) = bind_result (f s x) (\<lambda>s'. fold_result f s' xs)"

named_theorems result_simps

lemma bind_result_simps [simp, result_simps]:
  "bind_result (Inl e) f = Inl e"
  "bind_result (Inr x) f = f x"
  by (simp_all add: bind_result_def)

lemma bind_result_Inr [result_simps]:
  "bind_result r f = Inr y \<longleftrightarrow> (\<exists>x. r = Inr x \<and> f x = Inr y)"
  by (cases r) simp_all

lemma bind_result_assoc:
  "bind_result (bind_result r f) g = bind_result r (\<lambda>x. bind_result (f x) g)"
  by (cases r) simp_all

lemma fold_result_append:
  "fold_result f s (xs @ ys) = bind_result (fold_result f s xs) (\<lambda>s'. fold_result f s' ys)"
  by (induction xs arbitrary: s) (simp_all add: bind_result_assoc)

text \<open>A loop body that keeps an invariant keeps it over the whole loop.\<close>

lemma fold_result_invariant:
  assumes "fold_result f s xs = Inr s'" and "I s"
    and "\<And>s x s'. I s \<Longrightarrow> x \<in> set xs \<Longrightarrow> f s x = Inr s' \<Longrightarrow> I s'"
  shows "I s'"
  using assms
proof (induction xs arbitrary: s)
  case Nil
  then show ?case by simp
next
  case (Cons x xs)
  from Cons.prems(1) obtain t where t: "f s x = Inr t" "fold_result f t xs = Inr s'"
    by (auto simp: bind_result_Inr)
  have "I t" using Cons.prems(2,3) t(1) by auto
  with t(2) show ?case
    by (rule Cons.IH) (use Cons.prems(3) in auto)
qed

section \<open>Power-of-two masks\<close>

text \<open>
  The sources keep bucket counts at powers of two and reduce an index with
  \<open>x & (n - 1)\<close>; on such a count this is the remainder.
\<close>

definition pow2 :: "nat \<Rightarrow> bool" where
  "pow2 n \<longleftrightarrow> (\<exists>e. n = 2 ^ e)"

lemma pow2_pos: "pow2 n \<Longrightarrow> 0 < n"
  by (auto simp: pow2_def)

lemma pow2_double: "pow2 n \<Longrightarrow> pow2 (2 * n)"
  by (auto simp: pow2_def simp flip: power_Suc)

lemma pow2_one [simp]: "pow2 (Suc 0)" "pow2 1"
  by (auto simp: pow2_def intro: exI [of _ 0])

lemma and_mask_mod:
  fixes x n :: nat
  assumes "pow2 n"
  shows "x AND (n - Suc 0) = x mod n"
proof -
  obtain e where n: "n = 2 ^ e" using assms by (auto simp: pow2_def)
  have "x AND (n - 1) = take_bit e x"
    unfolding n by (simp only: take_bit_eq_mask mask_eq_exp_minus_1)
  then show ?thesis by (simp add: take_bit_eq_mod n)
qed

lemma pow2_check:
  fixes n :: nat
  assumes "pow2 n"
  shows "n AND (n - Suc 0) = 0"
  using assms by (simp add: and_mask_mod)

lemma pow2_less_double:
  assumes "pow2 a" "pow2 b" "a < b"
  shows "2 * a \<le> b"
proof -
  from assms obtain i j where "a = 2 ^ i" "b = 2 ^ j" by (auto simp: pow2_def)
  with assms(3) have "i < j" by simp
  then have "2 ^ Suc i \<le> (2 ^ j :: nat)" by (intro power_increasing) auto
  with \<open>a = _\<close> \<open>b = _\<close> show ?thesis by simp
qed

lemma mod_add_left_cancel:
  fixes a b c n :: nat
  assumes "(a + b) mod n = (a + c) mod n" "0 < n"
  shows "b mod n = c mod n"
proof -
  have undo: "((a + x) mod n + (n - a mod n)) mod n = x mod n" for x
  proof -
    have "a + x + (n - a mod n) = x + (a div n * n + n)"
      using mod_less_divisor [OF assms(2), of a] div_mult_mod_eq [of a n] by linarith
    then have "a + x + (n - a mod n) = x + (a div n + 1) * n" by simp
    then show ?thesis by (metis mod_add_left_eq mod_mult_self1)
  qed
  from undo [of b] undo [of c] assms(1) show ?thesis by simp
qed

section \<open>Arrays of optional cells\<close>

text \<open>The number of occupied cells of an array, and how one write changes it.\<close>

definition occupied :: "'a option list \<Rightarrow> nat" where
  "occupied xs = length (filter (\<lambda>x. x \<noteq> None) xs)"

lemma occupied_replicate [simp]: "occupied (replicate n None) = 0"
  by (simp add: occupied_def)

lemma occupied_Cons [simp]: "occupied (x # xs) = (if x = None then 0 else 1) + occupied xs"
  by (simp add: occupied_def)

lemma occupied_Nil [simp]: "occupied [] = 0"
  by (simp add: occupied_def)

lemma occupied_update:
  assumes "i < length xs"
  shows "occupied (xs[i := y]) + (if xs ! i = None then 0 else 1)
       = occupied xs + (if y = None then 0 else 1)"
  using assms
proof (induction xs arbitrary: i)
  case Nil
  then show ?case by simp
next
  case (Cons x xs)
  then show ?case by (cases i) fastforce+
qed

lemma occupied_le_length: "occupied xs \<le> length xs"
  by (simp add: occupied_def)

lemma occupied_pos: "i < length xs \<Longrightarrow> xs ! i \<noteq> None \<Longrightarrow> 0 < occupied xs"
  by (auto simp: occupied_def filter_empty_conv dest: nth_mem)

lemma occupied_card: "occupied xs = card {i. i < length xs \<and> xs ! i \<noteq> None}"
  by (simp add: occupied_def length_filter_conv_card)

lemma some_empty_cell:
  assumes "occupied xs < length xs"
  shows "\<exists>i < length xs. xs ! i = None"
proof (rule ccontr)
  assume "\<not> ?thesis"
  then have "filter (\<lambda>x. x \<noteq> None) xs = xs" by (auto simp: filter_id_conv in_set_conv_nth)
  with assms show False by (simp add: occupied_def)
qed

end
