(* ===== verification/Hash_Map.thy ===== *)
theory Hash_Map
  imports Prelude
begin

unbundle bit_operations_syntax

text \<open>
  The open hash table of \<^verbatim>\<open>core/hash_map.h\<close>. A key has one home bucket in the primary
  array; keys that share a home bucket overflow into the secondary array, in the slots that
  follow the bucket number cyclically. A primary item records in its \<open>size\<close> how far (in
  slots) its overflow chain reaches.

  A cell whose \<open>size\<close> (or \<open>index\<close>) field is the sentinel \<open>none\<close> holds no constructed key and
  value: it is \<open>None\<close> here. The arrays are lists of the table's bucket count; a table that
  was never allocated (a null \<open>primary\<close> pointer) has empty lists. \<open>Hash\<close> is a parameter,
  \<open>Equal\<close> is equality, \<open>sizeof(PrimaryItem)\<close> is a parameter, and memory allocation succeeds.
\<close>

section \<open>Data\<close>

record ('k, 'v) primary_item =
  pkey :: 'k
  pvalue :: 'v
  psize :: nat

record ('k, 'v) secondary_item =
  skey :: 'k
  svalue :: 'v
  sindex :: nat

record ('k, 'v) hash_map =
  ksize :: nat
  msize :: nat
  primary :: "('k, 'v) primary_item option list"
  secondary :: "('k, 'v) secondary_item option list"

text \<open>The address of a stored value: in a primary or in a secondary cell.\<close>

datatype slot = PrimarySlot nat | SecondarySlot nat

text \<open>
  An iterator: the numbers \<open>ki\<close> and \<open>vi\<close> (\<open>None\<close> is the sentinel \<open>none\<close>) and the value
  pointer \<open>v\<close> (\<open>None\<close> is the null pointer). Iterators are compared by \<open>v\<close>.
\<close>

record iterator =
  it_ki :: "nat option"
  it_vi :: "nat option"
  it_v :: "slot option"

definition mk_iterator :: "nat option \<Rightarrow> nat option \<Rightarrow> slot option \<Rightarrow> iterator" where
  "mk_iterator ki vi v = \<lparr>it_ki = ki, it_vi = vi, it_v = v\<rparr>"

definition end_iter :: iterator where
  "end_iter = mk_iterator (Some 0) (Some 0) None"

definition hm_new :: "('k, 'v) hash_map" where
  "hm_new = \<lparr>ksize = 0, msize = 0, primary = [], secondary = []\<rparr>"

definition hm_empty :: "('k, 'v) hash_map \<Rightarrow> bool" where
  "hm_empty m \<longleftrightarrow> msize m = 0"

section \<open>Lookup\<close>

definition bucket_index :: "('k \<Rightarrow> u64) \<Rightarrow> nat \<Rightarrow> 'k \<Rightarrow> nat" where
  "bucket_index hash bs k = (unat (hash k * 0x9E3779B97F4A7C15) * bs) div 2 ^ 64"

text \<open>The \<open>equal\<close> lambda: is the secondary cell \<open>i\<close> an item of bucket \<open>ki\<close> with this key?\<close>

definition sec_equal :: "('k, 'v) hash_map \<Rightarrow> nat \<Rightarrow> 'k \<Rightarrow> nat \<Rightarrow> bool" where
  "sec_equal m ki k i =
     (case secondary m ! i of None \<Rightarrow> False | Some s \<Rightarrow> sindex s = ki \<and> skey s = k)"

text \<open>
  \<open>probe_run\<close> is the fall-through part of the switch: \<open>n\<close> comparisons in a row, each of which
  either returns (\<open>Inl\<close>) or advances \<open>i\<close>, \<open>vi\<close> and \<open>s\<close>.
\<close>

fun probe_run ::
  "('k, 'v) hash_map \<Rightarrow> nat \<Rightarrow> 'k \<Rightarrow> nat \<Rightarrow> nat \<times> nat \<times> nat \<Rightarrow> iterator + (nat \<times> nat \<times> nat)" where
  "probe_run m ki k 0 (i, vi, s) = Inr (i, vi, s)"
| "probe_run m ki k (Suc n) (i, vi, s) =
     (if sec_equal m ki k i
      then Inl (mk_iterator (Some ki) (Some (vi AND (ksize m - 1))) (Some (SecondarySlot i)))
      else probe_run m ki k n (i + 1, vi + 1, s - 1))"

text \<open>
  One pass of the do-while loop. Where the end lies ahead of \<open>i\<close> without wrapping, the switch
  makes \<open>min s 4\<close> comparisons and returns the end iterator when it arrives there; then one
  more comparison is made and the cursor wraps at the end of the array.
\<close>

definition switch_count :: "nat \<Rightarrow> nat" where
  "switch_count s = (if s \<in> {1, 2, 3} then s else 4)"

definition slow_switch ::
  "('k, 'v) hash_map \<Rightarrow> nat \<Rightarrow> 'k \<Rightarrow> nat \<Rightarrow> nat \<times> nat \<times> nat \<Rightarrow> iterator + (nat \<times> nat \<times> nat)" where
  "slow_switch m ki k e c =
     (if fst c < e
      then (case probe_run m ki k (switch_count (snd (snd c))) c of
              Inl it \<Rightarrow> Inl it
            | Inr c' \<Rightarrow> if fst c' = e then Inl (mk_iterator (Some ki) (Some e) None) else Inr c')
      else Inr c)"

definition slow_tail ::
  "('k, 'v) hash_map \<Rightarrow> nat \<Rightarrow> 'k \<Rightarrow> nat \<times> nat \<times> nat \<Rightarrow> iterator + (nat \<times> nat \<times> nat)" where
  "slow_tail m ki k c =
     (case probe_run m ki k 1 c of
        Inl it \<Rightarrow> Inl it
      | Inr (i, vi, s) \<Rightarrow> Inr (if i = ksize m then 0 else i, vi, s))"

definition slow_pass ::
  "('k, 'v) hash_map \<Rightarrow> nat \<Rightarrow> 'k \<Rightarrow> nat \<Rightarrow> nat \<times> nat \<times> nat \<Rightarrow> iterator + (nat \<times> nat \<times> nat)" where
  "slow_pass m ki k e c =
     (case slow_switch m ki k e c of Inl it \<Rightarrow> Inl it | Inr c' \<Rightarrow> slow_tail m ki k c')"

fun slow_loop ::
  "nat \<Rightarrow> ('k, 'v) hash_map \<Rightarrow> nat \<Rightarrow> 'k \<Rightarrow> nat \<Rightarrow> nat \<times> nat \<times> nat \<Rightarrow> iterator option" where
  "slow_loop 0 m ki k e c = None"
| "slow_loop (Suc fuel) m ki k e c =
     (case slow_pass m ki k e c of
        Inl it \<Rightarrow> Some it
      | Inr c' \<Rightarrow> if fst c' \<noteq> e then slow_loop fuel m ki k e c'
                 else Some (mk_iterator (Some ki) (Some e) None))"

definition findSlowPath :: "('k, 'v) hash_map \<Rightarrow> nat \<Rightarrow> nat \<Rightarrow> 'k \<Rightarrow> iterator" where
  "findSlowPath m ki s k =
     (let e = (ki + s) AND (ksize m - 1)
      in case slow_loop (ksize m) m ki k e (ki, ki, s) of
           Some it \<Rightarrow> it
         | None \<Rightarrow> mk_iterator (Some ki) (Some e) None)"

definition find_it :: "('k \<Rightarrow> u64) \<Rightarrow> ('k, 'v) hash_map \<Rightarrow> 'k \<Rightarrow> iterator" where
  "find_it hash m k =
     (if primary m = [] then end_iter
      else let ki = bucket_index hash (ksize m) k
           in case primary m ! ki of
                None \<Rightarrow> mk_iterator (Some ki) None None
              | Some pv \<Rightarrow>
                  if pkey pv = k then mk_iterator (Some ki) None (Some (PrimarySlot ki))
                  else if psize pv = 0 then mk_iterator (Some ki) (Some ki) None
                  else findSlowPath m ki (psize pv) k)"

definition contains :: "('k \<Rightarrow> u64) \<Rightarrow> ('k, 'v) hash_map \<Rightarrow> 'k \<Rightarrow> bool" where
  "contains hash m k \<longleftrightarrow> it_v (find_it hash m k) \<noteq> it_v end_iter"

text \<open>Dereferencing a value pointer, and the exception of \<open>at\<close>.\<close>

definition deref :: "('k, 'v) hash_map \<Rightarrow> slot \<Rightarrow> ('k \<times> 'v) option" where
  "deref m a =
     (case a of
        PrimarySlot i \<Rightarrow> map_option (\<lambda>p. (pkey p, pvalue p)) (primary m ! i)
      | SecondarySlot j \<Rightarrow> map_option (\<lambda>s. (skey s, svalue s)) (secondary m ! j))"

definition hm_at :: "('k \<Rightarrow> u64) \<Rightarrow> ('k, 'v) hash_map \<Rightarrow> 'k \<Rightarrow> 'v result" where
  "hm_at hash m k =
     (case it_v (find_it hash m k) of
        None \<Rightarrow> Inl OutOfRange
      | Some a \<Rightarrow> Inr (snd (the (deref m a))))"

section \<open>Iteration\<close>

text \<open>
  The first occupied cell at or after a position: the body shared by the scans of \<open>begin\<close> and
  \<open>operator++\<close>.
\<close>

function first_occupied :: "'a option list \<Rightarrow> nat \<Rightarrow> nat option" where
  "first_occupied xs i =
     (if i < length xs then (if xs ! i \<noteq> None then Some i else first_occupied xs (Suc i)) else None)"
  by pat_completeness auto
termination
  by (relation "measure (\<lambda>(xs, i). length xs - i)") auto

declare first_occupied.simps [simp del]

definition begin_it :: "('k, 'v) hash_map \<Rightarrow> iterator" where
  "begin_it m =
     (if primary m = [] then end_iter
      else case first_occupied (primary m) 0 of
             Some i \<Rightarrow> mk_iterator (Some i) None (Some (PrimarySlot i))
           | None \<Rightarrow>
               (case first_occupied (secondary m) 0 of
                  Some i \<Rightarrow> mk_iterator (Some i) (Some i) (Some (SecondarySlot i))
                | None \<Rightarrow> end_iter))"

text \<open>
  \<open>operator++\<close>. Leaving the primary array the iterator takes its \<open>ki\<close> from the first
  secondary item; moving on inside the secondary array it leaves \<open>ki\<close> as it was.
\<close>

definition next_it :: "('k, 'v) hash_map \<Rightarrow> iterator \<Rightarrow> iterator" where
  "next_it m it =
     (case it_vi it of
        None \<Rightarrow>
          (case first_occupied (primary m) (Suc (the (it_ki it))) of
             Some i \<Rightarrow> mk_iterator (Some i) None (Some (PrimarySlot i))
           | None \<Rightarrow>
               (case first_occupied (secondary m) 0 of
                  Some j \<Rightarrow> mk_iterator (Some (sindex (the (secondary m ! j)))) (Some j)
                              (Some (SecondarySlot j))
                | None \<Rightarrow> mk_iterator None (Some (ksize m - 1)) None))
      | Some vi \<Rightarrow>
          (case first_occupied (secondary m) (Suc vi) of
             Some j \<Rightarrow> mk_iterator (it_ki it) (Some j) (Some (SecondarySlot j))
           | None \<Rightarrow> mk_iterator (it_ki it) (Some (ksize m - 1)) None))"

section \<open>Removal\<close>

text \<open>The loop that lowers \<open>size\<close> to the last slot still owned by bucket \<open>ki\<close>.\<close>

definition sec_owned :: "('k, 'v) secondary_item option list \<Rightarrow> nat \<Rightarrow> nat \<Rightarrow> bool" where
  "sec_owned sec ki j = (case sec ! j of None \<Rightarrow> False | Some s \<Rightarrow> sindex s = ki)"

fun shrink_size :: "('k, 'v) secondary_item option list \<Rightarrow> nat \<Rightarrow> nat \<Rightarrow> nat \<Rightarrow> nat" where
  "shrink_size sec ki msk 0 = 0"
| "shrink_size sec ki msk (Suc s) =
     (if \<not> sec_owned sec ki ((ki + s) AND msk) then shrink_size sec ki msk s else Suc s)"

definition erase_it :: "('k, 'v) hash_map \<Rightarrow> iterator \<Rightarrow> ('k, 'v) hash_map \<times> iterator" where
  "erase_it m it =
     (let msk = ksize m - 1; ms = msize m - 1
      in case it_vi it of
           None \<Rightarrow>
             (let ki = the (it_ki it); pv = the (primary m ! ki)
              in if psize pv \<noteq> 0 then
                   (let s = psize pv - 1;
                        index = (ki + s) AND msk;
                        sv = the (secondary m ! index);
                        sec = (secondary m)[index := None];
                        s' = shrink_size sec ki msk s
                    in (m\<lparr>msize := ms, secondary := sec,
                          primary := (primary m)[ki := Some \<lparr>pkey = skey sv, pvalue = svalue sv, psize = s'\<rparr>]\<rparr>,
                        it))
                 else (m\<lparr>msize := ms, primary := (primary m)[ki := None]\<rparr>, next_it m it))
         | Some vi \<Rightarrow>
             (let ki = (case it_ki it of None \<Rightarrow> sindex (the (secondary m ! vi)) | Some ki \<Rightarrow> ki);
                  pv = the (primary m ! ki);
                  s = psize pv - 1;
                  lastIndex = (ki + s) AND msk;
                  lv = the (secondary m ! lastIndex);
                  sv = the (secondary m ! vi);
                  sec = (if lastIndex = vi then secondary m
                         else (secondary m)[vi := Some (sv\<lparr>skey := skey lv, svalue := svalue lv\<rparr>)])[lastIndex := None];
                  s' = shrink_size sec ki msk s
              in (m\<lparr>msize := ms, secondary := sec,
                    primary := (primary m)[ki := Some (pv\<lparr>psize := s'\<rparr>)]\<rparr>,
                  if lastIndex = vi then next_it m it else it)))"

definition erase_key :: "('k \<Rightarrow> u64) \<Rightarrow> ('k, 'v) hash_map \<Rightarrow> 'k \<Rightarrow> ('k, 'v) hash_map" where
  "erase_key hash m k =
     (let it = find_it hash m k in if it_v it \<noteq> it_v end_iter then fst (erase_it m it) else m)"

text \<open>\<open>clear\<close> removes items from the front until the end iterator is reached.\<close>

fun clear_loop :: "nat \<Rightarrow> ('k, 'v) hash_map \<Rightarrow> iterator \<Rightarrow> ('k, 'v) hash_map result" where
  "clear_loop fuel m it =
     (if it_v it = it_v end_iter then Inr m
      else case fuel of
             0 \<Rightarrow> Inl OutOfFuel
           | Suc f \<Rightarrow> (let (m', it') = erase_it m it in clear_loop f m' it'))"

declare clear_loop.simps [simp del]

definition clear_hm :: "('k, 'v) hash_map \<Rightarrow> ('k, 'v) hash_map result" where
  "clear_hm m = clear_loop (msize m) m (begin_it m)"

section \<open>Growth and insertion\<close>

text \<open>The key-value pairs in the order in which \<open>rehash\<close> and the iterators visit them.\<close>

definition entries :: "('k, 'v) hash_map \<Rightarrow> ('k \<times> 'v) list" where
  "entries m = map (\<lambda>p. (pkey p, pvalue p)) (map the (filter (\<lambda>x. x \<noteq> None) (primary m)))
             @ map (\<lambda>s. (skey s, svalue s)) (map the (filter (\<lambda>x. x \<noteq> None) (secondary m)))"

definition fresh_table :: "nat \<Rightarrow> ('k, 'v) hash_map" where
  "fresh_table n = \<lparr>ksize = n, msize = 0, primary = replicate n None, secondary = replicate n None\<rparr>"

type_synonym ('k, 'v) emplacer =
  "('k, 'v) hash_map \<Rightarrow> 'k \<Rightarrow> 'v \<Rightarrow> (('k, 'v) hash_map \<times> iterator \<times> bool) result"

text \<open>
  \<open>rehash\<close>, \<open>reserve\<close> and \<open>try_emplace\<close> call each other; the first two take the recursive
  \<open>try_emplace\<close> as an argument. \<open>rehash\<close> moves the old table's items, primary cells first.
\<close>

definition rehash_with :: "('k, 'v) emplacer \<Rightarrow> ('k, 'v) hash_map \<Rightarrow> nat \<Rightarrow> ('k, 'v) hash_map result" where
  "rehash_with te m newBs =
     (if newBs AND (newBs - 1) \<noteq> 0 then Inl Aborted
      else fold_result (\<lambda>acc (k, v). bind_result (te acc k v) (\<lambda>r. Inr (fst r)))
             (fresh_table newBs) (entries m))"

function double_until :: "nat \<Rightarrow> nat \<Rightarrow> nat" where
  "double_until bs n = (if 0 < bs \<and> bs < n then double_until (bs * 2) n else bs)"
  by pat_completeness auto
termination
  by (relation "measure (\<lambda>(bs, n). n - bs)") auto

declare double_until.simps [simp del]

definition reserve_with :: "('k, 'v) emplacer \<Rightarrow> ('k, 'v) hash_map \<Rightarrow> nat \<Rightarrow> ('k, 'v) hash_map result" where
  "reserve_with te m n =
     (if n \<ge> (2 ^ 64 - 1) div 2 then Inl RangeError
      else rehash_with te m (double_until (if ksize m = 0 then 1 else ksize m) n))"

text \<open>The search for a free secondary cell, with the length of the chain it leads to.\<close>

fun free_secondary ::
  "nat \<Rightarrow> ('k, 'v) secondary_item option list \<Rightarrow> nat \<Rightarrow> nat \<Rightarrow> nat \<Rightarrow> (nat \<times> nat) option" where
  "free_secondary fuel sec msk index s =
     (if sec ! index = None then Some (index, s)
      else case fuel of
             0 \<Rightarrow> None
           | Suc f \<Rightarrow> free_secondary f sec msk ((index + 1) AND msk) (s + 1))"

declare free_secondary.simps [simp del]

text \<open>
  The insertion proper (from the label after \<open>resize\<close> on) at the place the failed lookup
  \<open>i\<close> names: a new item, or \<open>Expand\<close> for the jump to \<open>expand\<close>. \<open>psz\<close> is
  \<open>sizeof(PrimaryItem)\<close>.
\<close>

datatype 'a attempt = Placed 'a | Expand | Stuck

definition emplace_at ::
  "nat \<Rightarrow> ('k, 'v) hash_map \<Rightarrow> iterator \<Rightarrow> 'k \<Rightarrow> 'v \<Rightarrow> (('k, 'v) hash_map \<times> iterator \<times> bool) attempt" where
  "emplace_at psz m i k v =
     (let ki = the (it_ki i)
      in case it_vi i of
           None \<Rightarrow>
             Placed (m\<lparr>msize := msize m + 1,
                       primary := (primary m)[ki := Some \<lparr>pkey = k, pvalue = v, psize = 0\<rparr>]\<rparr>,
                     mk_iterator (Some ki) None (Some (PrimarySlot ki)), True)
         | Some vi \<Rightarrow>
             (if ksize m < 1024 * 1024 div psz \<and> ksize m < msize m * 4 then Expand
              else let pv = the (primary m ! ki)
                   in case free_secondary (ksize m) (secondary m) (ksize m - 1) vi (psize pv + 1) of
                        None \<Rightarrow> Stuck
                      | Some (index, s) \<Rightarrow>
                          (if (s \<ge> 4 \<and> ksize m < 1024 * 1024 * 4 div psz) \<or> s \<ge> ksize m div 2 then Expand
                           else Placed (m\<lparr>msize := msize m + 1,
                                          primary := (primary m)[ki := Some (pv\<lparr>psize := s\<rparr>)],
                                          secondary := (secondary m)[index := Some \<lparr>skey = k, svalue = v, sindex = ki\<rparr>]\<rparr>,
                                        mk_iterator (Some ki) (Some index) (Some (SecondarySlot index)), True))))"

fun resize_loop ::
  "nat \<Rightarrow> ('k \<Rightarrow> u64) \<Rightarrow> nat \<Rightarrow> ('k, 'v) emplacer \<Rightarrow> ('k, 'v) hash_map \<Rightarrow> nat \<Rightarrow> 'k \<Rightarrow> 'v
   \<Rightarrow> (('k, 'v) hash_map \<times> iterator \<times> bool) result" where
  "resize_loop 0 hash psz te m newksize k v = Inl OutOfFuel"
| "resize_loop (Suc fuel) hash psz te m newksize k v =
     bind_result (reserve_with te m newksize) (\<lambda>m'.
       case emplace_at psz m' (find_it hash m' k) k v of
         Placed r \<Rightarrow> Inr r
       | Expand \<Rightarrow> resize_loop fuel hash psz te m' (ksize m' + 1) k v
       | Stuck \<Rightarrow> Inl OutOfFuel)"

primrec try_emplace :: "nat \<Rightarrow> ('k \<Rightarrow> u64) \<Rightarrow> nat \<Rightarrow> ('k, 'v) emplacer" where
  "try_emplace 0 hash psz = (\<lambda>m k v. Inl OutOfFuel)"
| "try_emplace (Suc fuel) hash psz = (\<lambda>m k v.
     bind_result (if primary m = [] then reserve_with (try_emplace fuel hash psz) m 16 else Inr m) (\<lambda>m.
       let i = find_it hash m k
       in if it_v i \<noteq> None then Inr (m, i, False)
          else if ksize m < msize m + 1
               then resize_loop fuel hash psz (try_emplace fuel hash psz) m (msize m + 1) k v
          else (case emplace_at psz m i k v of
                  Placed r \<Rightarrow> Inr r
                | Expand \<Rightarrow> resize_loop fuel hash psz (try_emplace fuel hash psz) m (ksize m + 1) k v
                | Stuck \<Rightarrow> Inl OutOfFuel)))"

end
