(* ===== verification/Hash_Map_Lookup.thy ===== *)
theory Hash_Map_Lookup
  imports Hash_Map
begin

unbundle bit_operations_syntax

text \<open>
  The representation invariant of the hash table, its abstraction to a map, and the
  correctness of the lookups: the unrolled slow path is a linear probe of the bucket's
  chain, and \<open>find\<close> returns the address of the item with the key exactly when there is one.
\<close>

section \<open>Invariant and abstraction\<close>

lemma bucket_index_less: "0 < n \<Longrightarrow> bucket_index hash n k < n"
proof -
  assume "0 < n"
  have "unat (hash k * 0x9E3779B97F4A7C15) < 2 ^ 64"
    using unsigned_less [of "hash k * 0x9E3779B97F4A7C15"] by simp
  with \<open>0 < n\<close> have "unat (hash k * 0x9E3779B97F4A7C15) * n < n * 2 ^ 64"
    by simp
  then show ?thesis unfolding bucket_index_def by (rule less_mult_imp_div_less)
qed

text \<open>
  A primary item sits in its key's home bucket and its chain ends in a slot the bucket owns;
  a secondary item belongs to its key's home bucket, which is occupied and whose chain
  covers the item; no key is stored twice; \<open>msize\<close> counts the items.
\<close>

definition primary_ok :: "('k \<Rightarrow> u64) \<Rightarrow> ('k, 'v) hash_map \<Rightarrow> nat \<Rightarrow> bool" where
  "primary_ok hash m i \<longleftrightarrow>
     (\<forall>p. primary m ! i = Some p \<longrightarrow>
        bucket_index hash (ksize m) (pkey p) = i \<and>
        (psize p = 0 \<or>
         2 * psize p < ksize m \<and> sec_owned (secondary m) i ((i + (psize p - 1)) mod ksize m)))"

definition secondary_ok :: "('k \<Rightarrow> u64) \<Rightarrow> ('k, 'v) hash_map \<Rightarrow> nat \<Rightarrow> bool" where
  "secondary_ok hash m j \<longleftrightarrow>
     (\<forall>s. secondary m ! j = Some s \<longrightarrow>
        bucket_index hash (ksize m) (skey s) = sindex s \<and>
        (\<exists>p. primary m ! sindex s = Some p \<and> pkey p \<noteq> skey s \<and>
             (\<exists>d < psize p. j = (sindex s + d) mod ksize m)))"

definition sec_distinct :: "('k, 'v) hash_map \<Rightarrow> bool" where
  "sec_distinct m \<longleftrightarrow>
     (\<forall>j < ksize m. \<forall>j' < ksize m. \<forall>s s'.
        secondary m ! j = Some s \<longrightarrow> secondary m ! j' = Some s' \<longrightarrow> skey s = skey s' \<longrightarrow> j = j')"

definition hm_inv :: "('k \<Rightarrow> u64) \<Rightarrow> ('k, 'v) hash_map \<Rightarrow> bool" where
  "hm_inv hash m \<longleftrightarrow>
     length (primary m) = ksize m \<and> length (secondary m) = ksize m \<and>
     (ksize m = 0 \<or> pow2 (ksize m)) \<and>
     msize m = occupied (primary m) + occupied (secondary m) \<and>
     (\<forall>i < ksize m. primary_ok hash m i) \<and>
     (\<forall>j < ksize m. secondary_ok hash m j) \<and>
     sec_distinct m"

text \<open>The table as a map.\<close>

definition hm_abs :: "('k, 'v) hash_map \<Rightarrow> 'k \<rightharpoonup> 'v" where
  "hm_abs m = map_of (entries m)"

fun slot_valid :: "('k, 'v) hash_map \<Rightarrow> slot \<Rightarrow> bool" where
  "slot_valid m (PrimarySlot i) \<longleftrightarrow> i < ksize m"
| "slot_valid m (SecondarySlot j) \<longleftrightarrow> j < ksize m"

definition stored :: "('k, 'v) hash_map \<Rightarrow> slot \<Rightarrow> 'k \<Rightarrow> 'v \<Rightarrow> bool" where
  "stored m a k v \<longleftrightarrow> slot_valid m a \<and> deref m a = Some (k, v)"

lemma stored_Primary [simp]:
  "stored m (PrimarySlot i) k v \<longleftrightarrow>
     i < ksize m \<and> (\<exists>p. primary m ! i = Some p \<and> pkey p = k \<and> pvalue p = v)"
  by (auto simp: stored_def deref_def)

lemma stored_Secondary [simp]:
  "stored m (SecondarySlot j) k v \<longleftrightarrow>
     j < ksize m \<and> (\<exists>s. secondary m ! j = Some s \<and> skey s = k \<and> svalue s = v)"
  by (auto simp: stored_def deref_def)

lemma hm_invD:
  assumes "hm_inv hash m"
  shows "length (primary m) = ksize m" "length (secondary m) = ksize m"
    "ksize m = 0 \<or> pow2 (ksize m)"
    "msize m = occupied (primary m) + occupied (secondary m)"
    "i < ksize m \<Longrightarrow> primary_ok hash m i"
    "i < ksize m \<Longrightarrow> secondary_ok hash m i"
    "sec_distinct m"
  using assms by (simp_all add: hm_inv_def)

lemma primary_okD:
  assumes "primary_ok hash m i" "primary m ! i = Some p"
  shows "bucket_index hash (ksize m) (pkey p) = i"
    "psize p \<noteq> 0 \<Longrightarrow> 2 * psize p < ksize m"
    "psize p \<noteq> 0 \<Longrightarrow> sec_owned (secondary m) i ((i + (psize p - 1)) mod ksize m)"
  using assms by (auto simp: primary_ok_def)

lemma secondary_okE:
  assumes "secondary_ok hash m j" "secondary m ! j = Some s"
  obtains p d where "bucket_index hash (ksize m) (skey s) = sindex s"
    "primary m ! sindex s = Some p" "pkey p \<noteq> skey s" "d < psize p" "j = (sindex s + d) mod ksize m"
  using assms by (auto simp: secondary_ok_def)

lemma sec_owned_iff: "sec_owned sec ki j \<longleftrightarrow> (\<exists>s. sec ! j = Some s \<and> sindex s = ki)"
  by (auto simp: sec_owned_def split: option.splits)

text \<open>Every key is stored in at most one cell.\<close>

lemma stored_unique:
  assumes inv: "hm_inv hash m" and "stored m a k v" "stored m b k w"
  shows "a = b"
proof -
  have ps: False if "stored m (PrimarySlot i) k v'" "stored m (SecondarySlot j) k w'" for i j v' w'
  proof -
    from that obtain p s where p: "i < ksize m" "primary m ! i = Some p" "pkey p = k"
      and s: "j < ksize m" "secondary m ! j = Some s" "skey s = k" by auto
    have "i = sindex s"
      using primary_okD(1) [OF hm_invD(5) [OF inv p(1)] p(2)] hm_invD(6) [OF inv s(1)] p(3) s
      by (auto simp: secondary_ok_def)
    with hm_invD(6) [OF inv s(1)] p s show False by (auto simp: secondary_ok_def)
  qed
  show ?thesis
  proof (cases a; cases b)
    fix i i' assume "a = PrimarySlot i" "b = PrimarySlot i'"
    with assms show ?thesis by (auto simp: primary_ok_def dest!: hm_invD(5) [OF inv])
  next
    fix i j assume "a = SecondarySlot i" "b = SecondarySlot j"
    with assms hm_invD(7) [OF inv] show ?thesis by (auto simp: sec_distinct_def)
  qed (use ps assms in blast)+
qed

text \<open>The entries are the contents of the occupied cells, in the order of the cells.\<close>

definition slots :: "('k, 'v) hash_map \<Rightarrow> slot list" where
  "slots m = map PrimarySlot (filter (\<lambda>i. primary m ! i \<noteq> None) [0 ..< length (primary m)])
           @ map SecondarySlot (filter (\<lambda>j. secondary m ! j \<noteq> None) [0 ..< length (secondary m)])"

lemma map_the_filter:
  "map the (filter (\<lambda>x. x \<noteq> None) xs) = map (\<lambda>i. the (xs ! i)) (filter (\<lambda>i. xs ! i \<noteq> None) [0 ..< length xs])"
proof (induction xs rule: rev_induct)
  case Nil
  then show ?case by simp
next
  case (snoc x xs)
  have "filter (\<lambda>i. (xs @ [x]) ! i \<noteq> None) [0 ..< length xs] = filter (\<lambda>i. xs ! i \<noteq> None) [0 ..< length xs]"
    by (rule filter_cong) (auto simp: nth_append)
  then show ?case using snoc by (auto simp: nth_append)
qed

lemma entries_slots: "entries m = map (\<lambda>a. the (deref m a)) (slots m)"
  unfolding entries_def slots_def map_append map_map map_the_filter
  by (auto simp: deref_def intro!: map_cong arg_cong2 [where f = append])

lemma distinct_slots: "distinct (slots m)"
  by (auto simp: slots_def distinct_map inj_on_def)

lemma slots_iff:
  assumes "hm_inv hash m"
  shows "a \<in> set (slots m) \<longleftrightarrow> (\<exists>k v. stored m a k v)"
  using hm_invD(1,2) [OF assms] by (cases a) (auto simp: slots_def)

lemma entries_iff:
  assumes "hm_inv hash m"
  shows "(k, v) \<in> set (entries m) \<longleftrightarrow> (\<exists>a. stored m a k v)"
proof
  assume "(k, v) \<in> set (entries m)"
  then obtain a where "a \<in> set (slots m)" and d: "(k, v) = the (deref m a)"
    by (auto simp: entries_slots)
  then obtain k' v' where st: "stored m a k' v'" using assms by (auto simp: slots_iff)
  with d show "\<exists>a. stored m a k v" by (auto simp: stored_def)
next
  assume "\<exists>a. stored m a k v"
  then obtain a where a: "stored m a k v" ..
  then have "a \<in> set (slots m)" using assms by (auto simp: slots_iff)
  with a show "(k, v) \<in> set (entries m)" by (force simp: entries_slots stored_def)
qed

lemma distinct_entries:
  assumes "hm_inv hash m"
  shows "distinct (map fst (entries m))"
proof -
  have "inj_on (\<lambda>a. fst (the (deref m a))) (set (slots m))"
  proof (rule inj_onI)
    fix a b assume "a \<in> set (slots m)" "b \<in> set (slots m)"
      and eq: "fst (the (deref m a)) = fst (the (deref m b))"
    then obtain k v l w where "stored m a k v" "stored m b l w" using slots_iff [OF assms] by blast
    with eq stored_unique [OF assms] show "a = b" by (auto simp: stored_def)
  qed
  then show ?thesis by (simp add: entries_slots distinct_map distinct_slots comp_def)
qed

lemma hm_abs_iff:
  assumes "hm_inv hash m"
  shows "hm_abs m k = Some v \<longleftrightarrow> (\<exists>a. stored m a k v)"
  unfolding hm_abs_def
  using entries_iff [OF assms] distinct_entries [OF assms] by simp

lemma hm_abs_None:
  assumes "hm_inv hash m"
  shows "hm_abs m k = None \<longleftrightarrow> (\<forall>a v. \<not> stored m a k v)"
  using hm_abs_iff [OF assms, of k] by (metis not_Some_eq)

lemma hm_abs_eqI:
  assumes "hm_inv hash m" and "\<And>k v. f k = Some v \<longleftrightarrow> (\<exists>a. stored m a k v)"
  shows "hm_abs m = f"
proof
  fix k show "hm_abs m k = f k"
    using hm_abs_iff [OF assms(1), of k] assms(2) [of k] by (metis not_Some_eq)
qed

lemma length_entries:
  assumes "hm_inv hash m"
  shows "length (entries m) = msize m"
  using hm_invD(4) [OF assms] by (simp add: entries_def occupied_def)

lemma card_dom_hm_abs:
  assumes "hm_inv hash m"
  shows "card (dom (hm_abs m)) = msize m"
  using length_entries [OF assms] distinct_card [OF distinct_entries [OF assms]]
  by (simp add: hm_abs_def dom_map_of_conv_image_fst)

section \<open>The slow path is a linear probe\<close>

text \<open>The reference: compare the \<open>s\<close> slots from \<open>i\<close> on, one after the other, cyclically.\<close>

fun probe_linear :: "('k, 'v) hash_map \<Rightarrow> nat \<Rightarrow> 'k \<Rightarrow> nat \<Rightarrow> nat \<Rightarrow> iterator" where
  "probe_linear m ki k i 0 = mk_iterator (Some ki) (Some i) None"
| "probe_linear m ki k i (Suc s) =
     (if sec_equal m ki k i then mk_iterator (Some ki) (Some i) (Some (SecondarySlot i))
      else probe_linear m ki k ((i + 1) mod ksize m) s)"

lemma probe_run_Inr:
  "probe_run m ki k n (i, vi, s) = Inr c \<Longrightarrow> c = (i + n, vi + n, s - n)"
proof (induction n arbitrary: i vi s)
  case (Suc n)
  from Suc.prems have "probe_run m ki k n (i + 1, vi + 1, s - 1) = Inr c" by (simp split: if_splits)
  then have "c = (i + 1 + n, vi + 1 + n, s - 1 - n)" by (rule Suc.IH)
  then show ?case by simp
qed simp

lemma probe_run_linear:
  assumes "pow2 (ksize m)" "n \<le> s" "i + n \<le> ksize m" "i < ksize m" "vi mod ksize m = i"
  shows "probe_linear m ki k i s =
    (case probe_run m ki k n (i, vi, s) of
       Inl it \<Rightarrow> it
     | Inr c \<Rightarrow> probe_linear m ki k (fst c mod ksize m) (snd (snd c)))"
  using assms(2-)
proof (induction n arbitrary: i vi s)
  case 0
  then show ?case by simp
next
  case (Suc n)
  then obtain s' where s: "s = Suc s'" by (cases s) auto
  have vi: "vi AND (ksize m - Suc 0) = i" using Suc.prems and_mask_mod [OF assms(1)] by simp
  show ?case
  proof (cases "sec_equal m ki k i")
    case True
    then show ?thesis by (simp add: s vi)
  next
    case False
    show ?thesis
    proof (cases "Suc i = ksize m")
      case True
      with Suc.prems have "n = 0" by simp
      with False True show ?thesis by (simp add: s)
    next
      case neq: False
      with Suc.prems have lt: "Suc i < ksize m" by simp
      have "Suc vi mod ksize m = Suc i" using Suc.prems lt by (simp add: mod_Suc)
      with Suc.IH [of s' "Suc i" "Suc vi"] Suc.prems lt False show ?thesis by (simp add: s)
    qed
  qed
qed

lemma mod_add_nowrap:
  fixes i s K :: nat
  assumes "i < K" "s < K" "i < (i + s) mod K"
  shows "(i + s) mod K = i + s" "i + s < K"
proof -
  show "i + s < K"
  proof (rule ccontr)
    assume "\<not> i + s < K"
    then have "(i + s) mod K = i + s - K" using assms(1,2)
      by (simp add: mod_if)
    with assms show False by simp
  qed
  then show "(i + s) mod K = i + s" by simp
qed

lemma mod_add_eq_self:
  fixes i s K :: nat
  assumes "i < K" "s < K"
  shows "(i + s) mod K = i \<longleftrightarrow> s = 0"
  using assms by (auto simp: mod_if)

text \<open>
  One pass of the unrolled loop either returns what the linear probe returns, or leaves a
  shorter probe with the same result: \<open>cursor_ok\<close> relates the loop variables to the probe
  still to be made.
\<close>

definition cursor_ok :: "('k, 'v) hash_map \<Rightarrow> nat \<Rightarrow> nat \<times> nat \<times> nat \<Rightarrow> bool" where
  "cursor_ok m e = (\<lambda>(i, vi, s). i < ksize m \<and> vi mod ksize m = i \<and> e = (i + s) mod ksize m)"

definition pass_ok ::
  "('k, 'v) hash_map \<Rightarrow> nat \<Rightarrow> 'k \<Rightarrow> nat \<Rightarrow> nat \<Rightarrow> nat \<Rightarrow> iterator + (nat \<times> nat \<times> nat) \<Rightarrow> bool" where
  "pass_ok m ki k e i s r =
     (case r of
        Inl it \<Rightarrow> it = probe_linear m ki k i s
      | Inr (i', vi', s') \<Rightarrow> s' < s \<and> cursor_ok m e (i', vi', s') \<and>
          probe_linear m ki k i' s' = probe_linear m ki k i s)"

lemma slow_tail_linear:
  assumes "pow2 (ksize m)" "0 < s" "cursor_ok m e (i, vi, s)"
  shows "pass_ok m ki k e i s (slow_tail m ki k (i, vi, s))"
proof -
  let ?K = "ksize m"
  have K: "0 < ?K" using assms(1) by (rule pow2_pos)
  obtain t where t: "s = Suc t" using assms(2) by (cases s) auto
  have vi: "vi AND (?K - Suc 0) = i" "i < ?K" "vi mod ?K = i"
    using assms(3) and_mask_mod [OF assms(1)] by (auto simp: cursor_ok_def)
  have "e = (Suc i mod ?K + t) mod ?K"
    using assms(3) t by (simp add: cursor_ok_def mod_add_left_eq)
  with vi t K show ?thesis
    by (auto simp: pass_ok_def slow_tail_def cursor_ok_def mod_Suc)
qed

lemma slow_pass_linear:
  assumes "pow2 (ksize m)" "0 < s" "s < ksize m" "cursor_ok m e (i, vi, s)"
  shows "pass_ok m ki k e i s (slow_pass m ki k e (i, vi, s))"
proof (cases "i < e")
  case False
  then show ?thesis using slow_tail_linear [OF assms(1,2,4)] by (simp add: slow_pass_def slow_switch_def)
next
  case True
  let ?K = "ksize m" and ?n = "switch_count s"
  have n: "?n \<le> s" using assms(2) by (auto simp: switch_count_def)
  have i: "i < ?K" "vi mod ?K = i" "e = (i + s) mod ?K" using assms(4) by (auto simp: cursor_ok_def)
  have nowrap: "e = i + s" "i + s < ?K"
    using mod_add_nowrap [OF i(1) assms(3)] True i(3) by auto
  note pr = probe_run_linear [OF assms(1) n _ i(1,2), of ki k]
  show ?thesis
  proof (cases "probe_run m ki k ?n (i, vi, s)")
    case (Inl it)
    then show ?thesis using pr nowrap True n
      by (simp add: slow_pass_def slow_switch_def pass_ok_def)
  next
    case (Inr c)
    then have c: "c = (i + ?n, vi + ?n, s - ?n)" by (rule probe_run_Inr)
    have pl: "probe_linear m ki k i s = probe_linear m ki k (i + ?n) (s - ?n)"
      using pr nowrap n Inr c by simp
    show ?thesis
    proof (cases "?n = s")
      case ns: True
      then show ?thesis using pl nowrap True Inr c
        by (simp add: slow_pass_def slow_switch_def pass_ok_def)
    next
      case False
      have "(vi + ?n) mod ?K = (i + ?n) mod ?K" using i(2) by (metis mod_add_left_eq)
      then have cur: "cursor_ok m e (i + ?n, vi + ?n, s - ?n)"
        using n nowrap by (simp add: cursor_ok_def)
      have "0 < s - ?n" using False n by simp
      from slow_tail_linear [OF assms(1) this cur]
      have "pass_ok m ki k e (i + ?n) (s - ?n) (slow_tail m ki k c)" by (simp add: c)
      moreover have "i + ?n \<noteq> e" using False nowrap by simp
      ultimately show ?thesis using pl Inr c True
        by (auto simp: slow_pass_def slow_switch_def pass_ok_def split: sum.splits)
    qed
  qed
qed

lemma slow_loop_linear:
  assumes "pow2 (ksize m)" "0 < s" "s < ksize m" "i < ksize m" "vi mod ksize m = i" "s \<le> fuel"
  shows "slow_loop fuel m ki k ((i + s) mod ksize m) (i, vi, s) = Some (probe_linear m ki k i s)"
  using assms(2-)
proof (induction fuel arbitrary: i vi s)
  case 0
  then show ?case by simp
next
  case (Suc fuel)
  let ?e = "(i + s) mod ksize m"
  have "cursor_ok m ?e (i, vi, s)" using Suc.prems by (simp add: cursor_ok_def)
  note sp = slow_pass_linear [OF assms(1) Suc.prems(1,2) this, of ki k]
  show ?case
  proof (cases "slow_pass m ki k ?e (i, vi, s)")
    case (Inl it)
    with sp show ?thesis by (simp add: pass_ok_def)
  next
    case (Inr c)
    obtain i' vi' s' where c: "c = (i', vi', s')" by (cases c)
    from sp Inr c have s': "s' < s" "i' < ksize m" "vi' mod ksize m = i'" "?e = (i' + s') mod ksize m"
      "probe_linear m ki k i' s' = probe_linear m ki k i s" by (auto simp: pass_ok_def cursor_ok_def)
    have "s' < ksize m" using s'(1) Suc.prems(2) by simp
    with mod_add_eq_self [OF s'(2) this] s'(4) have "i' = ?e \<longleftrightarrow> s' = 0" by metis
    moreover have "slow_loop fuel m ki k ?e c = Some (probe_linear m ki k i s)" if "0 < s'"
      using Suc.IH [of s' i' vi'] that s' Suc.prems \<open>s' < ksize m\<close> c by simp
    ultimately show ?thesis using Inr s'(5) c by (cases "s' = 0") auto
  qed
qed

theorem findSlowPath_linear:
  assumes "pow2 (ksize m)" "0 < s" "s < ksize m" "ki < ksize m"
  shows "findSlowPath m ki s k = probe_linear m ki k ki s"
  using slow_loop_linear [OF assms(1-4), of ki "ksize m" ki k] assms and_mask_mod [OF assms(1)]
  by (simp add: findSlowPath_def)

section \<open>Lookup is correct\<close>

lemma probe_linear_cases:
  assumes "i < ksize m"
  obtains (Hit) d where "d < s" "sec_equal m ki k ((i + d) mod ksize m)"
      "probe_linear m ki k i s
       = mk_iterator (Some ki) (Some ((i + d) mod ksize m)) (Some (SecondarySlot ((i + d) mod ksize m)))"
    | (Miss) "\<And>d. d < s \<Longrightarrow> \<not> sec_equal m ki k ((i + d) mod ksize m)"
      "probe_linear m ki k i s = mk_iterator (Some ki) (Some ((i + s) mod ksize m)) None"
  using assms
proof (induction s arbitrary: i thesis)
  case 0
  then show ?case by simp
next
  case (Suc s)
  let ?i' = "(i + 1) mod ksize m"
  have shift: "(?i' + d) mod ksize m = (i + Suc d) mod ksize m" for d
    by (simp add: mod_add_left_eq)
  show ?case
  proof (cases "sec_equal m ki k i")
    case True
    then show ?thesis using Suc.prems(1) [of 0] Suc.prems(3) by simp
  next
    case False
    have "?i' < ksize m" using Suc.prems(3) by simp
    then show ?thesis
    proof (rule Suc.IH [rotated 2])
      fix d assume "d < s" "sec_equal m ki k ((?i' + d) mod ksize m)"
        "probe_linear m ki k ?i' s
         = mk_iterator (Some ki) (Some ((?i' + d) mod ksize m)) (Some (SecondarySlot ((?i' + d) mod ksize m)))"
      then show ?thesis using Suc.prems(1) [of "Suc d"] False unfolding shift by simp
    next
      assume none: "\<And>d. d < s \<Longrightarrow> \<not> sec_equal m ki k ((?i' + d) mod ksize m)"
        and r: "probe_linear m ki k ?i' s = mk_iterator (Some ki) (Some ((?i' + s) mod ksize m)) None"
      have "\<not> sec_equal m ki k ((i + d) mod ksize m)" if "d < Suc s" for d
        using that none [unfolded shift] False Suc.prems(3) by (cases d) auto
      then show ?thesis using Suc.prems(2) r False unfolding shift by simp
    qed
  qed
qed

text \<open>
  The iterator for a stored item, and the three outcomes of \<open>find\<close>: the item's iterator; the
  empty home bucket; the first slot after the chain of an occupied home bucket.
\<close>

fun item_iterator :: "nat \<Rightarrow> slot \<Rightarrow> iterator" where
  "item_iterator ki (PrimarySlot i) = mk_iterator (Some ki) None (Some (PrimarySlot i))"
| "item_iterator ki (SecondarySlot j) = mk_iterator (Some ki) (Some j) (Some (SecondarySlot j))"

lemma it_v_item [simp]: "it_v (item_iterator ki a) = Some a"
  by (cases a) (simp_all add: mk_iterator_def)

lemma stored_home:
  assumes "hm_inv hash m" "stored m a k v"
  shows "a = PrimarySlot (bucket_index hash (ksize m) k) \<or>
    (\<exists>p d. primary m ! bucket_index hash (ksize m) k = Some p \<and> pkey p \<noteq> k \<and> d < psize p \<and>
       a = SecondarySlot ((bucket_index hash (ksize m) k + d) mod ksize m) \<and>
       sec_equal m (bucket_index hash (ksize m) k) k ((bucket_index hash (ksize m) k + d) mod ksize m))"
proof (cases a)
  case (PrimarySlot i)
  then show ?thesis
    using assms hm_invD(5) [OF assms(1), of i] by (auto simp: primary_ok_def)
next
  case (SecondarySlot j)
  with assms(2) obtain s where s: "j < ksize m" "secondary m ! j = Some s" "skey s = k" by auto
  obtain p d where "bucket_index hash (ksize m) (skey s) = sindex s"
    "primary m ! sindex s = Some p" "pkey p \<noteq> skey s" "d < psize p" "j = (sindex s + d) mod ksize m"
    using hm_invD(6) [OF assms(1) s(1)] s(2) by (rule secondary_okE)
  with s SecondarySlot show ?thesis by (auto simp: sec_equal_def)
qed

lemma find_it_cases:
  assumes inv: "hm_inv hash m" and ne: "0 < ksize m"
  obtains (Found) a v where "stored m a k v"
      "find_it hash m k = item_iterator (bucket_index hash (ksize m) k) a"
    | (Free) "primary m ! bucket_index hash (ksize m) k = None" "hm_abs m k = None"
      "find_it hash m k = mk_iterator (Some (bucket_index hash (ksize m) k)) None None"
    | (Chain) p where "primary m ! bucket_index hash (ksize m) k = Some p" "pkey p \<noteq> k" "hm_abs m k = None"
      "find_it hash m k = mk_iterator (Some (bucket_index hash (ksize m) k))
         (Some ((bucket_index hash (ksize m) k + psize p) mod ksize m)) None"
proof -
  let ?K = "ksize m" and ?b = "bucket_index hash (ksize m) k"
  have b: "?b < ?K" using ne by (rule bucket_index_less)
  have nn: "primary m \<noteq> []" using hm_invD(1) [OF inv] ne by auto
  show thesis
  proof (cases "primary m ! ?b")
    case None
    have "hm_abs m k = None"
      using stored_home [OF inv] None b by (force simp: hm_abs_None [OF inv])
    with None nn show thesis by (intro Free) (simp_all add: find_it_def Let_def)
  next
    case (Some p)
    note ok = primary_okD [OF hm_invD(5) [OF inv b] Some]
    show thesis
    proof (cases "pkey p = k")
      case True
      with Some b nn show thesis
        by (intro Found [of "PrimarySlot ?b" "pvalue p"]) (simp_all add: find_it_def Let_def)
    next
      case False
      have absent: "hm_abs m k = None"
        if "\<And>d. d < psize p \<Longrightarrow> \<not> sec_equal m ?b k ((?b + d) mod ?K)"
        using stored_home [OF inv] that Some False by (force simp: hm_abs_None [OF inv])
      show thesis
      proof (cases "psize p = 0")
        case True
        with absent Some False nn b show thesis
          by (intro Chain [of p]) (simp_all add: find_it_def Let_def)
      next
        case size: False
        have "pow2 ?K" using hm_invD(3) [OF inv] ne by simp
        then have f: "find_it hash m k = probe_linear m ?b k ?b (psize p)"
          using findSlowPath_linear [of m "psize p" ?b k] ok(2) size b Some False nn
          by (simp add: find_it_def Let_def)
        from b show thesis
        proof (cases rule: probe_linear_cases [where s = "psize p" and ki = ?b and k = k])
          case (Hit d)
          then obtain s where "secondary m ! ((?b + d) mod ?K) = Some s" "skey s = k"
            by (auto simp: sec_equal_def split: option.splits)
          with Hit f ne show thesis
            by (intro Found [of "SecondarySlot ((?b + d) mod ?K)" "svalue s"]) simp_all
        next
          case Miss
          with absent f Some False show thesis by (intro Chain) simp_all
        qed
      qed
    qed
  qed
qed

lemma ksize_zero:
  assumes "hm_inv hash m" "ksize m = 0"
  shows "primary m = []" "hm_abs m = Map.empty" "msize m = 0"
  using hm_invD(1,2,4) [OF assms(1)] assms(2) by (auto simp: hm_abs_def entries_def)

text \<open>\<open>find\<close> points at the item with the key exactly when the map has the key.\<close>

theorem find_it_correct:
  assumes "hm_inv hash m"
  shows "hm_abs m k = map_option (\<lambda>a. snd (the (deref m a))) (it_v (find_it hash m k))"
proof (cases "ksize m = 0")
  case True
  with ksize_zero [OF assms] show ?thesis
    by (simp add: find_it_def end_iter_def mk_iterator_def)
next
  case False
  then have "0 < ksize m" by simp
  from assms this show ?thesis
  proof (cases rule: find_it_cases [where k = k])
    case (Found a v)
    then have "hm_abs m k = Some v" using hm_abs_iff [OF assms] by blast
    with Found show ?thesis by (simp add: stored_def)
  qed (simp_all add: mk_iterator_def)
qed

theorem contains_correct:
  assumes "hm_inv hash m"
  shows "contains hash m k \<longleftrightarrow> k \<in> dom (hm_abs m)"
  using find_it_correct [OF assms, of k]
  by (cases "it_v (find_it hash m k)") (auto simp: contains_def end_iter_def mk_iterator_def)

theorem hm_at_correct:
  assumes "hm_inv hash m"
  shows "hm_at hash m k = (case hm_abs m k of None \<Rightarrow> Inl OutOfRange | Some v \<Rightarrow> Inr v)"
  using find_it_correct [OF assms, of k]
  by (auto simp: hm_at_def split: option.splits)

end
