(* ===== verification/Hash_Map_Erase.thy ===== *)
theory Hash_Map_Erase
  imports Hash_Map_Lookup
begin

unbundle bit_operations_syntax

text \<open>
  Removal from the hash table. The item at the end of the bucket's chain moves into the cell
  that is erased; the proofs see the removal as two steps, dropping the end of the chain and
  overwriting the erased cell with what was there.
\<close>

section \<open>Dropping the end of a chain\<close>

lemma shrink_size_spec:
  "shrink_size sec ki msk s \<le> s"
  "shrink_size sec ki msk s = 0 \<or> sec_owned sec ki ((ki + (shrink_size sec ki msk s - 1)) AND msk)"
  "shrink_size sec ki msk s \<le> d \<Longrightarrow> d < s \<Longrightarrow> \<not> sec_owned sec ki ((ki + d) AND msk)"
  by (induction s) (auto simp: less_Suc_eq split: if_splits)

lemma shrink_size_cong:
  assumes "\<And>j. sec_owned sec ki j = sec_owned sec' ki j"
  shows "shrink_size sec ki msk s = shrink_size sec' ki msk s"
  by (induction s) (simp_all add: assms)

definition drop_end :: "('k, 'v) hash_map \<Rightarrow> nat \<Rightarrow> ('k, 'v) hash_map" where
  "drop_end m ki =
     (let pv = the (primary m ! ki);
          index = (ki + (psize pv - 1)) AND (ksize m - 1);
          sec = (secondary m)[index := None]
      in m\<lparr>msize := msize m - 1, secondary := sec,
           primary := (primary m)[ki := Some (pv\<lparr>psize := shrink_size sec ki (ksize m - 1) (psize pv - 1)\<rparr>)]\<rparr>)"

lemma drop_end_ok:
  fixes m :: "('k, 'v) hash_map"
  assumes inv: "hm_inv hash m" and ki: "ki < ksize m" and p: "primary m ! ki = Some p" "psize p = Suc s"
  defines "index \<equiv> (ki + s) mod ksize m" and "m' \<equiv> drop_end m ki"
  shows "hm_inv hash m'" "stored m' a l w \<longleftrightarrow> stored m a l w \<and> a \<noteq> SecondarySlot index"
    "sec_owned (secondary m) ki index" "index < ksize m"
proof -
  let ?K = "ksize m" and ?sec = "(secondary m)[index := None]"
  note I = hm_invD [OF inv]
  note pk = primary_okD [OF I(5) [OF ki] p(1)]
  have K: "pow2 ?K" using I(3) ki by auto
  note and_mask = and_mask_mod [OF K]
  show own: "sec_owned (secondary m) ki index" and index: "index < ?K"
    using pk(3) p(2) ki by (simp_all add: index_def)
  define s' where "s' = shrink_size ?sec ki (?K - 1) s"
  note S = shrink_size_spec [of ?sec ki "?K - 1" s, folded s'_def, simplified and_mask One_nat_def]
  have m': "m' = m\<lparr>msize := msize m - 1, secondary := ?sec, primary := (primary m)[ki := Some (p\<lparr>psize := s'\<rparr>)]\<rparr>"
    using and_mask by (simp add: m'_def drop_end_def Let_def p index_def s'_def)
  have owned: "sec_owned ?sec i j \<longleftrightarrow> sec_owned (secondary m) i j \<and> j \<noteq> index" for i j
    using index by (cases "j = index") (auto simp: sec_owned_iff I(2))
  have prim: "primary_ok hash m' i" if "i < ksize m'" for i
  proof (cases "i = ki")
    case True
    then show ?thesis using pk(1,2) S(1,2) p(2) ki by (auto simp: primary_ok_def m' I(1))
  next
    case False
    then have "\<not> sec_owned (secondary m) i index" using own by (auto simp: sec_owned_iff)
    then show ?thesis using I(5) [of i] that False by (auto simp: primary_ok_def m' owned)
  qed
  have sec: "secondary_ok hash m' j" if j: "j < ksize m'" for j
    unfolding secondary_ok_def
  proof (intro allI impI)
    fix t assume t': "secondary m' ! j = Some t"
    then have ne: "j \<noteq> index" and t: "secondary m ! j = Some t"
      using index by (auto simp: m' I(2) nth_list_update split: if_splits)
    have "secondary_ok hash m j" using I(6) j by (simp add: m')
    then obtain q d where q: "bucket_index hash ?K (skey t) = sindex t" "primary m ! sindex t = Some q"
      "pkey q \<noteq> skey t" "d < psize q" "j = (sindex t + d) mod ?K"
      using t by (rule secondary_okE)
    have "\<exists>q'. primary m' ! sindex t = Some q' \<and> pkey q' = pkey q \<and> d < psize q'"
    proof (cases "sindex t = ki")
      case False
      then show ?thesis using q(2,4) by (simp add: m')
    next
      case True
      then have "d < s" using q p ne index_def by (auto simp: less_Suc_eq)
      moreover have "sec_owned ?sec ki ((ki + d) mod ?K)" using True q(5) t ne by (auto simp: owned sec_owned_iff)
      ultimately have "d < s'" using S(3) [of d] by (meson not_le_imp_less)
      then show ?thesis using True q(2) p ki by (simp add: m' I(1))
    qed
    with q show "bucket_index hash (ksize m') (skey t) = sindex t \<and>
        (\<exists>p. primary m' ! sindex t = Some p \<and> pkey p \<noteq> skey t \<and> (\<exists>d<psize p. j = (sindex t + d) mod ksize m'))"
      by (auto simp: m')
  qed
  have "sec_distinct m'"
    using I(7) index by (auto simp: sec_distinct_def m' nth_list_update I(2) split: if_splits)
  with prim sec show "hm_inv hash m'"
    using I ki p(1) index own occupied_update [of ki "primary m" "Some (p\<lparr>psize := s'\<rparr>)"]
      occupied_update [of index "secondary m" None] occupied_pos [of index "secondary m"]
    by (auto simp: hm_inv_def m' sec_owned_iff)
  show "stored m' a l w \<longleftrightarrow> stored m a l w \<and> a \<noteq> SecondarySlot index"
    using ki p index by (cases a) (auto simp: m' nth_list_update I(1,2))
qed

section \<open>Overwriting a cell\<close>

text \<open>A cell takes over another key of the same bucket.\<close>

lemma overwrite_primary:
  fixes m :: "('k, 'v) hash_map" and v :: 'v
  assumes inv: "hm_inv hash m" and ki: "ki < ksize m" and p: "primary m ! ki = Some p"
    and home: "bucket_index hash (ksize m) k = ki" and absent: "hm_abs m k = None"
  defines "m' \<equiv> m\<lparr>primary := (primary m)[ki := Some (p\<lparr>pkey := k, pvalue := v\<rparr>)]\<rparr>"
  shows "hm_inv hash m'"
    "stored m' a l w \<longleftrightarrow> (if a = PrimarySlot ki then l = k \<and> w = v else stored m a l w)"
proof -
  note I = hm_invD [OF inv]
  have "primary_ok hash m' i" if "i < ksize m'" for i
    using I(5) [of i] that ki p home by (auto simp: m'_def primary_ok_def nth_list_update I(1))
  moreover have "secondary_ok hash m' j" if j: "j < ksize m'" for j
  proof -
    have "skey s \<noteq> k" if "secondary m ! j = Some s" for s
      using that absent j
      by (auto simp: hm_abs_None [OF inv] m'_def dest!: spec [of _ "SecondarySlot j"])
    then show ?thesis
      using I(6) [of j] j ki p by (fastforce simp: m'_def secondary_ok_def nth_list_update I(1))
  qed
  ultimately show "hm_inv hash m'"
    using I ki p occupied_update [of ki "primary m" "Some (p\<lparr>pkey := k, pvalue := v\<rparr>)"]
    by (simp add: hm_inv_def m'_def sec_distinct_def)
  show "stored m' a l w \<longleftrightarrow> (if a = PrimarySlot ki then l = k \<and> w = v else stored m a l w)"
    using ki p by (cases a) (auto simp: m'_def nth_list_update I(1))
qed

lemma overwrite_secondary:
  fixes m :: "('k, 'v) hash_map" and v :: 'v
  assumes inv: "hm_inv hash m" and vi: "vi < ksize m" and s: "secondary m ! vi = Some s"
    and home: "bucket_index hash (ksize m) k = sindex s" and absent: "hm_abs m k = None"
  defines "m' \<equiv> m\<lparr>secondary := (secondary m)[vi := Some (s\<lparr>skey := k, svalue := v\<rparr>)]\<rparr>"
  shows "hm_inv hash m'"
    "stored m' a l w \<longleftrightarrow> (if a = SecondarySlot vi then l = k \<and> w = v else stored m a l w)"
proof -
  note I = hm_invD [OF inv]
  have fresh: "\<not> stored m b k x" for b x using absent by (simp add: hm_abs_None [OF inv])
  have sk: "secondary m ! j = Some t \<Longrightarrow> j < ksize m \<Longrightarrow> skey t \<noteq> k"
    and pk: "primary m ! j = Some q \<Longrightarrow> j < ksize m \<Longrightarrow> pkey q \<noteq> k" for j t q
    using fresh [of "SecondarySlot j"] fresh [of "PrimarySlot j"] by auto
  have own: "sec_owned (secondary m') i j = sec_owned (secondary m) i j" for i j
    using vi s by (cases "j = vi") (auto simp: m'_def sec_owned_iff I(2))
  have "primary_ok hash m' i" if "i < ksize m'" for i
    using I(5) [of i] that own by (simp add: primary_ok_def m'_def)
  moreover have "secondary_ok hash m' j" if j: "j < ksize m'" for j
  proof (cases "j = vi")
    case False
    then show ?thesis using I(6) [of j] j by (simp add: m'_def secondary_ok_def)
  next
    case True
    obtain q d where q: "bucket_index hash (ksize m) (skey s) = sindex s" "primary m ! sindex s = Some q"
      "pkey q \<noteq> skey s" "d < psize q" "vi = (sindex s + d) mod ksize m"
      using I(6) [OF vi] s by (rule secondary_okE)
    have "sindex s < ksize m" using q(1) bucket_index_less [of "ksize m" hash] vi by (metis gr_zeroI not_less0)
    then have "pkey q \<noteq> k" using pk q(2) by blast
    with True q(2,4,5) home vi show ?thesis by (auto simp: m'_def secondary_ok_def I(2))
  qed
  moreover have "sec_distinct m'"
    unfolding sec_distinct_def
  proof (intro allI impI)
    fix j j' t t'
    assume j: "j < ksize m'" "j' < ksize m'" and t: "secondary m' ! j = Some t" "secondary m' ! j' = Some t'"
      and eq: "skey t = skey t'"
    have new: "skey u = k \<longleftrightarrow> i = vi" if "i < ksize m'" "secondary m' ! i = Some u" for i u
      using that sk [of i u] vi by (auto simp: m'_def I(2) nth_list_update split: if_splits)
    show "j = j'"
    proof (cases "skey t = k")
      case True
      with new j t eq show ?thesis by metis
    next
      case False
      then have "j \<noteq> vi" "j' \<noteq> vi" using new j t eq by metis+
      then show ?thesis using I(7) j t eq by (simp add: sec_distinct_def m'_def)
    qed
  qed
  ultimately show "hm_inv hash m'"
    using I vi s occupied_update [of vi "secondary m" "Some (s\<lparr>skey := k, svalue := v\<rparr>)"]
    by (simp add: hm_inv_def m'_def)
  show "stored m' a l w \<longleftrightarrow> (if a = SecondarySlot vi then l = k \<and> w = v else stored m a l w)"
    using vi s by (cases a) (auto simp: m'_def nth_list_update I(2))
qed

section \<open>Erasing an item\<close>

definition erased :: "('k \<Rightarrow> u64) \<Rightarrow> ('k, 'v) hash_map \<Rightarrow> 'k \<Rightarrow> ('k, 'v) hash_map \<Rightarrow> bool" where
  "erased hash m k m' \<longleftrightarrow>
     hm_inv hash m' \<and> ksize m' = ksize m \<and> hm_abs m' = (hm_abs m)(k := None) \<and> msize m' + 1 = msize m"

lemma erasedI:
  assumes inv: "hm_inv hash m" "hm_inv hash m'" and "ksize m' = ksize m" "stored m a k v"
    and st: "\<And>l w. (\<exists>b. stored m' b l w) \<longleftrightarrow> (\<exists>b. b \<noteq> a \<and> stored m b l w)"
  shows "erased hash m k m'"
proof -
  have k: "hm_abs m k = Some v" using assms(4) hm_abs_iff [OF inv(1)] by blast
  have "hm_abs m' = (hm_abs m)(k := None)"
  proof (rule hm_abs_eqI [OF inv(2)])
    fix l w
    have "(\<exists>b. b \<noteq> a \<and> stored m b l w) \<longleftrightarrow> l \<noteq> k \<and> (\<exists>b. stored m b l w)"
      using stored_unique [OF inv(1)] assms(4) by (metis stored_def option.inject prod.inject)
    then show "((hm_abs m)(k := None)) l = Some w \<longleftrightarrow> (\<exists>b. stored m' b l w)"
      using st hm_abs_iff [OF inv(1), of l w] by simp
  qed
  moreover from this have "card (dom (hm_abs m')) + 1 = card (dom (hm_abs m))"
    using k card_dom_hm_abs [OF inv(1)] card_Suc_Diff1 [of "dom (hm_abs m)" k]
    by (simp add: finite_dom_map_of hm_abs_def domI)
  ultimately show ?thesis
    using assms(3) inv card_dom_hm_abs [OF inv(1)] card_dom_hm_abs [OF inv(2)] by (simp add: erased_def)
qed

lemma erased_moved:
  assumes inv: "hm_inv hash m" "hm_inv hash m'" and "ksize m' = ksize m"
    and a: "stored m a k v" and c: "stored m c k' v'" "a \<noteq> c"
    and st: "\<And>b l w. stored m' b l w \<longleftrightarrow> (if b = a then l = k' \<and> w = v' else stored m b l w \<and> b \<noteq> c)"
  shows "erased hash m k m'"
proof (rule erasedI [OF inv assms(3) a])
  fix l w
  have "stored m c l w \<longleftrightarrow> l = k' \<and> w = v'" using c(1) by (auto simp: stored_def)
  then show "(\<exists>b. stored m' b l w) \<longleftrightarrow> (\<exists>b. b \<noteq> a \<and> stored m b l w)"
    unfolding st using c(2) by metis
qed

lemma remove_primary:
  fixes m :: "('k, 'v) hash_map"
  assumes inv: "hm_inv hash m" and ki: "ki < ksize m" and p: "primary m ! ki = Some p" "psize p = 0"
  defines "m' \<equiv> m\<lparr>msize := msize m - 1, primary := (primary m)[ki := None]\<rparr>"
  shows "hm_inv hash m'" "stored m' a l w \<longleftrightarrow> stored m a l w \<and> a \<noteq> PrimarySlot ki"
proof -
  note I = hm_invD [OF inv]
  have "primary_ok hash m' i" if "i < ksize m'" for i
    using I(5) [of i] that ki by (auto simp: m'_def primary_ok_def nth_list_update I(1))
  moreover have "secondary_ok hash m' j" if "j < ksize m'" for j
    using I(6) [of j] that ki p by (fastforce simp: m'_def secondary_ok_def nth_list_update I(1))
  ultimately show "hm_inv hash m'"
    using I ki p occupied_update [of ki "primary m" None] occupied_pos [of ki "primary m"]
    by (auto simp: hm_inv_def m'_def sec_distinct_def)
  show "stored m' a l w \<longleftrightarrow> stored m a l w \<and> a \<noteq> PrimarySlot ki"
    using ki by (cases a) (auto simp: m'_def nth_list_update I(1))
qed

lemma erase_primary:
  assumes inv: "hm_inv hash m" and ki: "ki < ksize m" and p: "primary m ! ki = Some p"
  shows "erased hash m (pkey p) (fst (erase_it m (item_iterator ki (PrimarySlot ki))))"
proof (cases "psize p")
  case 0
  let ?m' = "m\<lparr>msize := msize m - 1, primary := (primary m)[ki := None]\<rparr>"
  have "erased hash m (pkey p) ?m'"
    by (rule erasedI [where a = "PrimarySlot ki" and v = "pvalue p"])
      (use remove_primary [OF inv ki p 0] inv ki p in auto)
  then show ?thesis by (simp add: erase_it_def mk_iterator_def p 0)
next
  case (Suc s)
  define m1 where "m1 = drop_end m ki"
  let ?index = "(ki + s) mod ksize m" and ?m' = "fst (erase_it m (item_iterator ki (PrimarySlot ki)))"
  note D = drop_end_ok [OF inv ki p Suc, folded m1_def]
  obtain l where l: "secondary m ! ?index = Some l" "sindex l = ki" using D(3) by (auto simp: sec_owned_iff)
  have last: "stored m (SecondarySlot ?index) (skey l) (svalue l)" using l D(4) by simp
  have K: "ksize m1 = ksize m" by (simp add: m1_def drop_end_def Let_def)
  have "pow2 (ksize m)" using hm_invD(3) [OF inv] ki by auto
  note and_mask = and_mask_mod [OF this]
  define q where "q = p\<lparr>psize := shrink_size ((secondary m)[?index := None]) ki (ksize m - 1) s\<rparr>"
  have q: "primary m1 ! ki = Some q"
    using ki p Suc hm_invD(1) [OF inv] and_mask by (simp add: m1_def drop_end_def Let_def q_def)
  have "bucket_index hash (ksize m) (skey l) = ki"
    using hm_invD(6) [OF inv D(4)] l by (auto simp: secondary_ok_def)
  moreover have "hm_abs m1 (skey l) = None"
    using D(2) stored_unique [OF inv last] by (auto simp: hm_abs_None [OF D(1)])
  ultimately have O: "hm_inv hash (m1\<lparr>primary := (primary m1)[ki := Some (q\<lparr>pkey := skey l, pvalue := svalue l\<rparr>)]\<rparr>)"
    "stored (m1\<lparr>primary := (primary m1)[ki := Some (q\<lparr>pkey := skey l, pvalue := svalue l\<rparr>)]\<rparr>) b k w \<longleftrightarrow>
      (if b = PrimarySlot ki then k = skey l \<and> w = svalue l else stored m1 b k w)" for b k w
    using overwrite_primary [OF D(1) _ q] K ki by simp_all
  have eq: "?m' = m1\<lparr>primary := (primary m1)[ki := Some (q\<lparr>pkey := skey l, pvalue := svalue l\<rparr>)]\<rparr>"
    using p Suc l and_mask
    by (cases p) (simp add: erase_it_def mk_iterator_def m1_def drop_end_def Let_def q_def)
  show ?thesis
    unfolding eq
    by (rule erased_moved [OF inv O(1) _ _ last, where a = "PrimarySlot ki" and v = "pvalue p"])
      (use O(2) D(2) K ki p in auto)
qed

lemma erase_secondary:
  assumes inv: "hm_inv hash m" and vi: "vi < ksize m" and t: "secondary m ! vi = Some t"
  shows "erased hash m (skey t) (fst (erase_it m (item_iterator (sindex t) (SecondarySlot vi))))"
proof -
  let ?ki = "sindex t" and ?m' = "fst (erase_it m (item_iterator (sindex t) (SecondarySlot vi)))"
  obtain p d where home: "bucket_index hash (ksize m) (skey t) = ?ki" and p: "primary m ! ?ki = Some p"
    and "d < psize p" using hm_invD(6) [OF inv vi] t by (rule secondary_okE)
  then obtain s where s: "psize p = Suc s" by (cases "psize p") auto
  have ki: "?ki < ksize m" using home bucket_index_less [of "ksize m" hash] vi by (metis gr_zeroI not_less0)
  define m1 where "m1 = drop_end m ?ki"
  let ?index = "(?ki + s) mod ksize m"
  note D = drop_end_ok [OF inv ki p s, folded m1_def]
  have "pow2 (ksize m)" using hm_invD(3) [OF inv] ki by auto
  note and_mask = and_mask_mod [OF this]
  have K: "ksize m1 = ksize m" "secondary m1 = (secondary m)[?index := None]"
    using s and_mask by (simp_all add: m1_def drop_end_def Let_def p)
  show ?thesis
  proof (cases "?index = vi")
    case True
    have "?m' = m1"
      using True p s and_mask by (simp add: erase_it_def mk_iterator_def m1_def drop_end_def Let_def)
    moreover have "erased hash m (skey t) m1"
      by (rule erasedI [OF inv D(1), where a = "SecondarySlot vi" and v = "svalue t"])
        (use D(2) K t vi True in auto)
    ultimately show ?thesis by simp
  next
    case False
    obtain l where l: "secondary m ! ?index = Some l" "sindex l = ?ki" using D(3) by (auto simp: sec_owned_iff)
    have last: "stored m (SecondarySlot ?index) (skey l) (svalue l)" using l D(4) by simp
    let ?t = "t\<lparr>skey := skey l, svalue := svalue l\<rparr>"
    let ?m2 = "m1\<lparr>secondary := (secondary m1)[vi := Some ?t]\<rparr>"
    have "bucket_index hash (ksize m) (skey l) = ?ki"
      using hm_invD(6) [OF inv D(4)] l by (auto simp: secondary_ok_def)
    moreover have "hm_abs m1 (skey l) = None"
      using D(2) stored_unique [OF inv last] by (auto simp: hm_abs_None [OF D(1)])
    ultimately have O: "hm_inv hash ?m2"
      "stored ?m2 b k w \<longleftrightarrow> (if b = SecondarySlot vi then k = skey l \<and> w = svalue l else stored m1 b k w)" for b k w
      using overwrite_secondary [OF D(1), of vi t] K vi t False by simp_all
    have "shrink_size ((secondary m)[vi := Some ?t, ?index := None]) ?ki (ksize m - Suc 0) s
        = shrink_size ((secondary m)[?index := None]) ?ki (ksize m - Suc 0) s"
      using t vi D(4) hm_invD(2) [OF inv]
      by (intro shrink_size_cong) (auto simp: sec_owned_iff nth_list_update)
    then have "?m' = ?m2"
      using False p s and_mask l t list_update_swap [of ?index vi "secondary m"]
      by (simp add: erase_it_def mk_iterator_def m1_def drop_end_def Let_def)
    moreover have "erased hash m (skey t) ?m2"
      by (rule erased_moved [OF inv O(1) _ _ last, where a = "SecondarySlot vi" and v = "svalue t"])
        (use O(2) D(2) K t vi False in auto)
    ultimately show ?thesis by simp
  qed
qed

lemma erase_item:
  assumes "hm_inv hash m" "stored m a k v"
  shows "erased hash m k (fst (erase_it m (item_iterator (bucket_index hash (ksize m) k) a)))"
proof (cases a)
  case (PrimarySlot i)
  with assms obtain p where p: "i < ksize m" "primary m ! i = Some p" "pkey p = k" by auto
  then have "bucket_index hash (ksize m) k = i"
    using primary_okD(1) [OF hm_invD(5) [OF assms(1)]] by blast
  then show ?thesis using erase_primary [OF assms(1) p(1,2)] p(3) PrimarySlot by simp
next
  case (SecondarySlot j)
  with assms obtain t where t: "j < ksize m" "secondary m ! j = Some t" "skey t = k" by auto
  then have "bucket_index hash (ksize m) k = sindex t"
    using hm_invD(6) [OF assms(1)] by (auto simp: secondary_ok_def)
  then show ?thesis using erase_secondary [OF assms(1) t(1,2)] t(3) SecondarySlot by simp
qed

text \<open>\<open>erase(key)\<close> removes the key and nothing else, and does nothing when it is absent.\<close>

lemma erase_key_ok:
  assumes "hm_inv hash m"
  shows "if hm_abs m k = None then erase_key hash m k = m else erased hash m k (erase_key hash m k)"
proof (cases "hm_abs m k")
  case None
  then have "it_v (find_it hash m k) = None" using find_it_correct [OF assms, of k] by simp
  with None show ?thesis by (simp add: erase_key_def end_iter_def mk_iterator_def)
next
  case (Some w)
  then have ne: "0 < ksize m" using ksize_zero(2) [OF assms] by (cases "ksize m") auto
  from assms ne show ?thesis
  proof (cases rule: find_it_cases [where k = k])
    case (Found a v)
    then show ?thesis using erase_item [OF assms Found(1)] Some by (simp add: erase_key_def end_iter_def mk_iterator_def)
  qed (use Some in simp_all)
qed

end
