(* ===== verification/Hash_Map_Insert.thy ===== *)
theory Hash_Map_Insert
  imports Hash_Map_Lookup
begin

unbundle bit_operations_syntax

text \<open>
  Insertion into the hash table: placing an item keeps the invariant and adds one key to the
  map, growing keeps the map, and \<open>try_emplace\<close> does what the two together promise.
\<close>

section \<open>Placing one item\<close>

text \<open>
  A table built by insertions alone has no holes inside its chains. \<open>rehash\<close> produces such
  tables; the argument that growth ends rests on them.
\<close>

definition compact :: "('k, 'v) hash_map \<Rightarrow> bool" where
  "compact m \<longleftrightarrow>
     (\<forall>i < ksize m. \<forall>p. primary m ! i = Some p \<longrightarrow>
        (\<forall>d < psize p. secondary m ! ((i + d) mod ksize m) \<noteq> None))"

lemma sec_distinct_absent:
  assumes inv: "hm_inv hash m" and "hm_abs m k = None" and "j < ksize m" "secondary m ! j = Some s"
  shows "skey s \<noteq> k"
  using assms(2-) by (auto simp: hm_abs_None [OF inv] dest!: spec [of _ "SecondarySlot j"])

lemma place_primary:
  fixes m :: "('k, 'v) hash_map" and v :: 'v
  assumes inv: "hm_inv hash m" and i: "i < ksize m" and none: "primary m ! i = None"
    and home: "bucket_index hash (ksize m) k = i"
  defines "m' \<equiv> m\<lparr>msize := msize m + 1, primary := (primary m)[i := Some \<lparr>pkey = k, pvalue = v, psize = 0\<rparr>]\<rparr>"
  shows "hm_inv hash m'" "stored m' a l w \<longleftrightarrow> stored m a l w \<or> a = PrimarySlot i \<and> l = k \<and> w = v"
    "compact m \<Longrightarrow> compact m'"
proof -
  note I = hm_invD [OF inv]
  have "primary_ok hash m' i'" if "i' < ksize m'" for i'
    using I(5) [of i'] that i home by (auto simp: m'_def primary_ok_def nth_list_update I(1))
  moreover have "secondary_ok hash m' j" if "j < ksize m'" for j
    using I(6) [of j] that i none by (auto simp: m'_def secondary_ok_def nth_list_update I(1))
  ultimately show "hm_inv hash m'"
    using I i none occupied_update [of i "primary m" "Some \<lparr>pkey = k, pvalue = v, psize = 0\<rparr>"]
    by (simp add: hm_inv_def m'_def sec_distinct_def)
  show "stored m' a l w \<longleftrightarrow> stored m a l w \<or> a = PrimarySlot i \<and> l = k \<and> w = v"
    using i none by (cases a) (auto simp: m'_def nth_list_update I(1))
  show "compact m \<Longrightarrow> compact m'"
    using i by (auto simp: compact_def m'_def nth_list_update I(1))
qed

text \<open>
  Extending the chain of an occupied bucket: the free slot \<open>index\<close> becomes its new end.
\<close>

lemma place_secondary:
  fixes m :: "('k, 'v) hash_map" and v :: 'v
  assumes inv: "hm_inv hash m" and ki: "ki < ksize m" and p: "primary m ! ki = Some p" "pkey p \<noteq> k"
    and home: "bucket_index hash (ksize m) k = ki" and absent: "hm_abs m k = None"
    and free: "index < ksize m" "secondary m ! index = None"
    and s: "psize p < s" "2 * s < ksize m" "index = (ki + (s - 1)) mod ksize m"
  defines "m' \<equiv> m\<lparr>msize := msize m + 1, primary := (primary m)[ki := Some (p\<lparr>psize := s\<rparr>)],
                  secondary := (secondary m)[index := Some \<lparr>skey = k, svalue = v, sindex = ki\<rparr>]\<rparr>"
  shows "hm_inv hash m'" "stored m' a l w \<longleftrightarrow> stored m a l w \<or> a = SecondarySlot index \<and> l = k \<and> w = v"
    "compact m \<Longrightarrow> (\<And>d. psize p \<le> d \<Longrightarrow> d < s - 1 \<Longrightarrow> secondary m ! ((ki + d) mod ksize m) \<noteq> None)
     \<Longrightarrow> compact m'"
proof -
  note I = hm_invD [OF inv]
  note pk = primary_okD [OF I(5) [OF ki] p(1)]
  have owned: "sec_owned (secondary m') i j" if "sec_owned (secondary m) i j" for i j
    using that free by (cases "j = index") (auto simp: sec_owned_iff m'_def nth_list_update I(2))
  have prim: "primary_ok hash m' i" if "i < ksize m'" for i
  proof (cases "i = ki")
    case True
    then show ?thesis using pk ki s free by (auto simp: primary_ok_def m'_def I(1,2) sec_owned_iff)
  next
    case False
    then show ?thesis using I(5) [of i] that owned by (auto simp: primary_ok_def m'_def)
  qed
  have sec: "secondary_ok hash m' j" if j: "j < ksize m'" for j
  proof (cases "j = index")
    case True
    have "\<exists>d < s. index = (ki + d) mod ksize m" using s(1,3) by (intro exI [of _ "s - 1"]) simp
    with True show ?thesis using home ki p free s(1) by (simp add: secondary_ok_def m'_def I(1,2))
  next
    case False
    have ok: "secondary_ok hash m j" using I(6) j by (simp add: m'_def)
    show ?thesis
      unfolding secondary_ok_def
    proof (intro allI impI)
      fix t assume "secondary m' ! j = Some t"
      then have t: "secondary m ! j = Some t" using False by (simp add: m'_def)
      obtain q d where q: "bucket_index hash (ksize m) (skey t) = sindex t" "primary m ! sindex t = Some q"
        "pkey q \<noteq> skey t" "d < psize q" "j = (sindex t + d) mod ksize m"
        using ok t by (rule secondary_okE)
      obtain q' where "primary m' ! sindex t = Some q'" "pkey q' = pkey q" "psize q \<le> psize q'"
        using q(2) p s(1) ki by (cases "sindex t = ki") (auto simp: m'_def I(1))
      with q show "bucket_index hash (ksize m') (skey t) = sindex t \<and>
          (\<exists>p. primary m' ! sindex t = Some p \<and> pkey p \<noteq> skey t \<and> (\<exists>d<psize p. j = (sindex t + d) mod ksize m'))"
        by (intro conjI exI [of _ q'] exI [of _ d]) (simp_all add: m'_def)
    qed
  qed
  have dist: "sec_distinct m'"
    unfolding sec_distinct_def
  proof (intro allI impI)
    fix j j' t t'
    assume j: "j < ksize m'" "j' < ksize m'" and t: "secondary m' ! j = Some t" "secondary m' ! j' = Some t'"
      and eq: "skey t = skey t'"
    have new: "skey u = k" if "secondary m' ! index = Some u" for u
      using that free by (auto simp: m'_def I(2))
    have old: "secondary m ! l = Some u" if "secondary m' ! l = Some u" "l \<noteq> index" for l u
      using that by (simp add: m'_def)
    show "j = j'"
    proof (cases "j = index \<or> j' = index")
      case True
      have "l = index" if "l < ksize m'" "secondary m' ! l = Some u" "skey u = k" for l u
        using that old [of l u] sec_distinct_absent [OF inv absent, of l u] by (auto simp: m'_def)
      with True new t eq j show ?thesis by metis
    next
      case False
      then show ?thesis using old t eq j I(7) by (auto simp: sec_distinct_def m'_def)
    qed
  qed
  show "hm_inv hash m'"
    using I prim sec dist p(1) free ki
      occupied_update [of ki "primary m" "Some (p\<lparr>psize := s\<rparr>)"]
      occupied_update [of index "secondary m" "Some \<lparr>skey = k, svalue = v, sindex = ki\<rparr>"]
    by (simp add: hm_inv_def m'_def)
  show "stored m' a l w \<longleftrightarrow> stored m a l w \<or> a = SecondarySlot index \<and> l = k \<and> w = v"
    using ki p free by (cases a) (auto simp: m'_def nth_list_update I(1,2))
  assume c: "compact m" and gap: "\<And>d. psize p \<le> d \<Longrightarrow> d < s - 1 \<Longrightarrow> secondary m ! ((ki + d) mod ksize m) \<noteq> None"
  show "compact m'"
    unfolding compact_def
  proof (intro allI impI)
    fix i q d assume i: "i < ksize m'" and q: "primary m' ! i = Some q" and d: "d < psize q"
    have "secondary m ! ((i + d) mod ksize m) \<noteq> None \<or> (i + d) mod ksize m = index"
    proof (cases "i = ki")
      case False
      then show ?thesis using c i q d by (auto simp: compact_def m'_def)
    next
      case True
      with q ki have "d < s" using d by (auto simp: m'_def I(1))
      then consider "d < psize p" | "psize p \<le> d" "d < s - 1" | "d = s - 1" by linarith
      then show ?thesis using c p(1) ki gap True s(3) by cases (auto simp: compact_def)
    qed
    then show "secondary m' ! ((i + d) mod ksize m') \<noteq> None"
      using free by (auto simp: m'_def nth_list_update I(2))
  qed
qed

lemma free_secondary_spec:
  assumes "pow2 K" "free_secondary fuel sec (K - 1) i s = Some (index, s')" "i < K"
  shows "\<exists>d. s' = s + d \<and> index = (i + d) mod K \<and> sec ! index = None \<and>
           (\<forall>d' < d. sec ! ((i + d') mod K) \<noteq> None)"
  using assms(2,3)
proof (induction fuel arbitrary: i s)
  case 0
  then show ?case
    by (auto simp: free_secondary.simps [of 0] split: if_splits)
next
  case (Suc fuel)
  show ?case
  proof (cases "sec ! i = None")
    case True
    with Suc.prems show ?thesis by (auto simp: free_secondary.simps [of "Suc fuel"])
  next
    case False
    let ?i = "(i + 1) mod K"
    have "free_secondary fuel sec (K - 1) ?i (s + 1) = Some (index, s')"
      using Suc.prems False and_mask_mod [OF assms(1)] by (simp add: free_secondary.simps [of "Suc fuel"])
    moreover have "?i < K" using pow2_pos [OF assms(1)] by simp
    ultimately obtain d where d: "s' = s + 1 + d" "index = (?i + d) mod K" "sec ! index = None"
      "\<forall>d' < d. sec ! ((?i + d') mod K) \<noteq> None" using Suc.IH by blast
    have shift: "(?i + e) mod K = (i + Suc e) mod K" for e by (simp add: mod_add_left_eq)
    have "sec ! ((i + d') mod K) \<noteq> None" if "d' < Suc d" for d'
      using that d(4) [unfolded shift] False Suc.prems(2) by (cases d') auto
    with d show ?thesis unfolding shift by (intro exI [of _ "Suc d"]) simp
  qed
qed

text \<open>What an insertion of \<open>k\<close> has to establish.\<close>

definition emplaced ::
  "('k \<Rightarrow> u64) \<Rightarrow> ('k, 'v) hash_map \<Rightarrow> 'k \<Rightarrow> 'v \<Rightarrow> ('k, 'v) hash_map \<times> iterator \<times> bool \<Rightarrow> bool" where
  "emplaced hash m k v = (\<lambda>(m', it, b).
     hm_inv hash m' \<and> 0 < ksize m' \<and> ksize m \<le> ksize m' \<and>
     b = (hm_abs m k = None) \<and>
     hm_abs m' = (if b then (hm_abs m)(k \<mapsto> v) else hm_abs m) \<and>
     (\<exists>a w. it_v it = Some a \<and> stored m' a k w) \<and>
     (compact m \<longrightarrow> compact m'))"

lemma emplaced_msize:
  assumes "hm_inv hash m" "emplaced hash m k v (m', it, b)"
  shows "msize m' = msize m + (if b then 1 else 0)"
proof -
  have "hm_inv hash m'" using assms(2) by (simp add: emplaced_def)
  then have "msize m' = card (dom (hm_abs m'))" "msize m = card (dom (hm_abs m))"
    using assms(1) by (simp_all add: card_dom_hm_abs)
  moreover have "finite (dom (hm_abs m))" by (simp add: hm_abs_def finite_dom_map_of)
  moreover have "dom (hm_abs m') = (if b then insert k (dom (hm_abs m)) else dom (hm_abs m))"
    "b \<Longrightarrow> k \<notin> dom (hm_abs m)"
    using assms(2) by (auto simp: emplaced_def)
  ultimately show ?thesis by (cases b) simp_all
qed

lemma emplaced_new:
  assumes inv: "hm_inv hash m" and inv': "hm_inv hash m'" and absent: "hm_abs m k = None"
    and st: "\<And>a l w. stored m' a l w \<longleftrightarrow> stored m a l w \<or> a = b \<and> l = k \<and> w = v"
    and "ksize m' = ksize m" "0 < ksize m" "it_v it = Some b" "compact m \<Longrightarrow> compact m'"
  shows "emplaced hash m k v (m', it, True)"
proof -
  have "hm_abs m' = (hm_abs m)(k \<mapsto> v)"
    using inv' by (rule hm_abs_eqI)
      (use absent in \<open>auto simp: st hm_abs_iff [OF inv] hm_abs_None [OF inv]\<close>)
  with assms show ?thesis by (auto simp: emplaced_def)
qed

lemma emplace_at_ok:
  assumes inv: "hm_inv hash m" and ne: "0 < ksize m" and absent: "hm_abs m k = None"
    and r: "emplace_at psz m (find_it hash m k) k v = Placed r"
  shows "emplaced hash m k v r"
proof -
  let ?K = "ksize m" and ?b = "bucket_index hash (ksize m) k"
  have b: "?b < ?K" using ne by (rule bucket_index_less)
  have pow: "pow2 ?K" using hm_invD(3) [OF inv] ne by simp
  from inv ne show ?thesis
  proof (cases rule: find_it_cases [where k = k])
    case (Found a w)
    then show ?thesis using absent by (auto simp: hm_abs_None [OF inv])
  next
    case Free
    note pp = place_primary [OF inv b Free(1) refl, of v]
    from r Free have r': "r = (m\<lparr>msize := msize m + 1, primary := (primary m)[?b := Some \<lparr>pkey = k, pvalue = v, psize = 0\<rparr>]\<rparr>,
        mk_iterator (Some ?b) None (Some (PrimarySlot ?b)), True)"
      by (simp add: emplace_at_def mk_iterator_def Let_def)
    show ?thesis unfolding r'
      by (rule emplaced_new [OF inv pp(1) absent pp(2) _ ne _ pp(3)]) (simp_all add: mk_iterator_def)
  next
    case (Chain p)
    let ?vi = "(?b + psize p) mod ?K"
    from r Chain obtain index s where fs: "free_secondary ?K (secondary m) (?K - 1) ?vi (psize p + 1) = Some (index, s)"
      and s: "s < ?K div 2"
      and r': "r = (m\<lparr>msize := msize m + 1, primary := (primary m)[?b := Some (p\<lparr>psize := s\<rparr>)],
                      secondary := (secondary m)[index := Some \<lparr>skey = k, svalue = v, sindex = ?b\<rparr>]\<rparr>,
                    mk_iterator (Some ?b) (Some index) (Some (SecondarySlot index)), True)"
      by (auto simp: emplace_at_def mk_iterator_def Let_def split: if_splits option.splits)
    have "?vi < ?K" using ne by simp
    with free_secondary_spec [OF pow fs] obtain d where d: "s = psize p + 1 + d"
      "index = (?vi + d) mod ?K" "secondary m ! index = None"
      "\<And>d'. d' < d \<Longrightarrow> secondary m ! ((?vi + d') mod ?K) \<noteq> None" by blast
    have index: "index = (?b + (s - 1)) mod ?K" using d(1,2) by (simp add: mod_add_left_eq add.assoc)
    have gap: "secondary m ! ((?b + e) mod ?K) \<noteq> None" if "psize p \<le> e" "e < s - 1" for e
    proof -
      have "(?vi + (e - psize p)) mod ?K = (?b + psize p + (e - psize p)) mod ?K"
        by (simp only: mod_add_left_eq)
      then have "(?vi + (e - psize p)) mod ?K = (?b + e) mod ?K" using that(1) by simp
      with d(4) [of "e - psize p"] d(1) that show ?thesis by simp
    qed
    have ix: "index < ?K" "psize p < s" "2 * s < ?K" using d(1,2) s ne by simp_all
    note ps = place_secondary [OF inv b Chain(1,2) refl absent ix(1) d(3) ix(2,3) index, of v]
    show ?thesis unfolding r'
      by (rule emplaced_new [OF inv ps(1) absent ps(2) _ ne _ ps(3) [OF _ gap]])
        (simp_all add: mk_iterator_def)
  qed
qed

end
