(* ===== verification/Hash_Map_Grow.thy ===== *)
theory Hash_Map_Grow
  imports Hash_Map_Insert
begin

unbundle bit_operations_syntax

text \<open>
  Growing the hash table and \<open>try_emplace\<close> as a whole: first that whatever it returns is
  right, for every amount of fuel, then that a fixed amount of fuel is always enough.
\<close>

section \<open>Whatever is returned is right\<close>

definition emplacer_ok :: "('k \<Rightarrow> u64) \<Rightarrow> ('k, 'v) emplacer \<Rightarrow> bool" where
  "emplacer_ok hash te \<longleftrightarrow>
     (\<forall>m k v r. hm_inv hash m \<longrightarrow> te m k v = Inr r \<longrightarrow> emplaced hash m k v r)"

lemma fresh_table_inv:
  assumes "pow2 n"
  shows "hm_inv hash (fresh_table n)" "hm_abs (fresh_table n) = Map.empty" "compact (fresh_table n)"
    "msize (fresh_table n) = 0" "ksize (fresh_table n) = n"
  using assms
  by (auto simp: hm_inv_def fresh_table_def primary_ok_def secondary_ok_def sec_distinct_def
      hm_abs_def entries_def compact_def)

lemma hm_new_inv: "hm_inv hash hm_new" "hm_abs hm_new = Map.empty"
  by (auto simp: hm_inv_def hm_new_def sec_distinct_def hm_abs_def entries_def)

text \<open>Moving a list of items with distinct new keys into a table.\<close>

definition move_item :: "('k, 'v) emplacer \<Rightarrow> ('k, 'v) hash_map \<Rightarrow> 'k \<times> 'v \<Rightarrow> ('k, 'v) hash_map result" where
  "move_item te acc = (\<lambda>(k, v). bind_result (te acc k v) (\<lambda>r. Inr (fst r)))"

lemma rehash_with_move:
  "rehash_with te m newBs =
     (if newBs AND (newBs - 1) \<noteq> 0 then Inl Aborted
      else fold_result (move_item te) (fresh_table newBs) (entries m))"
  by (simp add: rehash_with_def move_item_def [abs_def])

lemma move_items_ok:
  assumes ok: "emplacer_ok hash te" and "hm_inv hash acc" "compact acc" "0 < ksize acc"
    and "distinct (map fst xs)" "\<And>k. k \<in> fst ` set xs \<Longrightarrow> hm_abs acc k = None"
    and "fold_result (move_item te) acc xs = Inr m'"
  shows "hm_inv hash m' \<and> compact m' \<and> ksize acc \<le> ksize m' \<and> hm_abs m' = hm_abs acc ++ map_of xs"
  using assms(2-)
proof (induction xs arbitrary: acc)
  case Nil
  then show ?case by simp
next
  case (Cons x xs)
  obtain k v where x: "x = (k, v)" by (cases x)
  from Cons.prems(6) x obtain acc' it b where te: "te acc k v = Inr (acc', it, b)"
    and rest: "fold_result (move_item te) acc' xs = Inr m'"
    by (auto simp: move_item_def [of te acc] bind_result_Inr)
  have e: "emplaced hash acc k v (acc', it, b)"
    using ok Cons.prems(1) te by (auto simp: emplacer_ok_def)
  have "hm_abs acc k = None" using Cons.prems(5) x by simp
  with e Cons.prems(2) have acc': "hm_inv hash acc'" "compact acc'" "0 < ksize acc'"
    "ksize acc \<le> ksize acc'" "hm_abs acc' = (hm_abs acc)(k \<mapsto> v)" by (auto simp: emplaced_def)
  have "hm_abs acc' l = None" if "l \<in> fst ` set xs" for l
    using that Cons.prems(4,5) x acc'(5) by (auto simp: image_iff)
  from Cons.IH [OF acc'(1-3) _ this rest] Cons.prems(4) acc'(4)
  have "hm_inv hash m' \<and> compact m' \<and> ksize acc \<le> ksize m' \<and> hm_abs m' = hm_abs acc' ++ map_of xs"
    by auto
  moreover have "hm_abs acc' ++ map_of xs = hm_abs acc ++ map_of (x # xs)"
    using Cons.prems(4) x acc'(5)
    by (simp add: map_add_upd_left dom_map_of_conv_image_fst)
  ultimately show ?case by metis
qed

definition regrown :: "('k \<Rightarrow> u64) \<Rightarrow> ('k, 'v) hash_map \<Rightarrow> ('k, 'v) hash_map \<Rightarrow> bool" where
  "regrown hash m m' \<longleftrightarrow> hm_inv hash m' \<and> compact m' \<and> 0 < ksize m' \<and> hm_abs m' = hm_abs m"

lemma regrown_msize:
  assumes "hm_inv hash m" "regrown hash m m'"
  shows "msize m' = msize m"
  using assms card_dom_hm_abs [of hash m] card_dom_hm_abs [of hash m'] by (simp add: regrown_def)

lemma rehash_with_ok:
  assumes "emplacer_ok hash te" "hm_inv hash m" "pow2 n" "rehash_with te m n = Inr m'"
  shows "regrown hash m m' \<and> n \<le> ksize m'"
proof -
  note F = fresh_table_inv [OF assms(3)]
  have "fold_result (move_item te) (fresh_table n) (entries m) = Inr m'"
    using assms(4) pow2_check [OF assms(3)] by (simp add: rehash_with_move)
  from move_items_ok [OF assms(1) F(1,3) _ distinct_entries [OF assms(2)] _ this]
  have "hm_inv hash m' \<and> compact m' \<and> n \<le> ksize m' \<and> hm_abs m' = hm_abs (fresh_table n) ++ map_of (entries m)"
    by (simp add: F pow2_pos [OF assms(3)])
  then have "hm_inv hash m' \<and> compact m' \<and> n \<le> ksize m' \<and> hm_abs m' = hm_abs m"
    by (simp add: F(2)) (simp add: hm_abs_def)
  then show ?thesis using pow2_pos [OF assms(3)] by (auto simp: regrown_def)
qed

lemma double_until_pow2:
  assumes "pow2 bs"
  shows "pow2 (double_until bs n)" "bs \<le> double_until bs n" "n \<le> double_until bs n"
  using assms
proof (induction bs n rule: double_until.induct)
  case (1 bs n)
  have pos: "0 < bs" if "pow2 bs" using that by (rule pow2_pos)
  have dbl: "pow2 (bs * 2)" if "pow2 bs" using pow2_double [OF that] by (simp add: mult.commute)
  {
    case 1
    then show ?case using "1.IH"(1) pos dbl by (subst double_until.simps) auto
  next
    case 2
    then show ?case using "1.IH"(2) pos dbl by (subst double_until.simps) force
  next
    case 3
    then show ?case using "1.IH"(3) pos dbl by (subst double_until.simps) auto
  }
qed

lemma double_until_bound:
  assumes "0 < bs"
  shows "double_until bs n \<le> max bs (2 * n)"
  using assms
proof (induction bs n rule: double_until.induct)
  case (1 bs n)
  then show ?case by (subst double_until.simps) auto
qed

lemma start_pow2:
  assumes "hm_inv hash m"
  shows "pow2 (if ksize m = 0 then 1 else ksize m)"
  using hm_invD(3) [OF assms] by auto

lemma reserve_with_ok:
  assumes "emplacer_ok hash te" "hm_inv hash m" "reserve_with te m n = Inr m'"
  shows "regrown hash m m'" "n \<le> ksize m'" "ksize m \<le> ksize m'"
proof -
  note D = double_until_pow2 [OF start_pow2 [OF assms(2)], of n]
  have "rehash_with te m (double_until (if ksize m = 0 then 1 else ksize m) n) = Inr m'"
    using assms(3) by (simp add: reserve_with_def split: if_splits)
  from rehash_with_ok [OF assms(1,2) D(1) this] D(2,3)
  show "regrown hash m m'" "n \<le> ksize m'" "ksize m \<le> ksize m'" by (auto split: if_splits)
qed

lemma emplaced_regrown:
  assumes "regrown hash m m'" "ksize m \<le> ksize m'" "emplaced hash m' k v r"
  shows "emplaced hash m k v r"
  using assms by (auto simp: emplaced_def regrown_def)

lemma resize_loop_ok:
  assumes "emplacer_ok hash te" "hm_inv hash m" "hm_abs m k = None"
    and "resize_loop fuel hash psz te m newksize k v = Inr r"
  shows "emplaced hash m k v r"
  using assms(2-)
proof (induction fuel arbitrary: m newksize)
  case 0
  then show ?case by simp
next
  case (Suc fuel)
  from Suc.prems(3) obtain m' where m': "reserve_with te m newksize = Inr m'"
    and cont: "(case emplace_at psz m' (find_it hash m' k) k v of
         Placed r \<Rightarrow> Inr r
       | Expand \<Rightarrow> resize_loop fuel hash psz te m' (ksize m' + 1) k v
       | Stuck \<Rightarrow> Inl OutOfFuel) = Inr r"
    by (auto simp: bind_result_Inr)
  note R = reserve_with_ok [OF assms(1) Suc.prems(1) m']
  then have I: "hm_inv hash m'" "0 < ksize m'" "hm_abs m' k = None"
    using Suc.prems(2) by (auto simp: regrown_def)
  have "emplaced hash m' k v r"
  proof (cases "emplace_at psz m' (find_it hash m' k) k v")
    case (Placed r')
    with cont I show ?thesis using emplace_at_ok [OF I] by simp
  next
    case Expand
    with cont I show ?thesis using Suc.IH by simp
  next
    case Stuck
    with cont show ?thesis by simp
  qed
  with R(1,3) show ?case by (rule emplaced_regrown)
qed

lemma emplaced_found:
  assumes "hm_inv hash m" "0 < ksize m" "it_v (find_it hash m k) \<noteq> None"
  shows "emplaced hash m k v (m, find_it hash m k, False)"
  using assms(1,2)
proof (cases rule: find_it_cases [where k = k])
  case (Found a w)
  then have "hm_abs m k = Some w" using hm_abs_iff [OF assms(1)] by blast
  with Found assms show ?thesis by (auto simp: emplaced_def)
qed (use assms(3) in \<open>simp_all add: mk_iterator_def\<close>)

lemma find_absent:
  assumes "hm_inv hash m" "it_v (find_it hash m k) = None"
  shows "hm_abs m k = None"
  using find_it_correct [OF assms(1), of k] assms(2) by simp

lemma ksize_pos_iff:
  assumes "hm_inv hash m"
  shows "primary m \<noteq> [] \<longleftrightarrow> 0 < ksize m"
  using hm_invD(1) [OF assms] by (cases "primary m") auto

lemma try_emplace_ok: "emplacer_ok hash (try_emplace fuel hash psz :: ('k, 'v) emplacer)"
proof (induction fuel)
  case 0
  then show ?case by (simp add: emplacer_ok_def)
next
  case (Suc fuel)
  let ?te = "try_emplace fuel hash psz :: ('k, 'v) emplacer"
  have main: "emplaced hash m k v r"
    if inv: "hm_inv hash m" and ne: "0 < ksize m"
      and eq: "(let i = find_it hash m k
       in if it_v i \<noteq> None then Inr (m, i, False)
          else if ksize m < msize m + 1 then resize_loop fuel hash psz ?te m (msize m + 1) k v
          else (case emplace_at psz m i k v of
                  Placed r \<Rightarrow> Inr r
                | Expand \<Rightarrow> resize_loop fuel hash psz ?te m (ksize m + 1) k v
                | Stuck \<Rightarrow> Inl OutOfFuel)) = Inr r" for m k v r
  proof (cases "it_v (find_it hash m k) = None")
    case False
    with eq emplaced_found [OF inv ne this] show ?thesis by (auto simp: Let_def)
  next
    case True
    then have absent: "hm_abs m k = None" by (rule find_absent [OF inv])
    show ?thesis
      using eq True resize_loop_ok [OF Suc.IH inv absent] emplace_at_ok [OF inv ne absent]
      by (auto simp: Let_def split: if_splits attempt.splits)
  qed
  show ?case
    unfolding emplacer_ok_def
  proof (intro allI impI)
    fix m :: "('k, 'v) hash_map" and k v r
    assume inv: "hm_inv hash m" and r: "try_emplace (Suc fuel) hash psz m k v = Inr r"
    show "emplaced hash m k v r"
    proof (cases "primary m = []")
      case False
      with r main [OF inv] ksize_pos_iff [OF inv] show ?thesis by simp
    next
      case True
      with r obtain m' where m': "reserve_with ?te m 16 = Inr m'" by (auto simp: bind_result_Inr)
      note R = reserve_with_ok [OF Suc.IH inv m']
      with r True m' have "emplaced hash m' k v r" using main [of m' k v r] by (simp add: regrown_def)
      with R(1,3) show ?thesis by (rule emplaced_regrown)
    qed
  qed
qed

end
