(* ===== verification/Hash_Map_Total.thy ===== *)
theory Hash_Map_Total
  imports Hash_Map_Grow
begin

unbundle bit_operations_syntax

text \<open>
  \<open>try_emplace\<close> returns. An insertion into a table without holes that is half empty and has
  outgrown the size thresholds of the code never asks for more room; every growth doubles the
  table and leaves it without holes; so the mutual recursion between growing and inserting is
  at most as deep as the number of doublings up to such a size.
\<close>

section \<open>Roomy tables accept every key\<close>

lemma free_secondary_total:
  assumes "pow2 K" "i < K" "d \<le> fuel" "sec ! ((i + d) mod K) = None"
  shows "free_secondary fuel sec (K - 1) i s \<noteq> None"
  using assms(2-)
proof (induction d arbitrary: i s fuel)
  case 0
  then show ?case by (simp add: free_secondary.simps [of fuel])
next
  case (Suc d)
  then obtain f where f: "fuel = Suc f" by (cases fuel) auto
  have "(i + 1) mod K < K" using pow2_pos [OF assms(1)] by simp
  moreover have "sec ! (((i + 1) mod K + d) mod K) = None"
    using Suc.prems(3) by (simp add: mod_add_left_eq)
  ultimately have "free_secondary f sec (K - 1) ((i + 1) mod K) (s + 1) \<noteq> None"
    using Suc.IH Suc.prems(2) f by simp
  then show ?case
    by (subst free_secondary.simps) (simp add: f and_mask_mod [OF assms(1)])
qed

lemma free_secondary_exists:
  assumes "hm_inv hash m" "0 < ksize m" "msize m < ksize m" "i < ksize m"
  shows "free_secondary (ksize m) (secondary m) (ksize m - 1) i s \<noteq> None"
proof -
  let ?K = "ksize m"
  have "occupied (secondary m) < length (secondary m)"
    using hm_invD(2,4) [OF assms(1)] assms(3) by simp
  then obtain j where j: "j < ?K" "secondary m ! j = None"
    using some_empty_cell hm_invD(2) [OF assms(1)] by metis
  have "(i + (j + ?K - i) mod ?K) mod ?K = j"
  proof -
    have "(i + (j + ?K - i) mod ?K) mod ?K = (i + (j + ?K - i)) mod ?K" by (rule mod_add_right_eq)
    also have "\<dots> = j" using j(1) assms(4) by simp
    finally show ?thesis .
  qed
  moreover have "(j + ?K - i) mod ?K \<le> ?K" using assms(2) by (simp add: less_imp_le)
  ultimately show ?thesis
    using free_secondary_total [of ?K i "(j + ?K - i) mod ?K" ?K "secondary m" s]
      hm_invD(3) [OF assms(1)] assms(2,4) j(2) by simp
qed

text \<open>A cyclic run of occupied cells is no longer than the number of occupied cells.\<close>

lemma run_le_occupied:
  assumes "length xs = K" "0 < K" "n \<le> K" "\<And>e. e < n \<Longrightarrow> xs ! ((b + e) mod K) \<noteq> None"
  shows "n \<le> occupied xs"
proof -
  have "inj_on (\<lambda>e. (b + e) mod K) {..<n}"
  proof (rule inj_onI)
    fix e e' assume "e \<in> {..<n}" "e' \<in> {..<n}" and eq: "(b + e) mod K = (b + e') mod K"
    then have "e < K" "e' < K" using assms(3) by auto
    moreover have "e mod K = e' mod K" using mod_add_left_cancel [OF eq assms(2)] .
    ultimately show "e = e'" by simp
  qed
  then have "card ((\<lambda>e. (b + e) mod K) ` {..<n}) = n" by (simp add: card_image)
  moreover have "card ((\<lambda>e. (b + e) mod K) ` {..<n}) \<le> occupied xs"
    unfolding occupied_card by (rule card_mono) (use assms in auto)
  ultimately show ?thesis by simp
qed

definition roomy :: "nat \<Rightarrow> ('k, 'v) hash_map \<Rightarrow> bool" where
  "roomy psz m \<longleftrightarrow> 1024 * 1024 * 4 div psz \<le> ksize m \<and> 2 * msize m + 2 \<le> ksize m"

lemma emplace_at_not_stuck:
  assumes "hm_inv hash m" "0 < ksize m" "msize m < ksize m" "hm_abs m k = None"
  shows "emplace_at psz m (find_it hash m k) k v \<noteq> Stuck"
  using assms(1,2)
proof (cases rule: find_it_cases [where k = k])
  case (Found a w)
  then show ?thesis using assms(4) by (auto simp: hm_abs_None [OF assms(1)])
next
  case Free
  then show ?thesis by (simp add: emplace_at_def mk_iterator_def Let_def)
next
  case (Chain p)
  have "(bucket_index hash (ksize m) k + psize p) mod ksize m < ksize m" using assms(2) by simp
  from free_secondary_exists [OF assms(1-3) this, of "psize p + 1"] Chain show ?thesis
    by (auto simp: emplace_at_def mk_iterator_def Let_def split: option.splits)
qed

lemma emplace_at_roomy:
  assumes inv: "hm_inv hash m" and ne: "0 < ksize m" and "compact m" and absent: "hm_abs m k = None"
    and roomy: "roomy psz m"
  shows "\<exists>r. emplace_at psz m (find_it hash m k) k v = Placed r"
  using inv ne
proof (cases rule: find_it_cases [where k = k])
  case (Found a w)
  then show ?thesis using absent by (auto simp: hm_abs_None [OF inv])
next
  case Free
  then show ?thesis by (auto simp: emplace_at_def mk_iterator_def Let_def)
next
  case (Chain p)
  let ?K = "ksize m" and ?b = "bucket_index hash (ksize m) k"
  let ?vi = "(?b + psize p) mod ?K"
  have b: "?b < ?K" using ne by (rule bucket_index_less)
  have pow: "pow2 ?K" using hm_invD(3) [OF inv] ne by simp
  have vi: "?vi < ?K" using ne by simp
  have "msize m < ?K" using roomy by (simp add: roomy_def)
  with free_secondary_exists [OF inv ne _ vi, of "psize p + 1"] obtain index s where
    fs: "free_secondary ?K (secondary m) (?K - 1) ?vi (psize p + 1) = Some (index, s)" by auto
  obtain d where d: "s = psize p + 1 + d" "index = (?vi + d) mod ?K" "secondary m ! index = None"
    "\<And>d'. d' < d \<Longrightarrow> secondary m ! ((?vi + d') mod ?K) \<noteq> None"
    using free_secondary_spec [OF pow fs vi] by blast
  have shift: "(?vi + e) mod ?K = (?b + (psize p + e)) mod ?K" for e
    by (simp add: mod_add_left_eq add.assoc)
  have run: "secondary m ! ((?b + e) mod ?K) \<noteq> None" if "e < s - 1" for e
  proof (cases "e < psize p")
    case True
    then show ?thesis using assms(3) b Chain(1) by (simp add: compact_def)
  next
    case False
    then show ?thesis using d(4) [of "e - psize p", unfolded shift] that d(1) by simp
  qed
  have "s - 1 < ?K"
  proof (rule ccontr)
    assume "\<not> s - 1 < ?K"
    then have le: "?K \<le> s - 1" by simp
    have "?K \<le> occupied (secondary m)"
      by (rule run_le_occupied [where b = ?b and K = ?K]) (use le run ne hm_invD(2) [OF inv] in auto)
    then show False using hm_invD(4) [OF inv] \<open>msize m < ?K\<close> by simp
  qed
  then have "s - 1 \<le> occupied (secondary m)"
    by (intro run_le_occupied [where b = ?b and K = ?K]) (use run ne hm_invD(2) [OF inv] in auto)
  moreover have "0 < occupied (primary m)"
    using occupied_pos [of ?b "primary m"] b Chain(1) hm_invD(1) [OF inv] by simp
  ultimately have "s \<le> msize m" using hm_invD(4) [OF inv] by simp
  moreover have "1024 * 1024 div psz \<le> 1024 * 1024 * 4 div psz" by (rule div_le_mono) simp
  ultimately have c: "\<not> (?K < 1024 * 1024 div psz \<and> ?K < msize m * 4)"
    "\<not> ((s \<ge> 4 \<and> ?K < 1024 * 1024 * 4 div psz) \<or> s \<ge> ?K div 2)"
    using roomy unfolding roomy_def by linarith+
  have it: "it_ki (find_it hash m k) = Some ?b" "it_vi (find_it hash m k) = Some ?vi"
    by (simp_all add: Chain(4) mk_iterator_def)
  show ?thesis
    unfolding emplace_at_def Let_def it option.sel option.case(2) if_not_P [OF c(1)] Chain(1)
      fs prod.case if_not_P [OF c(2)] by blast
qed

section \<open>Enough fuel\<close>

text \<open>
  \<open>T\<close> is a table size beyond every threshold and \<open>N\<close> the number of items: a table without
  holes of at least \<open>T\<close> buckets and at most \<open>N\<close> items is roomy. An emplacer is total at
  \<open>d\<close> when it returns on every hole-free table that \<open>d\<close> doublings bring up to \<open>T\<close>.
\<close>

definition large :: "nat \<Rightarrow> nat \<Rightarrow> nat \<Rightarrow> bool" where
  "large psz T N \<longleftrightarrow> 1024 * 1024 * 4 div psz \<le> T \<and> 2 * N + 2 \<le> T \<and> T \<le> 2 ^ 62"

definition total_at :: "('k \<Rightarrow> u64) \<Rightarrow> nat \<Rightarrow> nat \<Rightarrow> nat \<Rightarrow> ('k, 'v) emplacer \<Rightarrow> bool" where
  "total_at hash T N d te \<longleftrightarrow>
     (\<forall>m k v. hm_inv hash m \<longrightarrow> compact m \<longrightarrow> 0 < ksize m \<longrightarrow> T \<le> ksize m * 2 ^ d \<longrightarrow> msize m \<le> N
        \<longrightarrow> (\<exists>r. te m k v = Inr r))"

lemma large_roomy: "large psz T N \<Longrightarrow> T \<le> ksize m \<Longrightarrow> msize m \<le> N \<Longrightarrow> roomy psz m"
  by (simp add: large_def roomy_def)

lemma move_items_total:
  assumes "emplacer_ok hash te" "total_at hash T N d te"
    and "hm_inv hash acc" "compact acc" "0 < ksize acc" "T \<le> ksize acc * 2 ^ d"
    and "msize acc + length xs \<le> N + 1"
  shows "\<exists>m'. fold_result (move_item te) acc xs = Inr m'"
  using assms(3-)
proof (induction xs arbitrary: acc)
  case Nil
  then show ?case by simp
next
  case (Cons x xs)
  obtain k v where x: "x = (k, v)" by (cases x)
  have "msize acc \<le> N" using Cons.prems(5) by simp
  with assms(2) Cons.prems obtain acc' it b where te: "te acc k v = Inr (acc', it, b)"
    unfolding total_at_def by (metis prod_cases3)
  have e: "emplaced hash acc k v (acc', it, b)"
    using assms(1) Cons.prems(1) te by (auto simp: emplacer_ok_def)
  have "T \<le> ksize acc' * 2 ^ d"
    using Cons.prems(4) e by (auto simp: emplaced_def intro: order_trans mult_le_mono1)
  moreover have "msize acc' + length xs \<le> N + 1"
    using emplaced_msize [OF Cons.prems(1) e] Cons.prems(5) by (simp split: if_splits)
  ultimately have "\<exists>m'. fold_result (move_item te) acc' xs = Inr m'"
    using e Cons.prems(2) by (intro Cons.IH) (auto simp: emplaced_def)
  then show ?case using te by (simp add: x move_item_def [of te acc])
qed

lemma reserve_with_total:
  assumes "emplacer_ok hash te" "total_at hash T N d te" "hm_inv hash m" "msize m \<le> N"
    and "n < (2 ^ 64 - 1) div 2" "T \<le> double_until (if ksize m = 0 then 1 else ksize m) n * 2 ^ d"
  shows "\<exists>m'. reserve_with te m n = Inr m'"
proof -
  let ?bs = "double_until (if ksize m = 0 then 1 else ksize m) n"
  have pow: "pow2 ?bs" using double_until_pow2 [OF start_pow2 [OF assms(3)]] by blast
  have "\<exists>m'. fold_result (move_item te) (fresh_table ?bs) (entries m) = Inr m'"
    by (rule move_items_total [OF assms(1,2)])
      (use pow2_pos [OF pow] assms(4,6) length_entries [OF assms(3)] in
        \<open>simp_all add: fresh_table_inv [OF pow]\<close>)
  then show ?thesis
    using assms(5) pow2_check [OF pow] by (simp add: reserve_with_def rehash_with_move)
qed

lemma double_until_grows:
  assumes "pow2 bs" "bs < n"
  shows "2 * bs \<le> double_until bs n"
  by (rule pow2_less_double [OF assms(1) double_until_pow2(1) [OF assms(1)]])
    (use double_until_pow2(3) [OF assms(1), of n] assms(2) in simp)

lemma resize_step_total:
  assumes te: "emplacer_ok hash te" "total_at hash T N d te"
    and "hm_inv hash m" "0 < ksize m" "msize m \<le> N"
    and "ksize m < newksize" "newksize \<le> 2 ^ 62" "T \<le> 2 * ksize m * 2 ^ d"
  obtains m' where "reserve_with te m newksize = Inr m'" "regrown hash m m'"
    "2 * ksize m \<le> ksize m'" "newksize \<le> ksize m'" "msize m' = msize m"
proof -
  have pow: "pow2 (ksize m)" using hm_invD(3) [OF assms(3)] assms(4) by simp
  note G = double_until_grows [OF pow assms(6)]
  have "T \<le> double_until (ksize m) newksize * 2 ^ d"
    using assms(8) G by (meson order_trans mult_le_mono1)
  then obtain m' where m': "reserve_with te m newksize = Inr m'"
    using reserve_with_total [OF te assms(3,5), of newksize] assms(4,7) by auto
  note R = reserve_with_ok [OF te(1) assms(3) m']
  have "rehash_with te m (double_until (ksize m) newksize) = Inr m'"
    using m' assms(4) by (simp add: reserve_with_def split: if_splits)
  then have "double_until (ksize m) newksize \<le> ksize m'"
    using rehash_with_ok [OF te(1) assms(3) double_until_pow2(1) [OF pow]] by blast
  then show thesis using that [OF m' R(1) _ R(2) regrown_msize [OF assms(3) R(1)]] G by simp
qed

lemma resize_loop_total:
  assumes L: "large psz T N" and te: "emplacer_ok hash te" "total_at hash T N d te"
    and "hm_inv hash m" "hm_abs m k = None" "0 < ksize m" "msize m \<le> N"
    and "ksize m < newksize" "msize m < newksize" "newksize \<le> 2 ^ 62"
    and "e < fuel" "T \<le> 2 * ksize m * 2 ^ e" "T \<le> 2 * ksize m * 2 ^ d"
  shows "\<exists>r. resize_loop fuel hash psz te m newksize k v = Inr r"
  using assms(4-)
proof (induction fuel arbitrary: e m newksize)
  case 0
  then show ?case by simp
next
  case (Suc fuel)
  obtain m' where m': "reserve_with te m newksize = Inr m'" "regrown hash m m'"
    "2 * ksize m \<le> ksize m'" "newksize \<le> ksize m'" "msize m' = msize m"
    using resize_step_total [OF te Suc.prems(1,3-5,7,10)] .
  then have I: "hm_inv hash m'" "compact m'" "0 < ksize m'" "hm_abs m' k = None" "msize m' < ksize m'"
    "msize m' \<le> N" using Suc.prems(2,4,6) by (auto simp: regrown_def)
  have grow: "2 * ksize m * 2 ^ x \<le> ksize m' * 2 ^ x" for x using m'(3) by simp
  show ?case
  proof (cases "emplace_at psz m' (find_it hash m' k) k v")
    case (Placed r)
    with m'(1) show ?thesis by (cases r) simp
  next
    case Stuck
    with emplace_at_not_stuck [OF I(1,3,5,4)] show ?thesis by blast
  next
    case Expand
    have "\<not> T \<le> ksize m'"
      using emplace_at_roomy [OF I(1,3,2,4), of psz v] large_roomy [OF L _ I(6)] Expand by auto
    moreover from this obtain e' where e: "e = Suc e'"
      using grow [of e] Suc.prems(9) by (cases e) auto
    ultimately have "\<exists>r. resize_loop fuel hash psz te m' (ksize m' + 1) k v = Inr r"
      using I L Suc.prems(8) order_trans [OF Suc.prems(9) grow]
        order_trans [OF order_trans [OF Suc.prems(10) grow], of "2 * ksize m' * 2 ^ d"]
      by (intro Suc.IH [of m' "ksize m' + 1" e']) (auto simp: large_def)
    with m'(1) Expand show ?thesis by simp
  qed
qed

lemma try_emplace_roomy:
  assumes "hm_inv hash m" "0 < ksize m" "compact m" "roomy psz m"
  shows "\<exists>r. try_emplace (Suc fuel) hash psz m k v = Inr r"
proof (cases "it_v (find_it hash m k) = None")
  case False
  then show ?thesis using assms(1,2) ksize_pos_iff [OF assms(1)] by (auto simp: Let_def)
next
  case True
  note absent = find_absent [OF assms(1) True]
  have "\<exists>r. emplace_at psz m (find_it hash m k) k v = Placed r"
    by (rule emplace_at_roomy [OF assms(1-3) absent assms(4)])
  moreover have "\<not> ksize m < msize m + 1" using assms(4) by (simp add: roomy_def)
  ultimately show ?thesis using assms(2) ksize_pos_iff [OF assms(1)] True by (auto simp: Let_def)
qed

lemma try_emplace_grown:
  assumes L: "large psz T N" and inv: "hm_inv hash m" and ne: "0 < ksize m"
    and "total_at hash T N d (try_emplace fuel hash psz :: ('k, 'v) emplacer)"
    and "msize m \<le> N" "ksize m < 2 ^ 62" "d < fuel" "T \<le> 2 * ksize m * 2 ^ d"
  shows "\<exists>r. try_emplace (Suc fuel) hash psz (m :: ('k, 'v) hash_map) k v = Inr r"
proof (cases "it_v (find_it hash m k) = None")
  case False
  then show ?thesis using ne ksize_pos_iff [OF inv] by (auto simp: Let_def)
next
  case True
  note absent = find_absent [OF inv True]
  have loop: "\<exists>r. resize_loop fuel hash psz (try_emplace fuel hash psz) m n k v = Inr r"
    if "ksize m < n" "msize m < n" "n \<le> 2 ^ 62" for n
    by (rule resize_loop_total [OF L try_emplace_ok assms(4) inv absent ne assms(5) that assms(7,8,8)])
  have "msize m + 1 \<le> 2 ^ 62" using L assms(5) by (simp add: large_def)
  then show ?thesis
    using loop [of "msize m + 1"] loop [of "ksize m + 1"] emplace_at_not_stuck [OF inv ne _ absent, of psz v]
      ne ksize_pos_iff [OF inv] True assms(6)
    by (cases "msize m < ksize m") (auto simp: Let_def split: attempt.split)
qed

lemma try_emplace_total_at:
  assumes "large psz T N" "d < fuel"
  shows "total_at hash T N d (try_emplace fuel hash psz :: ('k, 'v) emplacer)"
  using assms(2)
proof (induction d arbitrary: fuel)
  case 0
  then obtain f where "fuel = Suc f" by (cases fuel) auto
  then show ?case
    unfolding total_at_def using try_emplace_roomy large_roomy [OF assms(1)]
    by (metis mult.right_neutral power_0)
next
  case (Suc d)
  then obtain f where f: "fuel = Suc f" "d < f" by (cases fuel) auto
  have "\<exists>r. try_emplace fuel hash psz m k v = Inr r"
    if "hm_inv hash m" "compact m" "0 < ksize m" "T \<le> ksize m * 2 ^ Suc d" "msize m \<le> N"
    for m :: "('k, 'v) hash_map" and k v
  proof (cases "T \<le> ksize m")
    case True
    then show ?thesis
      unfolding f(1) by (intro try_emplace_roomy that large_roomy [OF assms(1)])
  next
    case False
    then have "ksize m < 2 ^ 62" using assms(1) by (simp add: large_def)
    then show ?thesis
      unfolding f(1)
      by (intro try_emplace_grown [OF assms(1) that(1,3) Suc.IH [OF f(2)] that(5)])
        (use f(2) that(4) in \<open>simp_all add: ac_simps\<close>)
  qed
  then show ?case by (simp add: total_at_def)
qed

text \<open>
  Sixty-three levels of recursion are enough for every table below \<open>2\<^sup>6\<^sup>2\<close> buckets with at most
  \<open>2\<^sup>6\<^sup>0\<close> items, whatever the hash function and the item size.
\<close>

lemma try_emplace_total:
  assumes "hm_inv hash m" "msize m \<le> 2 ^ 60" "ksize m < 2 ^ 62" "63 \<le> fuel"
  shows "\<exists>r. try_emplace fuel hash psz (m :: ('k, 'v) hash_map) k v = Inr r"
proof -
  obtain f where f: "fuel = Suc f" "61 < f" using assms(4) by (cases fuel) auto
  let ?te = "try_emplace f hash psz :: ('k, 'v) emplacer"
  have "1024 * 1024 * 4 div psz \<le> (2 :: nat) ^ 62"
    by (rule order_trans [OF div_le_dividend]) simp
  then have L: "large psz (2 ^ 62) (2 ^ 60)" by (simp add: large_def)
  note T = try_emplace_total_at [OF L f(2), of hash]
  have body: "\<exists>r. try_emplace (Suc f) hash psz m k v = Inr r"
    if "hm_inv hash m" "0 < ksize m" "msize m \<le> 2 ^ 60" "ksize m < 2 ^ 62" for m :: "('k, 'v) hash_map"
    by (rule try_emplace_grown [OF L that(1,2) T that(3,4) f(2)]) (use that(2) in simp)
  show ?thesis
  proof (cases "primary m = []")
    case False
    then show ?thesis using body [OF assms(1) _ assms(2,3)] ksize_pos_iff [OF assms(1)] f(1) by simp
  next
    case True
    then have m: "ksize m = 0" "entries m = []"
      using hm_invD(1,2) [OF assms(1)] by (simp_all add: entries_def)
    have "double_until 1 16 = 16" by (simp add: double_until.simps)
    then have "reserve_with ?te m 16 = Inr (fresh_table 16)"
      using m by (simp add: reserve_with_def rehash_with_def)
    moreover have "primary (fresh_table 16 :: ('k, 'v) hash_map) \<noteq> []" by (simp add: fresh_table_def)
    ultimately have "try_emplace fuel hash psz m k v = try_emplace (Suc f) hash psz (fresh_table 16) k v"
      using True by (simp add: f(1))
    moreover have "pow2 16" by (simp add: pow2_def exI [of _ 4])
    ultimately show ?thesis using body [of "fresh_table 16"] by (simp add: fresh_table_inv)
  qed
qed

end
