(* ===== verification/Hash_Map_Iter.thy ===== *)
theory Hash_Map_Iter
  imports Hash_Map_Erase Hash_Map_Total
begin

unbundle bit_operations_syntax

text \<open>
  Iteration over the hash table, \<open>clear\<close> and the operations built on \<open>try_emplace\<close>: a range-for
  loop visits every occupied cell once, \<open>clear\<close> empties the table, \<open>operator[]\<close> finds or inserts.
\<close>

section \<open>Loops over the table\<close>

text \<open>The cells a range-for loop visits: from \<open>begin\<close> until an iterator equals \<open>end\<close>.\<close>

fun iterate :: "nat \<Rightarrow> ('k, 'v) hash_map \<Rightarrow> iterator \<Rightarrow> slot list result" where
  "iterate fuel m it =
     (case it_v it of
        None \<Rightarrow> Inr []
      | Some a \<Rightarrow>
          (case fuel of
             0 \<Rightarrow> Inl OutOfFuel
           | Suc f \<Rightarrow> bind_result (iterate f m (next_it m it)) (\<lambda>as. Inr (a # as))))"

declare iterate.simps [simp del]

definition range_for :: "('k, 'v) hash_map \<Rightarrow> ('k \<times> 'v) list result" where
  "range_for n = bind_result (iterate (msize n) n (begin_it n)) (\<lambda>as. Inr (map (\<lambda>a. the (deref n a)) as))"

definition hm_insert :: "('k \<Rightarrow> u64) \<Rightarrow> nat \<Rightarrow> ('k, 'v) hash_map \<Rightarrow> 'k \<Rightarrow> 'v \<Rightarrow> ('k, 'v) hash_map result" where
  "hm_insert hash psz m k v = bind_result (try_emplace 63 hash psz m k v) (\<lambda>r. Inr (fst r))"

text \<open>\<open>operator[]\<close>: the value of the key, inserted with the default value when absent.\<close>

definition hm_index ::
  "('k \<Rightarrow> u64) \<Rightarrow> nat \<Rightarrow> 'v \<Rightarrow> ('k, 'v) hash_map \<Rightarrow> 'k \<Rightarrow> (('k, 'v) hash_map \<times> 'v) result" where
  "hm_index hash psz def m k =
     bind_result (try_emplace 63 hash psz m k def)
       (\<lambda>(m', it, _). Inr (m', snd (the (deref m' (the (it_v it))))))"

section \<open>Every occupied cell is visited once\<close>

lemma first_occupied_filter:
  "filter (\<lambda>j. xs ! j \<noteq> None) [i ..< length xs] =
     (case first_occupied xs i of None \<Rightarrow> [] | Some j \<Rightarrow> j # filter (\<lambda>j. xs ! j \<noteq> None) [Suc j ..< length xs])"
proof (induction xs i rule: first_occupied.induct)
  case (1 xs i)
  then show ?case
    by (cases "i < length xs") (auto simp: first_occupied.simps [of xs i] upt_conv_Cons split: option.splits)
qed

lemma first_occupied_Some:
  assumes "first_occupied xs i = Some j"
  shows "i \<le> j \<and> j < length xs \<and> xs ! j \<noteq> None \<and> (\<forall>l. i \<le> l \<longrightarrow> l < j \<longrightarrow> xs ! l = None)"
  using assms
proof (induction xs i rule: first_occupied.induct)
  case (1 xs i)
  show ?case
  proof (cases "i < length xs \<and> xs ! i = None")
    case True
    then have "first_occupied xs (Suc i) = Some j" using "1.prems" by (simp add: first_occupied.simps [of xs i])
    then have IH: "Suc i \<le> j" "j < length xs" "xs ! j \<noteq> None" "\<And>l. Suc i \<le> l \<Longrightarrow> l < j \<Longrightarrow> xs ! l = None"
      using "1.IH" True by simp_all
    have "xs ! l = None" if "i \<le> l" "l < j" for l
      using True IH(4) that by (cases "l = i") auto
    with IH(1-3) show ?thesis by auto
  next
    case False
    then have "i < length xs \<and> xs ! i \<noteq> None \<and> j = i"
      using "1.prems" by (simp add: first_occupied.simps [of xs i] split: if_splits)
    then show ?thesis by simp
  qed
qed

lemma first_occupied_None:
  assumes "first_occupied xs i = None" "i \<le> l" "l < length xs"
  shows "xs ! l = None"
  using first_occupied_filter [of xs i] assms by (auto simp: filter_empty_conv)

definition cells_from :: "'a option list \<Rightarrow> nat \<Rightarrow> nat list" where
  "cells_from xs i = filter (\<lambda>j. xs ! j \<noteq> None) [i ..< length xs]"

lemma cells_from_first:
  "cells_from xs i = (case first_occupied xs i of None \<Rightarrow> [] | Some j \<Rightarrow> j # cells_from xs (Suc j))"
  unfolding cells_from_def by (rule first_occupied_filter)

lemma iterate_secondary:
  assumes "length (cells_from (secondary m) (Suc j)) < fuel" "it_vi it = Some j" "it_v it = Some (SecondarySlot j)"
  shows "iterate fuel m it = Inr (SecondarySlot j # map SecondarySlot (cells_from (secondary m) (Suc j)))"
  using assms
proof (induction fuel arbitrary: j it)
  case (Suc f)
  show ?case
  proof (cases "first_occupied (secondary m) (Suc j)")
    case None
    then show ?thesis
      using Suc.prems by (simp add: iterate.simps [of "Suc f"] next_it_def mk_iterator_def
          iterate.simps [of f] cells_from_first [of "secondary m" "Suc j"])
  next
    case (Some l)
    then have "iterate f m (next_it m it)
        = Inr (SecondarySlot l # map SecondarySlot (cells_from (secondary m) (Suc l)))"
      using Suc.prems cells_from_first [of "secondary m" "Suc j"]
      by (intro Suc.IH) (simp_all add: next_it_def mk_iterator_def)
    then show ?thesis
      using Suc.prems Some cells_from_first [of "secondary m" "Suc j"] by (simp add: iterate.simps [of "Suc f"])
  qed
qed simp

lemma iterate_primary:
  assumes "length (cells_from (primary m) (Suc i)) + length (cells_from (secondary m) 0) < fuel"
    and "it_vi it = None" "it_ki it = Some i" "it_v it = Some (PrimarySlot i)"
  shows "iterate fuel m it = Inr (PrimarySlot i # map PrimarySlot (cells_from (primary m) (Suc i))
           @ map SecondarySlot (cells_from (secondary m) 0))"
  using assms
proof (induction fuel arbitrary: i it)
  case (Suc f)
  note step = iterate.simps [of "Suc f"] cells_from_first [of "primary m" "Suc i"]
    cells_from_first [of "secondary m" 0]
  show ?case
  proof (cases "first_occupied (primary m) (Suc i)")
    case (Some l)
    then have "iterate f m (next_it m it) = Inr (PrimarySlot l # map PrimarySlot (cells_from (primary m) (Suc l))
           @ map SecondarySlot (cells_from (secondary m) 0))"
      using Suc.prems step(2) by (intro Suc.IH) (simp_all add: next_it_def mk_iterator_def)
    then show ?thesis using Suc.prems Some step(2) by (simp add: step(1))
  next
    case None
    show ?thesis
    proof (cases "first_occupied (secondary m) 0")
      case None': None
      then show ?thesis
        using Suc.prems None step(2,3) by (simp add: step(1) next_it_def mk_iterator_def iterate.simps [of f])
    next
      case (Some j)
      then have "iterate f m (next_it m it)
          = Inr (SecondarySlot j # map SecondarySlot (cells_from (secondary m) (Suc j)))"
        using Suc.prems None step(2,3)
        by (intro iterate_secondary) (simp_all add: next_it_def mk_iterator_def)
      then show ?thesis using Suc.prems None Some step(2,3) by (simp add: step(1))
    qed
  qed
qed simp

lemma slots_cells: "slots m = map PrimarySlot (cells_from (primary m) 0) @ map SecondarySlot (cells_from (secondary m) 0)"
  by (simp add: slots_def cells_from_def)

lemma length_slots:
  assumes "hm_inv hash m"
  shows "length (slots m) = msize m"
  using length_entries [OF assms] by (simp add: entries_slots)

lemma iterate_slots:
  assumes "hm_inv hash m"
  shows "iterate (msize m) m (begin_it m) = Inr (slots m)"
proof -
  note c = cells_from_first [of "primary m" 0] cells_from_first [of "secondary m" 0]
  have len: "length (cells_from (primary m) 0) + length (cells_from (secondary m) 0) = msize m"
    using length_slots [OF assms] by (simp add: slots_cells)
  show ?thesis
  proof (cases "first_occupied (primary m) 0")
    case (Some i)
    then have "begin_it m = mk_iterator (Some i) None (Some (PrimarySlot i))"
      using first_occupied_Some [OF Some] by (auto simp: begin_it_def)
    moreover have "length (cells_from (primary m) (Suc i)) + length (cells_from (secondary m) 0) < msize m"
      using Some c(1) len by simp
    ultimately show ?thesis
      using iterate_primary [of m i "msize m"] Some c(1) by (simp add: slots_cells mk_iterator_def)
  next
    case None
    show ?thesis
    proof (cases "first_occupied (secondary m) 0")
      case None': None
      then have "it_v (begin_it m) = None" using None by (simp add: begin_it_def end_iter_def mk_iterator_def)
      then show ?thesis using None None' c by (simp add: iterate.simps [of "msize m"] slots_cells)
    next
      case (Some j)
      have "primary m \<noteq> []"
        using first_occupied_Some [OF Some] hm_invD(1,2) [OF assms] by (cases "primary m") auto
      then have "begin_it m = mk_iterator (Some j) (Some j) (Some (SecondarySlot j))"
        using None Some by (simp add: begin_it_def)
      moreover have "length (cells_from (secondary m) (Suc j)) < msize m" using Some c None len by simp
      ultimately show ?thesis
        using iterate_secondary [of m j "msize m"] Some None c by (simp add: slots_cells mk_iterator_def)
    qed
  qed
qed

lemma range_for_entries:
  assumes "hm_inv hash m"
  shows "range_for m = Inr (entries m)"
  using iterate_slots [OF assms] by (simp add: range_for_def entries_slots)

section \<open>\<open>clear\<close> empties the table\<close>

text \<open>
  The iterator of \<open>clear\<close> stays in the primary array: the buckets before it are empty, and
  when it reaches the end no bucket and hence no chain is left.
\<close>

definition clearing :: "('k, 'v) hash_map \<Rightarrow> iterator \<Rightarrow> bool" where
  "clearing m it \<longleftrightarrow>
     (it_v it = None \<and> (\<forall>i < ksize m. primary m ! i = None)) \<or>
     (\<exists>i < ksize m. it = item_iterator i (PrimarySlot i) \<and> primary m ! i \<noteq> None \<and>
        (\<forall>l < i. primary m ! l = None))"

lemma no_primary_empty:
  assumes inv: "hm_inv hash m" and "\<forall>i < ksize m. primary m ! i = None"
  shows "\<forall>j < ksize m. secondary m ! j = None" "hm_abs m = Map.empty" "msize m = 0"
proof -
  have sec: "secondary m ! j = None" if j: "j < ksize m" for j
  proof (rule ccontr)
    assume "secondary m ! j \<noteq> None"
    then obtain s where s: "secondary m ! j = Some s" by auto
    obtain p where "bucket_index hash (ksize m) (skey s) = sindex s" "primary m ! sindex s = Some p"
      using hm_invD(6) [OF inv j] s by (rule secondary_okE)
    then show False using assms(2) bucket_index_less [of "ksize m" hash "skey s"] j by auto
  qed
  then show "\<forall>j < ksize m. secondary m ! j = None" by blast
  have "\<not> stored m a k v" for a k v using sec assms(2) by (cases a) auto
  then show "hm_abs m = Map.empty" using hm_abs_None [OF inv] by blast
  then show "msize m = 0" using card_dom_hm_abs [OF inv] by simp
qed

lemma erase_clearing:
  assumes inv: "hm_inv hash m" and "clearing m it" "it_v it \<noteq> None"
  shows "clearing (fst (erase_it m it)) (snd (erase_it m it))"
    "hm_inv hash (fst (erase_it m it))" "ksize (fst (erase_it m it)) = ksize m"
    "msize (fst (erase_it m it)) + 1 = msize m"
proof -
  from assms(2,3) obtain i p where i: "i < ksize m" "it = item_iterator i (PrimarySlot i)"
    and p: "primary m ! i = Some p" and before: "\<forall>l < i. primary m ! l = None"
    by (auto simp: clearing_def)
  have E: "erased hash m (pkey p) (fst (erase_it m it))" using erase_primary [OF inv i(1) p] i(2) by simp
  then show inv': "hm_inv hash (fst (erase_it m it))" and "ksize (fst (erase_it m it)) = ksize m"
    "msize (fst (erase_it m it)) + 1 = msize m" by (simp_all add: erased_def)
  note I = hm_invD(1,2) [OF inv]
  show "clearing (fst (erase_it m it)) (snd (erase_it m it))"
  proof (cases "psize p")
    case (Suc s)
    then show ?thesis
      using i p before I by (simp add: erase_it_def Let_def mk_iterator_def clearing_def)
  next
    case 0
    define m' where "m' = m\<lparr>msize := msize m - 1, primary := (primary m)[i := None]\<rparr>"
    have eq: "erase_it m it = (m', next_it m it)"
      using i p 0 by (simp add: erase_it_def Let_def mk_iterator_def m'_def)
    show ?thesis
    proof (cases "first_occupied (primary m) (Suc i)")
      case (Some j)
      have before': "primary m' ! l = None" if "l < j" for l
        using that before first_occupied_Some [OF Some] i(1) I
        by (cases "l < i"; cases "l = i") (simp_all add: m'_def)
      have "next_it m it = item_iterator j (PrimarySlot j)"
        using Some i(2) by (simp add: next_it_def mk_iterator_def)
      moreover have "j < ksize m'" "primary m' ! j \<noteq> None"
        using first_occupied_Some [OF Some] i(1) I by (auto simp: m'_def)
      ultimately show ?thesis unfolding eq fst_conv snd_conv clearing_def using before' by blast
    next
      case None
      have none: "\<forall>l < ksize m'. primary m' ! l = None"
        using before first_occupied_None [OF None] i(1) I
        by (auto simp: m'_def nth_list_update) (metis Suc_leI linorder_neqE_nat)
      have "first_occupied (secondary m) 0 = None"
      proof (cases "first_occupied (secondary m) 0")
        case (Some j)
        then show ?thesis
          using first_occupied_Some [OF Some] no_primary_empty(1) [OF _ none] inv' I by (auto simp: eq m'_def)
      qed
      then have "it_v (next_it m it) = None" using None i by (simp add: next_it_def mk_iterator_def)
      then show ?thesis unfolding eq fst_conv snd_conv clearing_def using none by blast
    qed
  qed
qed

lemma begin_clearing:
  assumes inv: "hm_inv hash m"
  shows "clearing m (begin_it m)"
proof (cases "first_occupied (primary m) 0")
  case (Some i)
  then show ?thesis using first_occupied_Some [OF Some] hm_invD(1) [OF inv]
    by (auto simp: clearing_def begin_it_def)
next
  case None
  have none: "\<forall>i < ksize m. primary m ! i = None"
    using first_occupied_None [OF None] hm_invD(1) [OF inv] by simp
  have "first_occupied (secondary m) 0 = None"
    using first_occupied_Some [of "secondary m" 0] no_primary_empty(1) [OF inv none] hm_invD(2) [OF inv]
    by (cases "first_occupied (secondary m) 0") auto
  then show ?thesis using None none by (simp add: clearing_def begin_it_def end_iter_def mk_iterator_def)
qed

lemma clear_loop_ok:
  assumes "hm_inv hash m" "clearing m it" "msize m \<le> fuel"
  shows "\<exists>m'. clear_loop fuel m it = Inr m' \<and> hm_inv hash m' \<and> ksize m' = ksize m \<and> hm_abs m' = Map.empty"
  using assms
proof (induction fuel arbitrary: m it)
  case 0
  then show ?case
    using erase_clearing(4) [OF 0(1,2)] no_primary_empty [OF 0(1)]
    by (cases "it_v it") (auto simp: clear_loop.simps clearing_def end_iter_def mk_iterator_def)
next
  case (Suc f)
  show ?case
  proof (cases "it_v it")
    case None
    then show ?thesis using Suc.prems no_primary_empty [OF Suc.prems(1)]
      by (auto simp: clear_loop.simps clearing_def end_iter_def mk_iterator_def)
  next
    case (Some a)
    note E = erase_clearing [OF Suc.prems(1,2)]
    have "\<exists>m'. clear_loop f (fst (erase_it m it)) (snd (erase_it m it)) = Inr m' \<and> hm_inv hash m' \<and>
        ksize m' = ksize (fst (erase_it m it)) \<and> hm_abs m' = Map.empty"
      using E Some Suc.prems(3) by (intro Suc.IH) auto
    then show ?thesis
      using E(3) Some by (simp add: clear_loop.simps [of "Suc f"] case_prod_beta end_iter_def mk_iterator_def)
  qed
qed

lemma clear_hm_ok:
  assumes "hm_inv hash m"
  shows "\<exists>m'. clear_hm m = Inr m' \<and> hm_inv hash m' \<and> ksize m' = ksize m \<and> hm_abs m' = Map.empty"
  unfolding clear_hm_def by (rule clear_loop_ok [OF assms begin_clearing [OF assms] order_refl])

end
