(* ===== verification/Hash_Map_Client.thy ===== *)
theory Hash_Map_Client
  imports Hash_Map_Iter
begin

unbundle bit_operations_syntax

text \<open>
  The hash table as its users see it: the interface of a map whose insertion keeps an existing
  value, what follows from it, and its implementation by the table. Then the properties of the
  table, and the one way of using it that the implementation does not support.
\<close>

section \<open>The interface\<close>

locale key_value_map =
  fixes invar :: "'m \<Rightarrow> bool" and abstr :: "'m \<Rightarrow> 'k \<rightharpoonup> 'v" and room :: "'m \<Rightarrow> bool"
    and lookup :: "'m \<Rightarrow> 'k \<Rightarrow> 'v option" and insert_new :: "'m \<Rightarrow> 'k \<Rightarrow> 'v \<Rightarrow> 'm result"
    and delete :: "'m \<Rightarrow> 'k \<Rightarrow> 'm"
  assumes lookup_abstr: "invar m \<Longrightarrow> lookup m k = abstr m k"
    and insert_law: "invar m \<Longrightarrow> insert_new m k v = Inr m' \<Longrightarrow>
      invar m' \<and> abstr m' = (if abstr m k = None then (abstr m)(k \<mapsto> v) else abstr m)"
    and insert_returns: "invar m \<Longrightarrow> room m \<Longrightarrow> \<exists>m'. insert_new m k v = Inr m'"
    and delete_law: "invar m \<Longrightarrow> invar (delete m k) \<and> abstr (delete m k) = (abstr m)(k := None)"
begin

lemma lookup_insert:
  assumes "invar m" "insert_new m k v = Inr m'"
  shows "lookup m' l = (if l = k \<and> lookup m k = None then Some v else lookup m l)"
  using insert_law [OF assms] lookup_abstr [of m'] lookup_abstr [OF assms(1)] by auto

lemma lookup_delete:
  assumes "invar m"
  shows "lookup (delete m k) l = (if l = k then None else lookup m l)"
  using delete_law [OF assms, of k] lookup_abstr assms by auto

text \<open>Assignment, as code that wants to overwrite must write it: erase, then insert.\<close>

lemma replace_value:
  assumes "invar m" "insert_new (delete m k) k v = Inr m'"
  shows "lookup m' = (lookup m)(k \<mapsto> v)"
proof
  fix l
  have "invar (delete m k)" using delete_law [OF assms(1)] by blast
  then show "lookup m' l = ((lookup m)(k \<mapsto> v)) l"
    using lookup_insert [OF _ assms(2)] lookup_delete [OF assms(1)] by simp
qed

text \<open>Inserting the pairs of a list: what is there stays, and the first pair of a key wins.\<close>

lemma insert_list:
  assumes "invar m" "fold_result (\<lambda>m (k, v). insert_new m k v) m kvs = Inr m'"
  shows "invar m' \<and> abstr m' = map_of kvs ++ abstr m"
  using assms
proof (induction kvs arbitrary: m)
  case (Cons kv kvs)
  obtain k v where kv: "kv = (k, v)" by (cases kv)
  with Cons.prems(2) obtain m1 where m1: "insert_new m k v = Inr m1"
    and rest: "fold_result (\<lambda>m (k, v). insert_new m k v) m1 kvs = Inr m'"
    by (auto simp: bind_result_Inr)
  note L = insert_law [OF Cons.prems(1) m1]
  then have "invar m' \<and> abstr m' = map_of kvs ++ abstr m1" using Cons.IH rest by blast
  moreover have "map_of kvs ++ abstr m1 = map_of (kv # kvs) ++ abstr m"
    using L by (auto simp: kv map_add_def fun_eq_iff split: option.splits)
  ultimately show ?case by metis
qed simp

end

section \<open>The implementation\<close>

definition hm_lookup :: "('k \<Rightarrow> u64) \<Rightarrow> ('k, 'v) hash_map \<Rightarrow> 'k \<Rightarrow> 'v option" where
  "hm_lookup hash m k = map_option (\<lambda>a. snd (the (deref m a))) (it_v (find_it hash m k))"

definition hm_room :: "('k, 'v) hash_map \<Rightarrow> bool" where
  "hm_room m \<longleftrightarrow> msize m \<le> 2 ^ 60 \<and> ksize m < 2 ^ 62"

lemma try_emplace_emplaced:
  fixes m :: "('k, 'v) hash_map"
  assumes "hm_inv hash m" "try_emplace fuel hash psz m k v = Inr r"
  shows "emplaced hash m k v r"
proof -
  have "emplacer_ok hash (try_emplace fuel hash psz :: ('k, 'v) emplacer)" by (rule try_emplace_ok)
  with assms show ?thesis unfolding emplacer_ok_def by blast
qed

lemma hm_insert_ok:
  assumes "hm_inv hash m" "hm_insert hash psz m k v = Inr m'"
  shows "hm_inv hash m' \<and> hm_abs m' = (if hm_abs m k = None then (hm_abs m)(k \<mapsto> v) else hm_abs m)"
proof -
  from assms(2) obtain r where r: "try_emplace 63 hash psz m k v = Inr r" "m' = fst r"
    by (auto simp: hm_insert_def bind_result_Inr)
  show ?thesis using try_emplace_emplaced [OF assms(1) r(1)] r(2) by (cases r) (auto simp: emplaced_def)
qed

interpretation hm: key_value_map "hm_inv hash" hm_abs hm_room "hm_lookup hash" "hm_insert hash psz" "erase_key hash"
  for hash :: "'k \<Rightarrow> u64" and psz :: nat
proof unfold_locales
  fix m :: "('k, 'v) hash_map" and k v m'
  assume inv: "hm_inv hash m"
  show "hm_lookup hash m k = hm_abs m k" using find_it_correct [OF inv] by (simp add: hm_lookup_def)
  show "hm_inv hash (erase_key hash m k) \<and> hm_abs (erase_key hash m k) = (hm_abs m)(k := None)"
    using erase_key_ok [OF inv, of k] inv by (auto simp: erased_def fun_upd_idem split: if_splits)
  show "\<exists>m'. hm_insert hash psz m k v = Inr m'" if "hm_room m"
  proof -
    have "\<exists>r. try_emplace 63 hash psz m k v = Inr r"
      using that by (intro try_emplace_total [OF inv]) (simp_all add: hm_room_def)
    then show ?thesis by (auto simp: hm_insert_def)
  qed
  show "hm_inv hash m' \<and> hm_abs m' = (if hm_abs m k = None then (hm_abs m)(k \<mapsto> v) else hm_abs m)"
    if "hm_insert hash psz m k v = Inr m'" using hm_insert_ok [OF inv that] .
qed

lemma hm_insert_unfold:
  "hm_insert hash psz m k v = bind_result (try_emplace (Suc 62) hash psz m k v) (\<lambda>r. Inr (fst r))"
  by (simp add: hm_insert_def del: try_emplace.simps)

lemma hm_insert_new:
  "hm_insert hash psz hm_new k v = hm_insert hash psz (fresh_table 16) k v"
proof -
  have "double_until 1 16 = 16" by (simp add: double_until.simps)
  then have "reserve_with te hm_new 16 = Inr (fresh_table 16)" for te :: "('a,'b) emplacer"
    by (simp add: reserve_with_def rehash_with_def hm_new_def entries_def)
  moreover have "primary (hm_new :: ('a,'b) hash_map) = []" "primary (fresh_table 16 :: ('a,'b) hash_map) \<noteq> []"
    by (simp_all add: hm_new_def fresh_table_def)
  ultimately show ?thesis unfolding hm_insert_unfold try_emplace.simps by simp
qed

lemma hm_insert_place:
  assumes "primary m \<noteq> []" "it_v (find_it hash m k) = None" "msize m < ksize m"
  shows "hm_insert hash psz m k v =
    (case emplace_at psz m (find_it hash m k) k v of
       Placed r \<Rightarrow> Inr (fst r)
     | Expand \<Rightarrow> bind_result (resize_loop 62 hash psz (try_emplace 62 hash psz) m (ksize m + 1) k v)
                   (\<lambda>r. Inr (fst r))
     | Stuck \<Rightarrow> Inl OutOfFuel)"
  unfolding hm_insert_unfold try_emplace.simps Let_def using assms by (simp split: attempt.split)

section \<open>Erasing through an advanced iterator\<close>

text \<open>
  \<open>operator++\<close> inside the secondary array does not update \<open>ki\<close>, and \<open>erase\<close> trusts it. Four
  insertions, with two chains of one item each, and the iterator advanced to the last item:
  erasing it takes the other chain's item out of its chain.
\<close>

definition two_homes :: "nat \<Rightarrow> u64" where
  "two_homes k = (if k < 2 then 0 else 1)"

definition chains16 ::
  "nat \<Rightarrow> (nat, nat) primary_item option \<Rightarrow> (nat, nat) primary_item option
   \<Rightarrow> (nat, nat) secondary_item option \<Rightarrow> (nat, nat) secondary_item option \<Rightarrow> (nat, nat) hash_map" where
  "chains16 n p p' s s' = \<lparr>ksize = 16, msize = n, primary = (replicate 16 None)[0 := p, 9 := p'],
     secondary = (replicate 16 None)[0 := s, 9 := s']\<rparr>"

definition two_chains :: "(nat, nat) hash_map" where
  "two_chains = chains16 4
     (Some \<lparr>pkey = 0, pvalue = 10, psize = 1\<rparr>) (Some \<lparr>pkey = 2, pvalue = 12, psize = 1\<rparr>)
     (Some \<lparr>skey = 1, svalue = 11, sindex = 0\<rparr>) (Some \<lparr>skey = 3, svalue = 13, sindex = 9\<rparr>)"

lemma two_chains_size: "msize two_chains = 4" "ksize two_chains = 16"
  by (simp_all add: two_chains_def chains16_def)

lemma two_homes_bucket: "bucket_index two_homes 16 k = (if k < 2 then 0 else 9)"
  by (simp add: bucket_index_def two_homes_def)

lemma replicate16: "replicate 16 x = [x, x, x, x, x, x, x, x, x, x, x, x, x, x, x, x]"
  by (simp add: numeral_eq_Suc)

lemmas evaluate_table = find_it_def mk_iterator_def two_homes_bucket emplace_at_def Let_def
  free_secondary.simps fresh_table_def chains16_def replicate16 hm_insert_place

lemma two_chains_steps:
  "hm_insert two_homes 24 hm_new 0 10 = Inr (chains16 1 (Some \<lparr>pkey = 0, pvalue = 10, psize = 0\<rparr>) None None None)"
  "hm_insert two_homes 24 (chains16 1 (Some \<lparr>pkey = 0, pvalue = 10, psize = 0\<rparr>) None None None) 1 11
   = Inr (chains16 2 (Some \<lparr>pkey = 0, pvalue = 10, psize = 1\<rparr>) None (Some \<lparr>skey = 1, svalue = 11, sindex = 0\<rparr>) None)"
  "hm_insert two_homes 24
     (chains16 2 (Some \<lparr>pkey = 0, pvalue = 10, psize = 1\<rparr>) None (Some \<lparr>skey = 1, svalue = 11, sindex = 0\<rparr>) None) 2 12
   = Inr (chains16 3 (Some \<lparr>pkey = 0, pvalue = 10, psize = 1\<rparr>) (Some \<lparr>pkey = 2, pvalue = 12, psize = 0\<rparr>)
            (Some \<lparr>skey = 1, svalue = 11, sindex = 0\<rparr>) None)"
  "hm_insert two_homes 24
     (chains16 3 (Some \<lparr>pkey = 0, pvalue = 10, psize = 1\<rparr>) (Some \<lparr>pkey = 2, pvalue = 12, psize = 0\<rparr>)
        (Some \<lparr>skey = 1, svalue = 11, sindex = 0\<rparr>) None) 3 13
   = Inr two_chains"
  by (simp_all add: hm_insert_new evaluate_table two_chains_def)

lemma two_chains_built:
  "fold_result (\<lambda>m (k, v). hm_insert two_homes 24 m k v) hm_new [(0, 10), (1, 11), (2, 12), (3, 13)]
   = Inr two_chains"
  by (simp add: two_chains_steps two_chains_steps [unfolded One_nat_def])

lemma two_chains_map:
  "hm_inv two_homes two_chains" "hm_abs two_chains = [0 \<mapsto> 10, 1 \<mapsto> 11, 2 \<mapsto> 12, 3 \<mapsto> 13]"
proof -
  have "hm_inv two_homes (hm_new :: (nat, nat) hash_map)" by (rule hm_new_inv)
  moreover have "hm_abs (hm_new :: (nat, nat) hash_map) = Map.empty" by (simp add: hm_new_def hm_abs_def entries_def)
  ultimately have "hm_inv two_homes two_chains \<and> hm_abs two_chains = map_of [(0, 10), (1, 11), (2, 12), (3, 13)]"
    using hm.insert_list [of two_homes hm_new 24, OF _ two_chains_built] by simp
  then show "hm_inv two_homes two_chains" "hm_abs two_chains = [0 \<mapsto> 10, 1 \<mapsto> 11, 2 \<mapsto> 12, 3 \<mapsto> 13]"
    by (auto simp: fun_eq_iff)
qed

definition last_item :: iterator where
  "last_item = next_it two_chains (next_it two_chains (next_it two_chains (begin_it two_chains)))"

lemma last_item_eq: "last_item = mk_iterator (Some 0) (Some 9) (Some (SecondarySlot 9))"
  by (simp add: last_item_def two_chains_def evaluate_table begin_it_def next_it_def first_occupied.simps)

section \<open>Properties\<close>

text \<open>
  C1: \<open>try_emplace\<close> returns on every well-formed table of at most 2^60 items and fewer than
  2^62 buckets, however the keys collide. The flag says whether the key was new; a new key is
  added and the value of a present key kept; the iterator points at the key's value in the
  new table, which is well-formed.
\<close>

theorem try_emplace_correct:
  fixes m :: "('k, 'v) hash_map"
  assumes "hm_inv hash m" "msize m \<le> 2 ^ 60" "ksize m < 2 ^ 62"
  shows "\<exists>m' it a. try_emplace 63 hash psz m k v = Inr (m', it, hm_abs m k = None) \<and>
    hm_inv hash m' \<and> hm_abs m' = (if hm_abs m k = None then (hm_abs m)(k \<mapsto> v) else hm_abs m) \<and>
    it_v it = Some a \<and> deref m' a = Some (k, the (hm_abs m' k))"
proof -
  obtain m' it b where r: "try_emplace 63 hash psz m k v = Inr (m', it, b)"
    using try_emplace_total [OF assms, of 63 psz k v] by auto
  note e = try_emplace_emplaced [OF assms(1) r]
  then obtain a w where a: "it_v it = Some a" "stored m' a k w" by (auto simp: emplaced_def)
  then have "hm_abs m' k = Some w" using e hm_abs_iff [of hash m'] by (auto simp: emplaced_def)
  with r e a show ?thesis by (auto simp: emplaced_def stored_def)
qed

theorem try_emplace_correct_witness:
  "\<exists>m' it a. try_emplace 63 two_homes 24 two_chains 5 15 = Inr (m', it, True) \<and>
    hm_inv two_homes m' \<and> hm_abs m' = [0 \<mapsto> 10, 1 \<mapsto> 11, 2 \<mapsto> 12, 3 \<mapsto> 13, 5 \<mapsto> 15] \<and>
    it_v it = Some a \<and> deref m' a = Some (5, 15)"
  using try_emplace_correct [OF two_chains_map(1), of 24 5 15]
  by (auto simp: two_chains_map(2) two_chains_size)

text \<open>
  C2: \<open>find\<close>, \<open>contains\<close> and \<open>at\<close> agree with the map the table stands for: the pointer found leads
  to the key's value and is null exactly when the key is absent, and \<open>at\<close> throws exactly then.
\<close>

theorem lookup_correct:
  assumes "hm_inv hash m"
  shows "hm_lookup hash m k = hm_abs m k \<and> contains hash m k = (hm_abs m k \<noteq> None) \<and>
    hm_at hash m k = (case hm_abs m k of None \<Rightarrow> Inl OutOfRange | Some v \<Rightarrow> Inr v)"
  using hm.lookup_abstr [OF assms] contains_correct [OF assms, of k] hm_at_correct [OF assms, of k]
  by (simp add: dom_def)

theorem lookup_correct_witness:
  "hm_lookup two_homes two_chains 3 = Some 13 \<and> hm_at two_homes two_chains 4 = Inl OutOfRange"
  using lookup_correct [OF two_chains_map(1), of 3] lookup_correct [OF two_chains_map(1), of 4]
  by (simp add: two_chains_map(2))

text \<open>
  C3: \<open>erase(key)\<close> removes the key and nothing else, keeps the table well-formed and its
  bucket count, and lowers the size by one when the key was present; moving the end of the
  chain into the erased cell loses no item.
\<close>

theorem erase_correct:
  assumes "hm_inv hash m"
  shows "hm_inv hash (erase_key hash m k) \<and> ksize (erase_key hash m k) = ksize m \<and>
    hm_abs (erase_key hash m k) = (hm_abs m)(k := None) \<and>
    msize (erase_key hash m k) = msize m - (if hm_abs m k = None then 0 else 1)"
  using erase_key_ok [OF assms, of k] assms by (auto simp: erased_def fun_upd_idem split: if_splits)

theorem erase_correct_witness:
  "hm_abs (erase_key two_homes two_chains 0) = [1 \<mapsto> 11, 2 \<mapsto> 12, 3 \<mapsto> 13] \<and>
   msize (erase_key two_homes two_chains 0) = 3"
  using erase_correct [OF two_chains_map(1), of 0]
  by (auto simp: two_chains_map(2) fun_eq_iff two_chains_size)

text \<open>
  C20: The unrolled search of the overflow chain (\<open>findSlowPath\<close>) is a linear probe of the
  bucket's slots, cyclically, and ends after at most as many steps as the chain is long.
\<close>

theorem slow_path_is_linear_probe:
  assumes "pow2 (ksize m)" "0 < s" "s < ksize m" "ki < ksize m"
  shows "findSlowPath m ki s k = probe_linear m ki k ki s"
  by (rule findSlowPath_linear [OF assms])

theorem slow_path_is_linear_probe_witness:
  "findSlowPath two_chains 9 1 3 = mk_iterator (Some 9) (Some 9) (Some (SecondarySlot 9))"
proof -
  have "pow2 (ksize two_chains)" unfolding pow2_def by (rule exI [of _ 4]) (simp add: two_chains_def chains16_def)
  then show ?thesis
    using slow_path_is_linear_probe [of two_chains 1 9 3]
    by (simp add: two_chains_def chains16_def replicate16 sec_equal_def)
qed

text \<open>
  C21: A range-for loop over the table ends and visits every key-value pair exactly once.
\<close>

theorem iteration_complete:
  assumes "hm_inv hash m"
  shows "\<exists>es. range_for m = Inr es \<and> distinct (map fst es) \<and> map_of es = hm_abs m \<and> length es = msize m"
  using range_for_entries [OF assms] distinct_entries [OF assms] length_entries [OF assms]
  by (simp add: hm_abs_def)

theorem iteration_complete_witness:
  "\<exists>es. range_for two_chains = Inr es \<and> distinct (map fst es) \<and> map_of es = hm_abs two_chains \<and> length es = 4"
  using iteration_complete [OF two_chains_map(1)] by (simp add: two_chains_size)

text \<open>
  C22: \<open>clear\<close> ends, leaves the table empty and well-formed, and keeps its buckets.
\<close>

theorem clear_correct:
  assumes "hm_inv hash m"
  shows "\<exists>m'. clear_hm m = Inr m' \<and> hm_inv hash m' \<and> hm_abs m' = Map.empty \<and> hm_empty m' \<and> ksize m' = ksize m"
  using clear_hm_ok [OF assms] card_dom_hm_abs by (fastforce simp: hm_empty_def)

theorem clear_correct_witness:
  "\<exists>m'. clear_hm two_chains = Inr m' \<and> hm_empty m' \<and> ksize m' = 16"
  using clear_correct [OF two_chains_map(1)] by (auto simp: two_chains_size)

text \<open>
  C23: Erasing through an iterator that was advanced inside the secondary array corrupts the
  table: after four insertions, erasing the last item of the iteration (key 3) makes the
  present key 1 impossible to find.
\<close>

theorem advanced_iterator_erase:
  "fold_result (\<lambda>m (k, v). hm_insert two_homes 24 m k v) hm_new [(0, 10), (1, 11), (2, 12), (3, 13)]
     = Inr two_chains \<and>
   map_option (deref two_chains) (it_v last_item) = Some (Some (3, 13)) \<and>
   contains two_homes two_chains 1 \<and> \<not> contains two_homes (fst (erase_it two_chains last_item)) 1"
proof (intro conjI)
  show "map_option (deref two_chains) (it_v last_item) = Some (Some (3, 13))"
    by (simp add: last_item_eq mk_iterator_def deref_def two_chains_def chains16_def replicate16)
  show "contains two_homes two_chains 1"
    by (simp add: contains_correct [OF two_chains_map(1)] two_chains_map(2))
  show "\<not> contains two_homes (fst (erase_it two_chains last_item)) 1"
    by (simp add: last_item_eq contains_def erase_it_def evaluate_table two_chains_def end_iter_def)
qed (rule two_chains_built)

end
