(* ===== verification/Serialization.thy ===== *)
theory Serialization
  imports Prelude
begin

unbundle bit_operations_syntax

text \<open>
  The serializer of \<^verbatim>\<open>core/serialization.h\<close>. The C++ templates select the code from the
  static type; here the static type is a value of \<open>ty\<close>, and the overloads of \<open>serialize\<close> are
  the equations of one function over it. A trivially copyable object is its object
  representation, a list of bytes; \<open>size_t\<close> has eight bytes, the lowest first.
\<close>

section \<open>Types and values\<close>

type_synonym bytes = "u8 list"

datatype ty =
    Triv nat
  | Str
  | OptT ty
  | VecT ty
  | MapT ty ty
  | Struct tys
  | VariantT alts
and tys = TNil | TCons ty tys
and alts = ANil | ACons ty alts

text \<open>
  \<open>VUnset\<close> stands for a variant whose target was left as it was, which is what reading an
  index beyond the last alternative does.
\<close>

datatype val =
    VTriv bytes
  | VStr bytes
  | VNone
  | VSome val
  | VVec "val list"
  | VMap "(val \<times> val) list"
  | VStruct "val list"
  | VVariant nat val
  | VUnset

text \<open>The values of a type, as far as a \<open>size_t\<close> can count their elements.\<close>

definition u64_count :: "nat \<Rightarrow> bool" where
  "u64_count n \<longleftrightarrow> n < 2 ^ 64"

primrec has_type :: "ty \<Rightarrow> val \<Rightarrow> bool"
  and has_types :: "tys \<Rightarrow> val list \<Rightarrow> bool"
  and has_variant :: "alts \<Rightarrow> nat \<Rightarrow> val \<Rightarrow> bool" where
  "has_type (Triv n) v = (case v of VTriv b \<Rightarrow> length b = n | _ \<Rightarrow> False)"
| "has_type Str v = (case v of VStr b \<Rightarrow> u64_count (length b) | _ \<Rightarrow> False)"
| "has_type (OptT t) v = (case v of VNone \<Rightarrow> True | VSome w \<Rightarrow> has_type t w | _ \<Rightarrow> False)"
| "has_type (VecT t) v = (case v of VVec vs \<Rightarrow> u64_count (length vs) \<and> list_all (has_type t) vs | _ \<Rightarrow> False)"
| "has_type (MapT t u) v =
     (case v of VMap kvs \<Rightarrow> u64_count (length kvs) \<and> distinct (map fst kvs) \<and>
                            list_all (\<lambda>(k, w). has_type t k \<and> has_type u w) kvs
      | _ \<Rightarrow> False)"
| "has_type (Struct ts) v = (case v of VStruct vs \<Rightarrow> has_types ts vs | _ \<Rightarrow> False)"
| "has_type (VariantT as) v = (case v of VVariant i w \<Rightarrow> u64_count i \<and> has_variant as i w | _ \<Rightarrow> False)"
| "has_types TNil vs = (vs = [])"
| "has_types (TCons t ts) vs = (case vs of [] \<Rightarrow> False | v # vs' \<Rightarrow> has_type t v \<and> has_types ts vs')"
| "has_variant ANil i v = False"
| "has_variant (ACons t ts) i v = (case i of 0 \<Rightarrow> has_type t v | Suc j \<Rightarrow> has_variant ts j v)"

section \<open>Writing\<close>

text \<open>The object representation of a \<open>size_t\<close>.\<close>

fun le_bytes :: "nat \<Rightarrow> nat \<Rightarrow> bytes" where
  "le_bytes 0 n = []"
| "le_bytes (Suc k) n = of_nat (n mod 256) # le_bytes k (n div 256)"

fun le_nat :: "bytes \<Rightarrow> nat" where
  "le_nat [] = 0"
| "le_nat (b # bs) = unat b + 256 * le_nat bs"

text \<open>
  The overloads of \<open>serialize\<close> on constant values, over the writer \<open>wr\<close> of the archive
  (\<open>Serialize<OpSize>\<close>, \<open>Serialize<OpWrite>\<close> or \<open>SerializeExpandable\<close>).
\<close>

type_synonym 's writer = "'s \<Rightarrow> bytes \<Rightarrow> 's result"

definition write_size :: "'s writer \<Rightarrow> 's \<Rightarrow> nat \<Rightarrow> 's result" where
  "write_size wr s n = wr s (le_bytes 8 n)"

primrec serialize :: "'s writer \<Rightarrow> ty \<Rightarrow> 's \<Rightarrow> val \<Rightarrow> 's result"
  and serialize_args :: "'s writer \<Rightarrow> tys \<Rightarrow> 's \<Rightarrow> val list \<Rightarrow> 's result"
  and serialize_alt :: "'s writer \<Rightarrow> alts \<Rightarrow> 's \<Rightarrow> nat \<Rightarrow> val \<Rightarrow> 's result" where
  "serialize wr (Triv n) s v = (case v of VTriv b \<Rightarrow> wr s b | _ \<Rightarrow> Inl Aborted)"
| "serialize wr Str s v =
     (case v of VStr b \<Rightarrow> bind_result (write_size wr s (length b)) (\<lambda>s. wr s b) | _ \<Rightarrow> Inl Aborted)"
| "serialize wr (OptT t) s v =
     (case v of
        VNone \<Rightarrow> wr s [0]
      | VSome w \<Rightarrow> bind_result (wr s [1]) (\<lambda>s. serialize wr t s w)
      | _ \<Rightarrow> Inl Aborted)"
| "serialize wr (VecT t) s v =
     (case v of
        VVec vs \<Rightarrow> bind_result (write_size wr s (length vs)) (\<lambda>s. fold_result (serialize wr t) s vs)
      | _ \<Rightarrow> Inl Aborted)"
| "serialize wr (MapT t u) s v =
     (case v of
        VMap kvs \<Rightarrow> bind_result (write_size wr s (length kvs))
          (\<lambda>s. fold_result (\<lambda>s (k, w). bind_result (serialize wr t s k) (\<lambda>s. serialize wr u s w)) s kvs)
      | _ \<Rightarrow> Inl Aborted)"
| "serialize wr (Struct ts) s v = (case v of VStruct vs \<Rightarrow> serialize_args wr ts s vs | _ \<Rightarrow> Inl Aborted)"
| "serialize wr (VariantT ts) s v =
     (case v of
        VVariant i w \<Rightarrow> bind_result (write_size wr s i) (\<lambda>s. serialize_alt wr ts s i w)
      | _ \<Rightarrow> Inl Aborted)"
| "serialize_args wr TNil s vs = Inr s"
| "serialize_args wr (TCons t ts) s vs =
     (case vs of
        [] \<Rightarrow> Inl Aborted
      | v # vs' \<Rightarrow> bind_result (serialize wr t s v) (\<lambda>s. serialize_args wr ts s vs'))"
| "serialize_alt wr ANil s i v = Inl Aborted"
| "serialize_alt wr (ACons t ts) s i v =
     (case i of 0 \<Rightarrow> serialize wr t s v | Suc j \<Rightarrow> serialize_alt wr ts s j v)"

text \<open>\<open>Serialize<OpSize>\<close> counts; \<open>Serialize<OpWrite>\<close> copies to \<open>dst\<close> in a buffer of fixed size.\<close>

definition size_write :: "nat writer" where
  "size_write dst b = Inr (dst + length b)"

record out =
  obuf :: bytes
  odst :: nat

definition overwrite_at :: "nat \<Rightarrow> bytes \<Rightarrow> bytes \<Rightarrow> bytes" where
  "overwrite_at i b xs = take i xs @ b @ drop (i + length b) xs"

definition mem_write :: "out writer" where
  "mem_write x b =
     (if odst x + length b \<le> length (obuf x)
      then Inr (x\<lparr>obuf := overwrite_at (odst x) b (obuf x), odst := odst x + length b\<rparr>)
      else Inl OutOfBounds)"

text \<open>
  \<open>SerializeExpandable\<close>: the buffer grows when what is to be written does not fit. The usable
  size of a new allocation (\<open>internalAllocSize\<close> less the header) is the argument \<open>usable\<close>,
  and \<open>fresh\<close> is what the new memory contains.
\<close>

record expandable =
  ebuf :: bytes
  esize :: nat

definition expand_buffer :: "(nat \<Rightarrow> nat) \<Rightarrow> (nat \<Rightarrow> bytes) \<Rightarrow> expandable \<Rightarrow> nat \<Rightarrow> expandable" where
  "expand_buffer usable fresh x nreq =
     (let msize = length (ebuf x);
          new = fresh (usable (max (msize * 2) (msize + nreq)))
      in x\<lparr>ebuf := overwrite_at 0 (take (esize x) (ebuf x)) new\<rparr>)"

definition twrite :: "(nat \<Rightarrow> nat) \<Rightarrow> (nat \<Rightarrow> bytes) \<Rightarrow> expandable writer" where
  "twrite usable fresh x b =
     (let nreq = length b;
          x = (if nreq \<ge> length (ebuf x) - esize x then expand_buffer usable fresh x nreq else x)
      in if esize x + nreq \<le> length (ebuf x)
         then Inr (x\<lparr>ebuf := overwrite_at (esize x) b (ebuf x), esize := esize x + nreq\<rparr>)
         else Inl OutOfBounds)"

section \<open>Reading\<close>

record des =
  dbase :: bytes
  doffset :: nat

definition remaining :: "des \<Rightarrow> nat" where
  "remaining d = length (dbase d) - doffset d"

definition consume :: "des \<Rightarrow> nat \<Rightarrow> des" where
  "consume d n = d\<lparr>doffset := doffset d + n\<rparr>"

text \<open>\<open>memcpy\<close> from the input: outside the buffer the language gives it no meaning.\<close>

definition peek :: "des \<Rightarrow> nat \<Rightarrow> bytes result" where
  "peek d n = (if doffset d + n \<le> length (dbase d) then Inr (take n (drop (doffset d) (dbase d)))
               else Inl OutOfBounds)"

definition read_triv :: "des \<Rightarrow> nat \<Rightarrow> (bytes \<times> des) result" where
  "read_triv d n =
     (if remaining d < n then Inl EndOfData
      else bind_result (peek d n) (\<lambda>b. Inr (b, consume d n)))"

definition read_size :: "des \<Rightarrow> (nat \<times> des) result" where
  "read_size d = bind_result (read_triv d 8) (\<lambda>(b, d). Inr (le_nat b, d))"

definition readString :: "des \<Rightarrow> (bytes \<times> des) result" where
  "readString d =
     bind_result (read_size d) (\<lambda>(len, d).
       if remaining d < len then Inl EndOfData
       else bind_result (peek d len) (\<lambda>b. Inr (b, consume d len)))"

text \<open>
  \<open>readStringView<T>\<close> returns a pointer and a count; the product with \<open>sizeof(T)\<close>, both in the
  check and in the advance, is a \<open>size_t\<close> and wraps.
\<close>

definition readStringView :: "des \<Rightarrow> nat \<Rightarrow> ((nat \<times> nat) \<times> des) result" where
  "readStringView d sz =
     bind_result (read_size d) (\<lambda>(len, d).
       if remaining d < (sz * len) mod 2 ^ 64 then Inl EndOfData
       else Inr ((doffset d, len), consume d ((sz * len) mod 2 ^ 64)))"

text \<open>The elements of a view, read one after the other by whoever uses it.\<close>

fun view_elements :: "bytes \<Rightarrow> nat \<Rightarrow> nat \<Rightarrow> nat \<Rightarrow> val list result" where
  "view_elements base p sz 0 = Inr []"
| "view_elements base p sz (Suc n) =
     (if p + sz \<le> length base
      then bind_result (view_elements base (p + sz) sz n) (\<lambda>vs. Inr (VTriv (take sz (drop p base)) # vs))
      else Inl OutOfBounds)"

fun read_list :: "(des \<Rightarrow> (val \<times> des) result) \<Rightarrow> nat \<Rightarrow> des \<Rightarrow> (val list \<times> des) result" where
  "read_list rd 0 d = Inr ([], d)"
| "read_list rd (Suc n) d =
     bind_result (rd d) (\<lambda>(v, d). bind_result (read_list rd n d) (\<lambda>(vs, d). Inr (v # vs, d)))"

definition emplace_kv :: "(val \<times> val) list \<Rightarrow> val \<Rightarrow> val \<Rightarrow> (val \<times> val) list" where
  "emplace_kv m k v = (if k \<in> set (map fst m) then m else m @ [(k, v)])"

fun read_map ::
  "(des \<Rightarrow> (val \<times> des) result) \<Rightarrow> (des \<Rightarrow> (val \<times> des) result) \<Rightarrow> nat \<Rightarrow> (val \<times> val) list \<Rightarrow> des
   \<Rightarrow> ((val \<times> val) list \<times> des) result" where
  "read_map rk rv 0 m d = Inr (m, d)"
| "read_map rk rv (Suc n) m d =
     bind_result (rk d) (\<lambda>(k, d). bind_result (rv d) (\<lambda>(v, d). read_map rk rv n (emplace_kv m k v) d))"

text \<open>
  The trivially copyable arguments at the front of an argument list are checked together,
  \<open>trivialBytes\<close>, and copied without further checks (\<open>trivialCopy\<close>).
\<close>

primrec trivialBytes :: "tys \<Rightarrow> nat" where
  "trivialBytes TNil = 0"
| "trivialBytes (TCons t ts) = (case t of Triv n \<Rightarrow> n + trivialBytes ts | _ \<Rightarrow> 0)"

definition copy_triv :: "des \<Rightarrow> nat \<Rightarrow> (bytes \<times> des) result" where
  "copy_triv d n = bind_result (peek d n) (\<lambda>b. Inr (b, consume d n))"

fun is_triv :: "ty \<Rightarrow> bool" where
  "is_triv (Triv n) = True"
| "is_triv _ = False"

primrec triv_size :: "ty \<Rightarrow> nat" where
  "triv_size (Triv n) = n"
| "triv_size Str = 0"
| "triv_size (OptT t) = 0"
| "triv_size (VecT t) = 0"
| "triv_size (MapT t u) = 0"
| "triv_size (Struct ts) = 0"
| "triv_size (VariantT ts) = 0"

definition read_elements :: "(des \<Rightarrow> (val \<times> des) result) \<Rightarrow> ty \<Rightarrow> des \<Rightarrow> (val \<times> des) result" where
  "read_elements rd t d =
     (if is_triv t
      then bind_result (readStringView d (triv_size t)) (\<lambda>((p, len), d').
             bind_result (view_elements (dbase d) p (triv_size t) len) (\<lambda>vs. Inr (VVec vs, d')))
      else bind_result (read_size d) (\<lambda>(n, d). bind_result (read_list rd n d) (\<lambda>(vs, d). Inr (VVec vs, d))))"

primrec deserialize :: "ty \<Rightarrow> des \<Rightarrow> (val \<times> des) result"
  and deserialize_args :: "tys \<Rightarrow> bool \<Rightarrow> des \<Rightarrow> (val list \<times> des) result"
  and deserializeVariantHelper :: "alts \<Rightarrow> nat \<Rightarrow> des \<Rightarrow> (val \<times> des) result" where
  "deserialize (Triv n) d = bind_result (read_triv d n) (\<lambda>(b, d). Inr (VTriv b, d))"
| "deserialize Str d = bind_result (readString d) (\<lambda>(b, d). Inr (VStr b, d))"
| "deserialize (OptT t) d =
     bind_result (read_triv d 1) (\<lambda>(b, d).
       if b \<noteq> [0] then bind_result (deserialize t d) (\<lambda>(v, d). Inr (VSome v, d)) else Inr (VNone, d))"
| "deserialize (VecT t) d = read_elements (deserialize t) t d"
| "deserialize (MapT t u) d =
     bind_result (read_size d) (\<lambda>(n, d).
       bind_result (read_map (deserialize t) (deserialize u) n [] d) (\<lambda>(m, d). Inr (VMap m, d)))"
| "deserialize (Struct ts) d = bind_result (deserialize_args ts False d) (\<lambda>(vs, d). Inr (VStruct vs, d))"
| "deserialize (VariantT ts) d =
     bind_result (read_size d) (\<lambda>(i, d).
       bind_result (deserializeVariantHelper ts i d) (\<lambda>(v, d).
         Inr (if v = VUnset then VUnset else VVariant i v, d)))"
| "deserialize_args TNil checked d = Inr ([], d)"
| "deserialize_args (TCons t ts) checked d =
     (if is_triv t
      then (if \<not> checked \<and> remaining d < trivialBytes (TCons t ts) then Inl EndOfData
            else bind_result (copy_triv d (triv_size t)) (\<lambda>(b, d).
                   bind_result (deserialize_args ts True d) (\<lambda>(vs, d). Inr (VTriv b # vs, d))))
      else bind_result (deserialize t d) (\<lambda>(v, d).
             bind_result (deserialize_args ts False d) (\<lambda>(vs, d). Inr (v # vs, d))))"
| "deserializeVariantHelper ANil i d = Inr (VUnset, d)"
| "deserializeVariantHelper (ACons t ts) i d =
     (case i of 0 \<Rightarrow> deserialize t d | Suc j \<Rightarrow> deserializeVariantHelper ts j d)"

section \<open>The entry points\<close>

text \<open>The counting pass, then a buffer of that size (with content \<open>fresh\<close>), then the writing pass.\<close>

definition serializeToBuffer :: "(nat \<Rightarrow> bytes) \<Rightarrow> ty \<Rightarrow> val \<Rightarrow> bytes result" where
  "serializeToBuffer fresh t v =
     bind_result (serialize size_write t 0 v) (\<lambda>size.
       bind_result (serialize mem_write t \<lparr>obuf = fresh size, odst = 0\<rparr> v) (\<lambda>x. Inr (obuf x)))"

text \<open>One pass into a growing buffer, whose size is then cut to what was written.\<close>

definition serializeToBufferOneShot :: "nat \<Rightarrow> (nat \<Rightarrow> nat) \<Rightarrow> (nat \<Rightarrow> bytes) \<Rightarrow> ty \<Rightarrow> val \<Rightarrow> bytes result" where
  "serializeToBufferOneShot hdr usable fresh t v =
     bind_result (serialize (twrite usable fresh) t \<lparr>ebuf = fresh (0x80 - hdr), esize = 0\<rparr> v)
       (\<lambda>x. Inr (take (esize x) (ebuf x)))"

text \<open>Into memory of the caller: refused when it is too small.\<close>

definition serializeToStringView :: "bytes \<Rightarrow> ty \<Rightarrow> val \<Rightarrow> bytes result" where
  "serializeToStringView buffer t v =
     bind_result (serialize size_write t 0 v) (\<lambda>size.
       if length buffer < size then Inl DoesNotFit
       else bind_result (serialize mem_write t \<lparr>obuf = buffer, odst = 0\<rparr> v) (\<lambda>x. Inr (obuf x)))"

definition deserializeBufferPart :: "ty \<Rightarrow> bytes \<Rightarrow> (val \<times> bytes) result" where
  "deserializeBufferPart t data =
     bind_result (deserialize t \<lparr>dbase = data, doffset = 0\<rparr>) (\<lambda>(v, d). Inr (v, drop (doffset d) (dbase d)))"

definition deserializeBuffer :: "ty \<Rightarrow> bytes \<Rightarrow> val result" where
  "deserializeBuffer t data =
     bind_result (deserialize t \<lparr>dbase = data, doffset = 0\<rparr>) (\<lambda>(v, d).
       if remaining d \<noteq> 0 then Inl (TrailingBytes (remaining d)) else Inr v)"

end
