(* ===== verification/Serialization_Write.thy ===== *)
theory Serialization_Write
  imports Serialization
begin

unbundle bit_operations_syntax

text \<open>
  Writing is correct for every archive: counting, copying and growing all produce the
  reference encoding, and never write outside the buffer.
\<close>

section \<open>The reference encoding\<close>

primrec encode :: "ty \<Rightarrow> val \<Rightarrow> bytes"
  and encode_args :: "tys \<Rightarrow> val list \<Rightarrow> bytes"
  and encode_alt :: "alts \<Rightarrow> nat \<Rightarrow> val \<Rightarrow> bytes" where
  "encode (Triv n) v = (case v of VTriv b \<Rightarrow> b | _ \<Rightarrow> [])"
| "encode Str v = (case v of VStr b \<Rightarrow> le_bytes 8 (length b) @ b | _ \<Rightarrow> [])"
| "encode (OptT t) v = (case v of VNone \<Rightarrow> [0] | VSome w \<Rightarrow> 1 # encode t w | _ \<Rightarrow> [])"
| "encode (VecT t) v =
     (case v of VVec vs \<Rightarrow> le_bytes 8 (length vs) @ concat (map (encode t) vs) | _ \<Rightarrow> [])"
| "encode (MapT t u) v =
     (case v of VMap kvs \<Rightarrow> le_bytes 8 (length kvs) @ concat (map (\<lambda>(k, w). encode t k @ encode u w) kvs)
      | _ \<Rightarrow> [])"
| "encode (Struct ts) v = (case v of VStruct vs \<Rightarrow> encode_args ts vs | _ \<Rightarrow> [])"
| "encode (VariantT as) v = (case v of VVariant i w \<Rightarrow> le_bytes 8 i @ encode_alt as i w | _ \<Rightarrow> [])"
| "encode_args TNil vs = []"
| "encode_args (TCons t ts) vs = (case vs of [] \<Rightarrow> [] | v # vs' \<Rightarrow> encode t v @ encode_args ts vs')"
| "encode_alt ANil i v = []"
| "encode_alt (ACons t as) i v = (case i of 0 \<Rightarrow> encode t v | Suc j \<Rightarrow> encode_alt as j v)"

lemma length_le_bytes [simp]: "length (le_bytes k n) = k"
  by (induction k arbitrary: n) simp_all

section \<open>The interface of an archive\<close>

text \<open>
  \<open>written s b\<close>: the bytes \<open>b\<close> were written so far. An archive appends what it is given, as
  long as the total fits.
\<close>

locale archive =
  fixes wr :: "'s writer" and written :: "'s \<Rightarrow> bytes \<Rightarrow> bool" and fits :: "nat \<Rightarrow> bool"
  assumes fits_mono: "fits n \<Longrightarrow> m \<le> n \<Longrightarrow> fits m"
    and write_law: "written s b \<Longrightarrow> fits (length b + length c) \<Longrightarrow> \<exists>s'. wr s c = Inr s' \<and> written s' (b @ c)"
begin

text \<open>\<open>emits f b\<close>: the step \<open>f\<close> writes \<open>b\<close> whenever it fits.\<close>

definition emits :: "('s \<Rightarrow> 's result) \<Rightarrow> bytes \<Rightarrow> bool" where
  "emits f c \<longleftrightarrow> (\<forall>s b. written s b \<longrightarrow> fits (length b + length c) \<longrightarrow> (\<exists>s'. f s = Inr s' \<and> written s' (b @ c)))"

lemma emits_write: "emits (\<lambda>s. wr s b) b"
  using write_law by (auto simp: emits_def)

lemma emits_none: "emits Inr []"
  by (auto simp: emits_def)

lemma emits_seq:
  assumes "emits f b" "emits g c"
  shows "emits (\<lambda>s. bind_result (f s) g) (b @ c)"
  unfolding emits_def
proof (intro allI impI)
  fix s a assume w: "written s a" and fit: "fits (length a + length (b @ c))"
  then have "fits (length a + length b)" by (auto intro: fits_mono)
  with assms(1) w obtain s1 where s1: "f s = Inr s1" "written s1 (a @ b)" unfolding emits_def by blast
  moreover have "fits (length (a @ b) + length c)" using fit by (simp add: add.assoc)
  ultimately show "\<exists>s'. bind_result (f s) g = Inr s' \<and> written s' (a @ b @ c)"
    using assms(2) unfolding emits_def by force
qed

lemma emits_fold:
  assumes "\<And>x. x \<in> set xs \<Longrightarrow> emits (\<lambda>s. f s x) (enc x)"
  shows "emits (\<lambda>s. fold_result f s xs) (concat (map enc xs))"
  using assms
proof (induction xs)
  case Nil
  then show ?case by (simp add: emits_none)
next
  case (Cons x xs)
  then have "emits (\<lambda>s. bind_result (f s x) (\<lambda>s. fold_result f s xs)) (enc x @ concat (map enc xs))"
    by (intro emits_seq) auto
  then show ?case by simp
qed

lemma emits_serialize:
  "has_type t v \<Longrightarrow> emits (\<lambda>s. serialize wr t s v) (encode t v)"
  "has_types ts vs \<Longrightarrow> emits (\<lambda>s. serialize_args wr ts s vs) (encode_args ts vs)"
  "has_variant as i v \<Longrightarrow> emits (\<lambda>s. serialize_alt wr as s i v) (encode_alt as i v)"
proof (induction t and ts and as arbitrary: v and vs and i v)
  case (Triv n)
  then show ?case by (auto simp: emits_write split: val.splits)
next
  case Str
  then show ?case by (auto simp: write_size_def intro!: emits_seq emits_write split: val.splits)
next
  case (OptT t)
  have "emits (\<lambda>s. bind_result (wr s [1]) (\<lambda>s. serialize wr t s w)) ([1] @ encode t w)" if "has_type t w" for w
    by (intro emits_seq emits_write OptT.IH that)
  then show ?case using OptT.prems by (auto simp: emits_write split: val.splits)
next
  case (VecT t)
  then show ?case
    by (auto simp: write_size_def list_all_iff intro!: emits_seq emits_write emits_fold split: val.splits)
next
  case (MapT t u)
  then show ?case
    by (auto simp: write_size_def list_all_iff intro!: emits_seq emits_write emits_fold split: val.splits)
next
  case (Struct ts)
  then show ?case by (auto split: val.splits)
next
  case (VariantT as)
  then show ?case by (auto simp: write_size_def intro!: emits_seq emits_write split: val.splits)
next
  case TNil
  then show ?case by (simp add: emits_none)
next
  case (TCons t ts)
  then show ?case by (auto intro!: emits_seq split: list.splits)
next
  case ANil
  then show ?case by simp
next
  case (ACons t as)
  then show ?case by (auto split: nat.splits)
qed

lemma serialize_written:
  assumes "has_type t v" "written s b" "fits (length b + length (encode t v))"
  shows "\<exists>s'. serialize wr t s v = Inr s' \<and> written s' (b @ encode t v)"
  using emits_serialize(1) [OF assms(1)] assms(2,3) unfolding emits_def by blast

end

section \<open>The three archives\<close>

interpretation sizing: archive size_write "\<lambda>dst b. dst = length b" "\<lambda>_. True"
  by unfold_locales (auto simp: size_write_def)

lemma take_overwrite_at:
  assumes "i + length b \<le> length xs"
  shows "take (i + length b) (overwrite_at i b xs) = take i xs @ b" "length (overwrite_at i b xs) = length xs"
  using assms by (simp_all add: overwrite_at_def)

text \<open>The bytes behind \<open>dst\<close> are those the buffer had.\<close>

definition out_written :: "bytes \<Rightarrow> out \<Rightarrow> bytes \<Rightarrow> bool" where
  "out_written buf x b \<longleftrightarrow> length b \<le> length buf \<and> odst x = length b \<and> obuf x = b @ drop (length b) buf"

interpretation writing: archive mem_write "out_written buf" "\<lambda>m. m \<le> length buf" for buf
  by unfold_locales (auto simp: mem_write_def out_written_def overwrite_at_def add.commute)

text \<open>
  A buffer may be given more room than it asked for, never less; the bytes of fresh memory
  are arbitrary.
\<close>

definition exp_written :: "expandable \<Rightarrow> bytes \<Rightarrow> bool" where
  "exp_written x b \<longleftrightarrow> esize x = length b \<and> length b \<le> length (ebuf x) \<and> take (esize x) (ebuf x) = b"

lemma expand_buffer_written:
  assumes "\<And>n. n \<le> usable n" "\<And>n. length (fresh n) = n" "exp_written x b"
  shows "exp_written (expand_buffer usable fresh x k) b"
    "length b + k \<le> length (ebuf (expand_buffer usable fresh x k))"
proof -
  let ?n = "usable (max (length (ebuf x) * 2) (length (ebuf x) + k))"
  have n: "length (ebuf x) + k \<le> ?n" using assms(1) [of "max (length (ebuf x) * 2) (length (ebuf x) + k)"] by simp
  have b: "length b \<le> length (ebuf x)" using assms(3) by (simp add: exp_written_def)
  have "length (ebuf (expand_buffer usable fresh x k)) = ?n"
    using n b assms(2,3) by (simp add: expand_buffer_def Let_def take_overwrite_at exp_written_def)
  with n b show "length b + k \<le> length (ebuf (expand_buffer usable fresh x k))" by simp
  then show "exp_written (expand_buffer usable fresh x k) b"
    using assms(2,3) n b by (auto simp: exp_written_def expand_buffer_def Let_def overwrite_at_def)
qed

lemma twrite_written:
  assumes "\<And>n. n \<le> usable n" "\<And>n. length (fresh n) = n" "exp_written x b"
  shows "\<exists>x'. twrite usable fresh x c = Inr x' \<and> exp_written x' (b @ c)"
proof -
  define y where "y = (if length c \<ge> length (ebuf x) - esize x then expand_buffer usable fresh x (length c) else x)"
  have y: "exp_written y b" using expand_buffer_written(1) [OF assms] assms(3) by (simp add: y_def)
  moreover have "length b + length c \<le> length (ebuf y)"
    using expand_buffer_written(2) [OF assms, of "length c"] assms(3) by (auto simp: y_def exp_written_def)
  ultimately have y: "exp_written y b" "length b + length c \<le> length (ebuf y)" by simp_all
  then have "take (esize y + length c) (overwrite_at (esize y) c (ebuf y)) = b @ c"
    "length (overwrite_at (esize y) c (ebuf y)) = length (ebuf y)"
    by (auto simp: exp_written_def take_overwrite_at)
  then show ?thesis
    using y by (auto simp: twrite_def Let_def exp_written_def simp flip: y_def)
qed

text \<open>The size pass and the write pass agree, and the buffer is filled exactly.\<close>

lemma size_pass:
  assumes "has_type t v"
  shows "serialize size_write t 0 v = Inr (length (encode t v))"
  using sizing.serialize_written [OF assms, of 0 "[]"] by simp

lemma write_pass:
  assumes "has_type t v" "length (encode t v) \<le> length buf"
  shows "\<exists>x. serialize mem_write t \<lparr>obuf = buf, odst = 0\<rparr> v = Inr x \<and> out_written buf x (encode t v)"
  using writing.serialize_written [OF assms(1), of buf "\<lparr>obuf = buf, odst = 0\<rparr>" "[]"] assms(2)
  by (simp add: out_written_def)

lemma serializeToBuffer_encode:
  assumes "has_type t v" "\<And>n. length (fresh n) = n"
  shows "serializeToBuffer fresh t v = Inr (encode t v)"
  using write_pass [OF assms(1), of "fresh (length (encode t v))"] assms(2)
  by (auto simp: serializeToBuffer_def size_pass [OF assms(1)] out_written_def)

lemma serializeToStringView_encode:
  assumes "has_type t v"
  shows "serializeToStringView buf t v =
    (if length buf < length (encode t v) then Inl DoesNotFit
     else Inr (encode t v @ drop (length (encode t v)) buf))"
  using write_pass [OF assms, of buf]
  by (auto simp: serializeToStringView_def size_pass [OF assms] out_written_def)

lemma serializeToBufferOneShot_encode:
  assumes "has_type t v" "\<And>n. n \<le> usable n" "\<And>n. length (fresh n) = n"
  shows "serializeToBufferOneShot hdr usable fresh t v = Inr (encode t v)"
proof -
  have "archive (twrite usable fresh) exp_written (\<lambda>_. True)"
    by unfold_locales (use twrite_written [OF assms(2,3)] in auto)
  from archive.serialize_written [OF this assms(1), of "\<lparr>ebuf = fresh (0x80 - hdr), esize = 0\<rparr>" "[]"]
  show ?thesis by (auto simp: serializeToBufferOneShot_def exp_written_def)
qed

end
