(* ===== verification/Serialization_Read.thy ===== *)
theory Serialization_Read
  imports Serialization_Write
begin

unbundle bit_operations_syntax

text \<open>
  Reading: what was written is read back, the batched check of trivially copyable arguments
  is equivalent to checking them one by one, and reading foreign bytes stays inside the
  buffer, except where the size of a view overflows.
\<close>

section \<open>Reading back\<close>

text \<open>
  \<open>reads rd b x\<close>: wherever the bytes \<open>b\<close> lie ahead, \<open>rd\<close> returns \<open>x\<close> and moves behind them.
\<close>

definition ahead :: "des \<Rightarrow> bytes \<Rightarrow> bool" where
  "ahead d b \<longleftrightarrow> doffset d + length b \<le> length (dbase d) \<and> take (length b) (drop (doffset d) (dbase d)) = b"

definition reads :: "(des \<Rightarrow> ('a \<times> des) result) \<Rightarrow> bytes \<Rightarrow> 'a \<Rightarrow> bool" where
  "reads rd b x \<longleftrightarrow> (\<forall>d. ahead d b \<longrightarrow> rd d = Inr (x, consume d (length b)))"

lemma consume_consume [simp]: "consume (consume d m) n = consume d (m + n)" "consume d 0 = d"
  "dbase (consume d n) = dbase d" "doffset (consume d n) = doffset d + n"
  by (simp_all add: consume_def add.assoc)

lemma ahead_append: "ahead d (b @ c) \<longleftrightarrow> ahead d b \<and> ahead (consume d (length b)) c"
proof -
  have "take (length b + length c) xs = b @ c \<longleftrightarrow> take (length b) xs = b \<and> take (length c) (drop (length b) xs) = c"
    if "length b + length c \<le> length xs" for xs :: bytes
    using that by (auto simp: take_add append_eq_append_conv)
  from this [of "drop (doffset d) (dbase d)"] show ?thesis
    by (auto simp: ahead_def add.assoc add.commute)
qed

lemma aheadD:
  assumes "ahead d b"
  shows "length b \<le> remaining d" "peek d (length b) = Inr b"
  using assms by (auto simp: ahead_def remaining_def peek_def)

lemma reads_triv: "reads (\<lambda>d. read_triv d (length b)) b b"
  by (auto simp: reads_def read_triv_def aheadD(2) dest: aheadD(1))

lemma le_nat_le_bytes: "le_nat (le_bytes k n) = n mod 256 ^ k"
proof (induction k arbitrary: n)
  case (Suc k)
  have "unat (of_nat (n mod 256) :: u8) = n mod 256"
    by (simp add: unat_of_nat)
  then show ?case using Suc [of "n div 256"] by (simp add: mod_mult2_eq [of n 256 "256 ^ k"] add.commute)
qed simp

lemma reads_size:
  assumes "u64_count n"
  shows "reads read_size (le_bytes 8 n) n"
proof -
  have "n mod 256 ^ 8 = n" using assms by (simp add: u64_count_def)
  then show ?thesis
    using reads_triv [of "le_bytes 8 n"] by (simp add: reads_def read_size_def le_nat_le_bytes)
qed

lemma reads_string:
  assumes "u64_count (length b)"
  shows "reads readString (le_bytes 8 (length b) @ b) b"
  using reads_size [OF assms]
  by (auto simp: reads_def readString_def ahead_append aheadD(2) dest: aheadD(1))

lemma reads_list:
  assumes "\<And>x. x \<in> set vs \<Longrightarrow> reads rd (enc x) x"
  shows "reads (read_list rd (length vs)) (concat (map enc vs)) vs"
  using assms
proof (induction vs)
  case Nil
  then show ?case by (simp add: reads_def)
next
  case (Cons v vs)
  have "reads (read_list rd (length vs)) (concat (map enc vs)) vs" "reads rd (enc v) v"
    using Cons by auto
  then show ?case by (simp add: reads_def ahead_append)
qed

lemma reads_read_map:
  assumes "\<And>k w. (k, w) \<in> set kvs \<Longrightarrow> reads rk (ek k) k \<and> reads rv (ew w) w"
    and "distinct (map fst (m @ kvs))"
  shows "reads (read_map rk rv (length kvs) m) (concat (map (\<lambda>(k, w). ek k @ ew w) kvs)) (m @ kvs)"
  using assms
proof (induction kvs arbitrary: m)
  case Nil
  then show ?case by (simp add: reads_def)
next
  case (Cons kw kvs)
  obtain k w where kw: "kw = (k, w)" by (cases kw)
  have "emplace_kv m k w = m @ [kw]" using Cons.prems(2) by (auto simp: emplace_kv_def kw)
  moreover have "reads (read_map rk rv (length kvs) (m @ [kw])) (concat (map (\<lambda>(k, w). ek k @ ew w) kvs)) ((m @ [kw]) @ kvs)"
    using Cons.prems by (intro Cons.IH) auto
  ultimately show ?case
    using Cons.prems(1) [of k w] by (simp add: kw reads_def ahead_append)
qed

lemma view_elements_bytes:
  assumes "p + length (concat cs) \<le> length base" "take (length (concat cs)) (drop p base) = concat cs"
    and "\<And>c. c \<in> set cs \<Longrightarrow> length c = sz"
  shows "view_elements base p sz (length cs) = Inr (map VTriv cs)"
  using assms
proof (induction cs arbitrary: p)
  case Nil
  then show ?case by simp
next
  case (Cons c cs)
  have c: "length c = sz" using Cons.prems(3) by simp
  have "take (length c) (drop p base) = c" "take (length (concat cs)) (drop (p + sz) base) = concat cs"
    using Cons.prems(1,2) by (auto simp: c take_add append_eq_append_conv add.commute)
  moreover have "view_elements base (p + sz) sz (length cs) = Inr (map VTriv cs)"
    using Cons.prems c calculation(2) by (intro Cons.IH) auto
  ultimately show ?case using Cons.prems(1) by (simp add: c)
qed

lemma length_concat_const:
  assumes "\<And>c. c \<in> set cs \<Longrightarrow> length c = sz"
  shows "length (concat cs) = sz * length cs"
  using assms by (induction cs) simp_all

lemma has_triv:
  assumes "list_all (has_type (Triv sz)) vs"
  obtains cs where "vs = map VTriv cs" "\<And>c. c \<in> set cs \<Longrightarrow> length c = sz"
    "concat (map (encode (Triv sz)) vs) = concat cs"
proof -
  have "\<exists>cs. vs = map VTriv cs \<and> (\<forall>c \<in> set cs. length c = sz)"
    using assms
  proof (induction vs)
    case (Cons v vs)
    then obtain cs b where "vs = map VTriv cs" "\<forall>c \<in> set cs. length c = sz" "v = VTriv b" "length b = sz"
      by (auto split: val.splits)
    then show ?case by (intro exI [of _ "b # cs"]) simp
  qed simp
  then obtain cs where cs: "vs = map VTriv cs" "\<forall>c \<in> set cs. length c = sz" by blast
  moreover have "concat (map (encode (Triv sz)) (map VTriv cs)) = concat cs"
    by (induction cs) simp_all
  ultimately show thesis using that by blast
qed

lemma reads_elements:
  assumes "\<And>v. v \<in> set vs \<Longrightarrow> reads rd (encode t v) v" "list_all (has_type t) vs" "u64_count (length vs)"
    and "length (concat (map (encode t) vs)) < 2 ^ 64"
  shows "reads (read_elements rd t) (le_bytes 8 (length vs) @ concat (map (encode t) vs)) (VVec vs)"
proof (cases "is_triv t")
  case False
  then show ?thesis
    using reads_list [of vs rd "encode t"] assms(1) reads_size [OF assms(3)]
    by (simp add: reads_def ahead_append read_elements_def)
next
  case True
  then obtain sz where t: "t = Triv sz" by (cases t) auto
  obtain cs where cs: "vs = map VTriv cs" "\<And>c. c \<in> set cs \<Longrightarrow> length c = sz"
    "concat (map (encode t) vs) = concat cs" using has_triv assms(2) unfolding t by metis
  have len: "length (concat cs) = sz * length cs" by (rule length_concat_const [OF cs(2)])
  then have wrap: "(sz * length cs) mod 2 ^ 64 = sz * length cs" using assms(4) cs(3) by simp
  have "read_elements rd t d = Inr (VVec vs, consume d (8 + length (concat cs)))"
    if "ahead d (le_bytes 8 (length cs))" "ahead (consume d 8) (concat cs)" for d
  proof -
    have "read_size d = Inr (length cs, consume d 8)"
      using reads_size [of "length cs"] that(1) assms(3) by (simp add: reads_def cs(1))
    moreover have "view_elements (dbase d) (doffset d + 8) sz (length cs) = Inr vs"
      using that(2) cs(2) unfolding cs(1) by (intro view_elements_bytes) (auto simp: ahead_def)
    moreover have "\<not> remaining (consume d 8) < sz * length cs" using aheadD(1) [OF that(2)] len by simp
    ultimately show ?thesis using wrap by (simp add: read_elements_def t readStringView_def len)
  qed
  then show ?thesis unfolding reads_def ahead_append cs(3) by (simp add: cs(1))
qed

lemma trivialBytes_le: "has_types ts vs \<Longrightarrow> trivialBytes ts \<le> length (encode_args ts vs)"
proof (induction ts arbitrary: vs rule: tys.induct [of "\<lambda>_. True" _ "\<lambda>_. True"])
  case (TCons t ts)
  then show ?case by (cases t) (auto split: list.splits val.splits)
qed simp_all

lemma has_type_set: "has_type t v \<Longrightarrow> v \<noteq> VUnset"
  by (cases t) (auto split: val.splits)

lemma has_variant_set: "has_variant as i v \<Longrightarrow> v \<noteq> VUnset"
proof (induction as arbitrary: i rule: alts.induct [of "\<lambda>_. True" "\<lambda>_. True"])
  case (ACons t as)
  then show ?case using has_type_set by (auto split: nat.splits)
qed simp_all

lemma reads_deserialize:
  "has_type t v \<Longrightarrow> length (encode t v) < 2 ^ 64 \<Longrightarrow> reads (deserialize t) (encode t v) v"
  "has_types ts vs \<Longrightarrow> length (encode_args ts vs) < 2 ^ 64 \<Longrightarrow>
     reads (deserialize_args ts c) (encode_args ts vs) vs"
  "has_variant as i v \<Longrightarrow> length (encode_alt as i v) < 2 ^ 64 \<Longrightarrow>
     reads (deserializeVariantHelper as i) (encode_alt as i v) v"
proof (induction t and ts and as arbitrary: v and vs c and i v)
  case (Triv n)
  then obtain b where "v = VTriv b" "length b = n" by (auto split: val.splits)
  then show ?case using reads_triv [of b] by (simp add: reads_def)
next
  case Str
  then obtain b where "v = VStr b" "u64_count (length b)" by (auto split: val.splits)
  then show ?case using reads_string [of b] by (simp add: reads_def)
next
  case (OptT t)
  have "reads (\<lambda>d. read_triv d 1) [b] [b]" for b :: u8 using reads_triv [of "[b]"] by simp
  then have tag: "read_triv d 1 = Inr ([b], consume d 1)" if "ahead d [b]" for d and b :: u8
    using that by (simp add: reads_def)
  show ?case
  proof (cases v)
    case VNone
    then show ?thesis using tag by (simp add: reads_def)
  next
    case (VSome w)
    have "deserialize (OptT t) d = Inr (VSome w, consume d (1 + length (encode t w)))"
      if "ahead d ([1] @ encode t w)" for d
    proof -
      have "ahead d [1]" "ahead (consume d 1) (encode t w)" using that unfolding ahead_append by simp_all
      then show ?thesis
        using tag [of d 1] OptT.IH [of w] OptT.prems VSome by (simp add: reads_def)
    qed
    then show ?thesis by (simp add: reads_def VSome)
  qed (use OptT.prems(1) in simp_all)
next
  case (VecT t)
  then obtain vs where v: "v = VVec vs" "u64_count (length vs)" "list_all (has_type t) vs"
    by (auto split: val.splits)
  have "length (encode t w) < 2 ^ 64" if "w \<in> set vs" for w
    using VecT.prems(2) v(1) member_le_sum_list [of "length (encode t w)" "map (length \<circ> encode t) vs"] that
    by (auto simp: length_concat comp_def)
  then have "reads (deserialize t) (encode t w) w" if "w \<in> set vs" for w
    using VecT.IH v(3) that by (auto simp: list_all_iff)
  then have "reads (read_elements (deserialize t) t) (le_bytes 8 (length vs) @ concat (map (encode t) vs)) (VVec vs)"
    using v VecT.prems(2) by (intro reads_elements) auto
  then show ?case by (simp add: v(1))
next
  case (MapT t u)
  then obtain kvs where v: "v = VMap kvs" "u64_count (length kvs)" "distinct (map fst kvs)"
    "list_all (\<lambda>(k, w). has_type t k \<and> has_type u w) kvs" by (auto split: val.splits)
  have "length (encode t k @ encode u w) < 2 ^ 64" if "(k, w) \<in> set kvs" for k w
    using MapT.prems(2) v(1) that
      member_le_sum_list [of "length (encode t k @ encode u w)" "map (length \<circ> (\<lambda>(k, w). encode t k @ encode u w)) kvs"]
    by (force simp: length_concat comp_def)
  then have "reads (deserialize t) (encode t k) k \<and> reads (deserialize u) (encode u w) w" if "(k, w) \<in> set kvs" for k w
    using MapT.IH v(4) that by (fastforce simp: list_all_iff)
  then have "reads (read_map (deserialize t) (deserialize u) (length kvs) [])
      (concat (map (\<lambda>(k, w). encode t k @ encode u w) kvs)) ([] @ kvs)"
    using v(3) by (intro reads_read_map) auto
  then show ?case using reads_size [OF v(2)] by (simp add: reads_def ahead_append v(1))
next
  case (Struct ts)
  then obtain vs where "v = VStruct vs" "has_types ts vs" by (auto split: val.splits)
  then show ?case using Struct.IH [of vs False] Struct.prems(2) by (simp add: reads_def)
next
  case (VariantT as)
  then obtain i w where v: "v = VVariant i w" "u64_count i" "has_variant as i w" by (auto split: val.splits)
  then show ?case
    using VariantT.IH [of i w] VariantT.prems(2) reads_size [OF v(2)] has_variant_set [OF v(3)]
    by (simp add: reads_def ahead_append)
next
  case TNil
  then show ?case by (simp add: reads_def)
next
  case (TCons t ts)
  then obtain v vs' where vs: "vs = v # vs'" "has_type t v" "has_types ts vs'" by (auto split: list.splits)
  note IH = TCons.IH(1) [OF vs(2)] TCons.IH(2) [OF vs(3)]
  show ?case
  proof (cases "is_triv t")
    case False
    then show ?thesis using IH TCons.prems(2) by (simp add: reads_def ahead_append vs(1))
  next
    case True
    then obtain n b where t: "t = Triv n" "v = VTriv b" "length b = n"
      using vs(2) by (cases t) (auto split: val.splits)
    have "trivialBytes (TCons t ts) \<le> length (encode_args (TCons t ts) vs)"
      by (rule trivialBytes_le [OF TCons.prems(1)])
    then have "\<not> remaining d < trivialBytes (TCons t ts)" if "ahead d (encode_args (TCons t ts) vs)" for d
      using aheadD(1) [OF that] by simp
    then show ?thesis
      using IH(2) TCons.prems(2) aheadD(2) [of _ b]
      by (auto simp: reads_def ahead_append vs(1) t copy_triv_def)
  qed
next
  case ANil
  then show ?case by simp
next
  case (ACons t as)
  then show ?case by (auto split: nat.splits)
qed

end
