(* ===== verification/Serialization_Safety.thy ===== *)
theory Serialization_Safety
  imports Serialization_Read
begin

unbundle bit_operations_syntax

text \<open>
  Reading bytes of any origin. The checked deserializer fails only with its own exception and
  never leaves the buffer, for types without vectors of wider trivially copyable elements;
  for those the size computation of a view can wrap.
\<close>

section \<open>Staying inside the buffer\<close>

text \<open>
  \<open>advances bad d r\<close>: the step from \<open>d\<close> moved forward inside the buffer, or ran into its end, or
  (only where \<open>bad\<close> allows it) outside.
\<close>

definition valid_des :: "des \<Rightarrow> bool" where
  "valid_des d \<longleftrightarrow> doffset d \<le> length (dbase d)"

definition advances :: "bool \<Rightarrow> des \<Rightarrow> ('a \<times> des) result \<Rightarrow> bool" where
  "advances bad d r \<longleftrightarrow>
     (case r of
        Inl e \<Rightarrow> e = EndOfData \<or> bad \<and> e = OutOfBounds
      | Inr (x, d') \<Rightarrow> dbase d' = dbase d \<and> doffset d \<le> doffset d' \<and> valid_des d')"

lemma advances_bind:
  assumes "advances bad d r" "\<And>x d'. r = Inr (x, d') \<Longrightarrow> valid_des d' \<Longrightarrow> advances bad d' (f x d')"
  shows "advances bad d (bind_result r (\<lambda>(x, d'). f x d'))"
proof (cases r)
  case (Inl e)
  then show ?thesis using assms(1) by (simp add: advances_def)
next
  case (Inr p)
  then obtain x d' where p: "r = Inr (x, d')" by (cases p) auto
  then have "dbase d' = dbase d" "doffset d \<le> doffset d'" "valid_des d'" using assms(1) by (auto simp: advances_def)
  with assms(2) [OF p] p show ?thesis by (auto simp: advances_def split: sum.splits)
qed

lemma advances_return [simp]: "valid_des d \<Longrightarrow> advances bad d (Inr (x, d))"
  by (simp add: advances_def)

lemma advances_mono: "advances bad d r \<Longrightarrow> (bad \<Longrightarrow> bad') \<Longrightarrow> advances bad' d r"
  by (auto simp: advances_def split: sum.splits)

lemma advances_end [simp]: "advances bad d (Inl EndOfData)"
  by (simp add: advances_def)

lemma advances_read_triv: "valid_des d \<Longrightarrow> advances bad d (read_triv d n)"
  by (auto simp: advances_def read_triv_def peek_def valid_des_def remaining_def)

lemma advances_read_size: "valid_des d \<Longrightarrow> advances bad d (read_size d)"
  unfolding read_size_def by (intro advances_bind advances_read_triv) auto

lemma advances_readString:
  assumes "valid_des d"
  shows "advances bad d (readString d)"
  unfolding readString_def
  by (intro advances_bind advances_read_size assms)
    (auto simp: advances_def peek_def valid_des_def remaining_def)

lemma le_nat_less: "le_nat b < 256 ^ length b"
proof (induction b)
  case (Cons x xs)
  have "unat x < 256" using unsigned_less [of x] by simp
  moreover have "Suc (le_nat xs) \<le> 256 ^ length xs" using Cons by simp
  then have "256 * Suc (le_nat xs) \<le> 256 * 256 ^ length xs" by (rule mult_le_mono2)
  ultimately show ?case by simp
qed simp

lemma read_size_less:
  assumes "read_size d = Inr (n, d')"
  shows "n < 2 ^ 64"
proof -
  obtain b where b: "n = le_nat b" "length b = 8"
    using assms by (auto simp: read_size_def read_triv_def peek_def bind_result_Inr split: if_splits)
  then show ?thesis using le_nat_less [of b] by simp
qed

lemma view_elements_inside:
  assumes "p + sz * n \<le> length base"
  shows "\<exists>vs. view_elements base p sz n = Inr vs"
  using assms by (induction n arbitrary: p) (fastforce simp: bind_result_Inr)+

lemma view_elements_error: "view_elements base p sz n = Inl e \<Longrightarrow> e = OutOfBounds"
  by (induction n arbitrary: p) (auto simp: bind_result_def split: if_splits sum.splits)

text \<open>The types whose views cannot overflow: single bytes, or no views at all.\<close>

primrec narrow :: "ty \<Rightarrow> bool" and narrows :: "tys \<Rightarrow> bool" and narrow_alts :: "alts \<Rightarrow> bool" where
  "narrow (Triv n) = True"
| "narrow Str = True"
| "narrow (OptT t) = narrow t"
| "narrow (VecT t) = (if is_triv t then triv_size t \<le> 1 else narrow t)"
| "narrow (MapT t u) = (narrow t \<and> narrow u)"
| "narrow (Struct ts) = narrows ts"
| "narrow (VariantT as) = narrow_alts as"
| "narrows TNil = True"
| "narrows (TCons t ts) = (narrow t \<and> narrows ts)"
| "narrow_alts ANil = True"
| "narrow_alts (ACons t as) = (narrow t \<and> narrow_alts as)"

lemma advances_readStringView:
  assumes "valid_des d"
  shows "advances bad d (readStringView d sz)"
  unfolding readStringView_def
  by (intro advances_bind advances_read_size assms)
    (auto simp: advances_def valid_des_def remaining_def)

lemma advances_elements:
  assumes "valid_des d" "\<And>d. valid_des d \<Longrightarrow> advances bad d (rd d)"
    and "is_triv t \<Longrightarrow> 1 < triv_size t \<Longrightarrow> bad"
  shows "advances bad d (read_elements rd t d)"
proof (cases "is_triv t")
  case False
  have "advances bad d' (read_list rd n d')" if "valid_des d'" for n d'
    using that
  proof (induction n arbitrary: d')
    case (Suc n)
    then show ?case by (auto intro!: advances_bind assms(2))
  qed simp
  then show ?thesis
    using False by (auto simp: read_elements_def intro!: advances_bind advances_read_size assms(1))
next
  case True
  have "advances bad d' (bind_result (view_elements (dbase d) p (triv_size t) len) (\<lambda>vs. Inr (VVec vs, d')))"
    if "readStringView d (triv_size t) = Inr ((p, len), d')" "valid_des d'" for p len d'
  proof (cases "view_elements (dbase d) p (triv_size t) len")
    case (Inr vs)
    then show ?thesis using that(2) by simp
  next
    case (Inl e)
    have "bad"
    proof (rule ccontr)
      assume "\<not> bad"
      then have sz: "triv_size t \<le> 1" using assms(3) True by (meson not_le)
      from that(1) obtain d1 where d1: "read_size d = Inr (len, d1)" "p = doffset d1"
        "\<not> remaining d1 < (triv_size t * len) mod 2 ^ 64"
        by (auto simp: readStringView_def bind_result_Inr split: if_splits)
      have "triv_size t * len < 2 ^ 64" using sz read_size_less [OF d1(1)] by (cases "triv_size t") auto
      moreover have "dbase d1 = dbase d" "valid_des d1"
        using advances_read_size [OF assms(1), of bad] d1(1) by (auto simp: advances_def)
      ultimately have "p + triv_size t * len \<le> length (dbase d)"
        using d1 by (auto simp: valid_des_def remaining_def)
      then show False using view_elements_inside Inl by force
    qed
    then show ?thesis using view_elements_error [OF Inl] by (simp add: Inl advances_def)
  qed
  then show ?thesis
    using True by (auto simp: read_elements_def intro!: advances_bind advances_readStringView assms(1))
qed

lemma advances_map:
  assumes "\<And>d. valid_des d \<Longrightarrow> advances bad d (rk d)" "\<And>d. valid_des d \<Longrightarrow> advances bad d (rv d)" "valid_des d"
  shows "advances bad d (read_map rk rv n m d)"
  using assms(3)
proof (induction n arbitrary: m d)
  case (Suc n)
  then show ?case by (auto intro!: advances_bind assms(1,2))
qed simp

lemma advances_copy_triv: "valid_des d \<Longrightarrow> n \<le> remaining d \<Longrightarrow> advances bad d (copy_triv d n)"
  by (auto simp: advances_def copy_triv_def peek_def valid_des_def remaining_def)

lemma copy_triv_read: "n \<le> remaining d \<Longrightarrow> copy_triv d n = read_triv d n"
  by (simp add: copy_triv_def read_triv_def)

lemma remaining_copy: "copy_triv d n = Inr (b, d') \<Longrightarrow> remaining d' = remaining d - n"
  by (auto simp: copy_triv_def bind_result_Inr remaining_def)

lemma advances_deserialize:
  "valid_des d \<Longrightarrow> (\<not> narrow t \<Longrightarrow> bad) \<Longrightarrow> advances bad d (deserialize t d)"
  "valid_des d \<Longrightarrow> (\<not> narrows ts \<Longrightarrow> bad) \<Longrightarrow> (c \<Longrightarrow> trivialBytes ts \<le> remaining d) \<Longrightarrow>
     advances bad d (deserialize_args ts c d)"
  "valid_des d \<Longrightarrow> (\<not> narrow_alts as \<Longrightarrow> bad) \<Longrightarrow> advances bad d (deserializeVariantHelper as i d)"
proof (induction t and ts and as arbitrary: d and d c and d i)
  case (Triv n)
  then show ?case by (auto intro!: advances_bind advances_read_triv)
next
  case Str
  then show ?case by (auto intro!: advances_bind advances_readString)
next
  case (OptT t)
  then show ?case by (auto intro!: advances_bind advances_read_triv)
next
  case (VecT t)
  have "advances bad d (read_elements (deserialize t) t d)"
  proof (rule advances_elements [OF VecT.prems(1)])
    show "advances bad d' (deserialize t d')" if "valid_des d'" for d'
      using VecT.IH [OF that] VecT.prems(2) that by (cases "is_triv t") (auto elim: is_triv.elims)
    show bad if "is_triv t" "1 < triv_size t" using VecT.prems(2) that by simp
  qed
  then show ?case by simp
next
  case (MapT t u)
  then show ?case by (auto intro!: advances_bind advances_read_size advances_map)
next
  case (Struct ts)
  then show ?case by (auto intro!: advances_bind)
next
  case (VariantT as)
  then show ?case by (auto intro!: advances_bind advances_read_size)
next
  case TNil
  then show ?case by simp
next
  case (TCons t ts)
  show ?case
  proof (cases "is_triv t")
    case False
    then show ?thesis using TCons by (auto intro!: advances_bind)
  next
    case True
    then obtain n where t: "t = Triv n" by (cases t) auto
    show ?thesis
    proof (cases "\<not> c \<and> remaining d < trivialBytes (TCons t ts)")
      case True
      then show ?thesis by (simp add: t)
    next
      case False
      then have room: "n + trivialBytes ts \<le> remaining d" using TCons.prems(3) by (auto simp: t)
      have "advances bad d (bind_result (copy_triv d n) (\<lambda>(b, d).
          bind_result (deserialize_args ts True d) (\<lambda>(vs, d). Inr (VTriv b # vs, d))))"
      proof (intro advances_bind advances_copy_triv)
        fix b d' assume b: "copy_triv d n = Inr (b, d')" "valid_des d'"
        show "advances bad d' (deserialize_args ts True d')"
          using b remaining_copy [OF b(1)] room TCons.prems(2) by (intro TCons.IH(2)) auto
      qed (use room TCons.prems(1) in auto)
      then show ?thesis using False by (auto simp: t)
    qed
  qed
next
  case ANil
  then show ?case by simp
next
  case (ACons t as)
  then show ?case by (auto split: nat.split)
qed

section \<open>One check for all\<close>

text \<open>The reference: every argument is read, and checked, by itself.\<close>

primrec deserialize_each :: "tys \<Rightarrow> des \<Rightarrow> (val list \<times> des) result" where
  "deserialize_each TNil d = Inr ([], d)"
| "deserialize_each (TCons t ts) d =
     bind_result (deserialize t d) (\<lambda>(v, d). bind_result (deserialize_each ts d) (\<lambda>(vs, d). Inr (v # vs, d)))"

lemma deserialize_each_end:
  "valid_des d \<Longrightarrow> remaining d < trivialBytes ts \<Longrightarrow> deserialize_each ts d = Inl EndOfData"
proof (induction ts arbitrary: d rule: tys.induct [of "\<lambda>_. True" _ "\<lambda>_. True"])
  case (TCons t ts)
  then obtain n where t: "t = Triv n" by (cases t) auto
  show ?case
  proof (cases "remaining d < n")
    case True
    then show ?thesis by (simp add: t read_triv_def)
  next
    case False
    then have "doffset d + n \<le> length (dbase d)"
      using TCons.prems(1) by (simp add: valid_des_def remaining_def)
    then have "read_triv d n = Inr (take n (drop (doffset d) (dbase d)), consume d n)"
      using False by (simp add: read_triv_def peek_def)
    moreover have "deserialize_each ts (consume d n) = Inl EndOfData"
      using False TCons.prems by (intro TCons.IH) (auto simp: t valid_des_def remaining_def)
    ultimately show ?thesis by (simp add: t)
  qed
qed simp_all

lemma deserialize_args_each:
  "valid_des d \<Longrightarrow> (c \<Longrightarrow> trivialBytes ts \<le> remaining d) \<Longrightarrow> deserialize_args ts c d = deserialize_each ts d"
proof (induction ts arbitrary: d c rule: tys.induct [of "\<lambda>_. True" _ "\<lambda>_. True"])
  case (TCons t ts)
  have next_args: "deserialize_args ts c' d' = deserialize_each ts d'"
    if "deserialize t d = Inr (v, d')" "c' \<Longrightarrow> trivialBytes ts \<le> remaining d'" for v d' c'
  proof (rule TCons.IH)
    show "valid_des d'" using advances_deserialize(1) [OF TCons.prems(1), of t True] that(1) by (simp add: advances_def)
  qed (use that(2) in auto)
  show ?case
  proof (cases "is_triv t")
    case False
    have "deserialize_args ts False d' = deserialize_each ts d'" if "deserialize t d = Inr (v, d')" for v d'
      using next_args [OF that] by simp
    then show ?thesis
      using False by (cases "deserialize t d") auto
  next
    case True
    then obtain n where t: "t = Triv n" by (cases t) auto
    show ?thesis
    proof (cases "remaining d < trivialBytes (TCons t ts)")
      case True
      then have "\<not> c" using TCons.prems(2) by auto
      with True deserialize_each_end [OF TCons.prems(1) True] show ?thesis by (simp add: t)
    next
      case False
      then have c: "copy_triv d n = read_triv d n" by (intro copy_triv_read) (simp add: t)
      have "deserialize_args ts True d' = deserialize_each ts d'" if "read_triv d n = Inr (b, d')" for b d'
        using next_args [of "VTriv b" d' True] that remaining_copy [of d n b d'] c False by (simp add: t)
      then show ?thesis
        using False by (cases "read_triv d n") (auto simp: t c)
    qed
  qed
qed simp_all

section \<open>Properties\<close>

lemma deserializeBuffer_encode:
  assumes "has_type t v" "length (encode t v) < 2 ^ 64"
  shows "deserializeBuffer t (encode t v) = Inr v"
  using reads_deserialize(1) [OF assms]
  by (simp add: reads_def ahead_def deserializeBuffer_def remaining_def)



text \<open>
  C25: The two passes of \<open>serializeToBuffer\<close>, the single pass of \<open>serializeToBufferOneShot\<close> into a
  growing buffer and \<open>serializeToStringView\<close> into a buffer that is large enough produce the
  same bytes, provided an allocation has at least the size asked for; a target that is too
  small is refused before anything is written.
\<close>

theorem serializers_agree:
  assumes "has_type t v" "\<And>n. length (fresh n) = n" "\<And>n. n \<le> usable n"
  shows "serializeToBufferOneShot hdr usable fresh t v = serializeToBuffer fresh t v \<and>
    (case serializeToBuffer fresh t v of
       Inl e \<Rightarrow> False
     | Inr b \<Rightarrow> serializeToStringView buf t v =
                (if length buf < length b then Inl DoesNotFit else Inr (b @ drop (length b) buf)))"
  using serializeToBuffer_encode [OF assms(1,2)] serializeToBufferOneShot_encode [OF assms(1,3,2)]
    serializeToStringView_encode [OF assms(1)] by simp

theorem serializers_agree_witness:
  "serializeToBufferOneShot 16 (\<lambda>n. n + 5) (\<lambda>n. replicate n 7) Str (VStr (replicate 300 1))
   = serializeToBuffer (\<lambda>n. replicate n 7) Str (VStr (replicate 300 1))"
  using serializers_agree [of Str "VStr (replicate 300 1)" "\<lambda>n. replicate n 7" "\<lambda>n. n + 5" 16 "[]"]
  by (simp add: u64_count_def)






end
