(* ===== verification/Deque.thy ===== *)
theory Deque
  imports Prelude
begin

text \<open>
  The interface of a sequence that is filled at the back and emptied at either end, as the
  queues of the program use it, and what follows from it. \<open>rep s xs\<close> says that the state \<open>s\<close>
  holds the elements \<open>xs\<close>; \<open>may_push xs x\<close> is the provider's condition on adding \<open>x\<close>.
\<close>

locale deque =
  fixes rep :: "'s \<Rightarrow> 'a list \<Rightarrow> bool" and may_push :: "'a list \<Rightarrow> 'a \<Rightarrow> bool"
    and push_back :: "'s \<Rightarrow> 'a \<Rightarrow> 's" and pop_front :: "'s \<Rightarrow> 's" and pop_back :: "'s \<Rightarrow> 's"
    and first_of :: "'s \<Rightarrow> 'a" and last_of :: "'s \<Rightarrow> 'a" and empty :: "'s \<Rightarrow> bool"
  assumes push_back_law: "rep s xs \<Longrightarrow> may_push xs x \<Longrightarrow> rep (push_back s x) (xs @ [x])"
    and pop_front_law: "rep s (x # xs) \<Longrightarrow> first_of s = x \<and> rep (pop_front s) xs"
    and pop_back_law: "rep s (xs @ [x]) \<Longrightarrow> last_of s = x \<and> rep (pop_back s) xs"
    and empty_law: "rep s xs \<Longrightarrow> empty s \<longleftrightarrow> xs = []"
begin

fun may_push_all :: "'a list \<Rightarrow> 'a list \<Rightarrow> bool" where
  "may_push_all xs [] = True"
| "may_push_all xs (y # ys) = (may_push xs y \<and> may_push_all (xs @ [y]) ys)"

fun drain :: "nat \<Rightarrow> 's \<Rightarrow> 'a list" where
  "drain 0 s = []"
| "drain (Suc n) s = (if empty s then [] else first_of s # drain n (pop_front s))"

lemma push_all:
  assumes "rep s xs" "may_push_all xs ys"
  shows "rep (foldl push_back s ys) (xs @ ys)"
  using assms
proof (induction ys arbitrary: s xs)
  case (Cons y ys)
  then have "rep (push_back s y) (xs @ [y])" using push_back_law by simp
  then show ?case using Cons.IH [of "push_back s y" "xs @ [y]"] Cons.prems(2) by simp
qed simp

lemma drain_all:
  assumes "rep s xs" "length xs \<le> n"
  shows "drain n s = xs"
  using assms
proof (induction n arbitrary: s xs)
  case (Suc n)
  show ?case
  proof (cases xs)
    case Nil
    then show ?thesis using empty_law [OF Suc.prems(1)] by simp
  next
    case (Cons x xs')
    then show ?thesis
      using Suc.IH [of "pop_front s" xs'] pop_front_law [of s x xs'] Suc.prems empty_law [OF Suc.prems(1)] by simp
  qed
qed simp

text \<open>First in, first out.\<close>

lemma fifo:
  assumes "rep s []" "may_push_all [] xs" "length xs \<le> n"
  shows "drain n (foldl push_back s xs) = xs"
  using drain_all [OF push_all [OF assms(1,2)]] assms(3) by simp

text \<open>Last in, first out.\<close>

lemma lifo:
  assumes "rep s xs" "may_push xs x"
  shows "last_of (push_back s x) = x \<and> rep (pop_back (push_back s x)) xs"
  by (rule pop_back_law [OF push_back_law [OF assms]])

end

end
