(* ===== verification/Vector.thy ===== *)
theory Vector
  imports Deque
begin

text \<open>
  The vector of \<^verbatim>\<open>core/vector.h\<close>. Its storage is a list of cells, \<open>None\<close> where no object lives;
  the pointers \<open>beginptr\<close>, \<open>endptr\<close> and \<open>storageend\<close> are offsets from \<open>storagebegin\<close>
  (the last is the length of the storage). Erasing at the front moves \<open>beginptr\<close> only, so that
  the vector serves as a queue. \<open>sz\<close> is \<open>sizeof(T)\<close>, \<open>triv\<close> says whether \<open>T\<close> is trivially
  copyable, and allocation succeeds.
\<close>

section \<open>Operations\<close>

record 'a vec =
  storage :: "'a option list"
  beginptr :: nat
  endptr :: nat
  vmsize :: nat

definition vec_new :: "'a vec" where
  "vec_new = \<lparr>storage = [], beginptr = 0, endptr = 0, vmsize = 0\<rparr>"

definition vec_at :: "'a vec \<Rightarrow> nat \<Rightarrow> 'a result" where
  "vec_at v i = (if i \<ge> vmsize v then Inl OutOfRange else Inr (the (storage v ! (beginptr v + i))))"

definition vec_index :: "'a vec \<Rightarrow> nat \<Rightarrow> 'a" where
  "vec_index v i = the (storage v ! (beginptr v + i))"

definition vec_empty :: "'a vec \<Rightarrow> bool" where
  "vec_empty v \<longleftrightarrow> vmsize v = 0"

definition capacity :: "'a vec \<Rightarrow> nat" where
  "capacity v = length (storage v) - beginptr v"

text \<open>The destructor calls of a loop over \<open>[i, j)\<close>.\<close>

fun destroy :: "'a option list \<Rightarrow> nat \<Rightarrow> nat \<Rightarrow> 'a option list" where
  "destroy cs i 0 = cs"
| "destroy cs i (Suc n) = destroy (cs[i := None]) (Suc i) n"

definition vec_clear :: "'a vec \<Rightarrow> 'a vec" where
  "vec_clear v = \<lparr>storage = destroy (storage v) (beginptr v) (endptr v - beginptr v),
                  beginptr = 0, endptr = 0, vmsize = 0\<rparr>"

text \<open>
  \<open>move\<close>: overlapping ranges are copied forward or backward. Move-assignment leaves a
  moved-from object behind, which is still an object: here its old value.
\<close>

fun move_forward :: "'a option list \<Rightarrow> nat \<Rightarrow> nat \<Rightarrow> nat \<Rightarrow> 'a option list" where
  "move_forward cs dst src 0 = cs"
| "move_forward cs dst src (Suc n) = move_forward (cs[dst := cs ! src]) (Suc dst) (Suc src) n"

fun move_backward :: "'a option list \<Rightarrow> nat \<Rightarrow> nat \<Rightarrow> nat \<Rightarrow> 'a option list" where
  "move_backward cs dst src 0 = cs"
| "move_backward cs dst src (Suc n) = move_backward (cs[dst + n := cs ! (src + n)]) dst src n"

definition memmove :: "'a option list \<Rightarrow> nat \<Rightarrow> nat \<Rightarrow> nat \<Rightarrow> 'a option list" where
  "memmove cs dst src n =
     map (\<lambda>i. if dst \<le> i \<and> i < dst + n then cs ! (src + (i - dst)) else cs ! i) [0 ..< length cs]"

definition vec_move :: "bool \<Rightarrow> 'a option list \<Rightarrow> nat \<Rightarrow> nat \<Rightarrow> nat \<Rightarrow> 'a option list" where
  "vec_move triv cs dst b e =
     (if triv then memmove cs dst b (e - b)
      else if dst \<le> b then move_forward cs dst b (e - b)
      else move_backward cs dst b (e - b))"

text \<open>
  The compaction when the front of the storage is mostly unused: the loop constructs at the
  start of the storage until it meets \<open>beginptr\<close> or runs out of elements.
\<close>

definition compact_storage :: "bool \<Rightarrow> 'a option list \<Rightarrow> nat \<Rightarrow> nat \<Rightarrow> 'a option list" where
  "compact_storage triv cs b e =
     (if triv then memmove cs 0 b (e - b)
      else let k = min b (e - b);
               cs1 = move_forward cs 0 b k;
               cs2 = vec_move triv cs1 k (b + k) e
           in destroy cs2 (b + k) (e - (b + k)))"

definition erase_range :: "nat \<Rightarrow> bool \<Rightarrow> 'a vec \<Rightarrow> nat \<Rightarrow> nat \<Rightarrow> 'a vec" where
  "erase_range sz triv v b e =
     (let n = e - b;
          ms = vmsize v - n;
          v1 =
            (if b = beginptr v
             then let cs = destroy (storage v) b n;
                      unused = e
                  in if e \<noteq> endptr v \<and> unused > ms \<and> unused \<ge> 1024 * 512 div sz
                     then \<lparr>storage = compact_storage triv cs e (endptr v), beginptr = 0, endptr = ms, vmsize = ms\<rparr>
                     else \<lparr>storage = cs, beginptr = e, endptr = endptr v, vmsize = ms\<rparr>
             else let cs = vec_move triv (storage v) b e (endptr v);
                      cs = destroy cs (endptr v - n) n
                  in \<lparr>storage = cs, beginptr = beginptr v, endptr = endptr v - n, vmsize = ms\<rparr>)
      in if beginptr v1 = endptr v1 then v1\<lparr>beginptr := 0, endptr := 0\<rparr> else v1)"

definition erase_at :: "nat \<Rightarrow> bool \<Rightarrow> 'a vec \<Rightarrow> nat \<Rightarrow> 'a vec \<times> nat" where
  "erase_at sz triv v p =
     (let index = p - beginptr v; v' = erase_range sz triv v p (p + 1) in (v', beginptr v' + index))"

definition reserveImpl :: "'a vec \<Rightarrow> nat \<Rightarrow> 'a vec" where
  "reserveImpl v n =
     (let live = take (endptr v - beginptr v) (drop (beginptr v) (storage v))
      in \<lparr>storage = live @ replicate (n - length live) None, beginptr = 0, endptr = vmsize v, vmsize = vmsize v\<rparr>)"

definition reserve :: "'a vec \<Rightarrow> nat \<Rightarrow> 'a vec" where
  "reserve v n = (if n \<le> capacity v then v else reserveImpl v n)"

definition expand :: "'a vec \<Rightarrow> 'a vec" where
  "expand v = reserveImpl v (max (capacity v * 2) 16)"

fun construct_default :: "'a \<Rightarrow> 'a option list \<Rightarrow> nat \<Rightarrow> nat \<Rightarrow> 'a option list" where
  "construct_default x cs i 0 = cs"
| "construct_default x cs i (Suc n) = construct_default x (cs[i := Some x]) (Suc i) n"

definition resize :: "'a \<Rightarrow> 'a vec \<Rightarrow> nat \<Rightarrow> 'a vec" where
  "resize x v n =
     (let v1 = (if vmsize v > n then v\<lparr>storage := destroy (storage v) (beginptr v + n) (endptr v - (beginptr v + n))\<rparr>
                else if n > vmsize v
                then (let v' = reserve v n
                      in v'\<lparr>storage := construct_default x (storage v') (endptr v') (beginptr v' + n - endptr v')\<rparr>)
                else v)
      in v1\<lparr>endptr := beginptr v1 + n, vmsize := n\<rparr>)"

definition emplace_back :: "'a vec \<Rightarrow> 'a \<Rightarrow> 'a vec" where
  "emplace_back v x =
     (let v = (if endptr v = length (storage v) then expand v else v)
      in v\<lparr>storage := (storage v)[endptr v := Some x], endptr := endptr v + 1, vmsize := vmsize v + 1\<rparr>)"

definition vec_front :: "'a vec \<Rightarrow> 'a" where
  "vec_front v = the (storage v ! beginptr v)"

definition vec_back :: "'a vec \<Rightarrow> 'a" where
  "vec_back v = the (storage v ! (endptr v - 1))"

definition vec_pop_back :: "'a vec \<Rightarrow> 'a vec" where
  "vec_pop_back v =
     v\<lparr>endptr := endptr v - 1, vmsize := vmsize v - 1, storage := (storage v)[endptr v - 1 := None]\<rparr>"

definition vec_pop_front :: "nat \<Rightarrow> bool \<Rightarrow> 'a vec \<Rightarrow> 'a vec" where
  "vec_pop_front sz triv v = erase_range sz triv v (beginptr v) (beginptr v + 1)"

definition vec_insert :: "bool \<Rightarrow> 'a \<Rightarrow> 'a vec \<Rightarrow> nat \<Rightarrow> 'a \<Rightarrow> 'a vec \<times> nat" where
  "vec_insert triv def v p x =
     (if p = endptr v then (let v' = emplace_back v x in (v', endptr v' - 1))
      else let full = (endptr v = length (storage v));
               p' = (if full then p - beginptr v else p);
               v1 = (if full then expand v else v);
               p1 = (if full then beginptr v1 + p' else p);
               v2 = v1\<lparr>storage := (storage v1)[endptr v1 := Some def], endptr := endptr v1 + 1, vmsize := vmsize v1 + 1\<rparr>;
               cs = vec_move triv (storage v2) (p1 + 1) p1 (endptr v2 - 1)
           in (v2\<lparr>storage := cs[p1 := Some x]\<rparr>, p1))"

definition vec_assign :: "'a vec \<Rightarrow> 'a vec \<Rightarrow> 'a vec" where
  "vec_assign v n =
     (let v = reserve (vec_clear v) (vmsize n);
          k = vmsize n
      in v\<lparr>storage := take (endptr v) (storage v) @ take k (drop (beginptr n) (storage n)) @ drop (endptr v + k) (storage v),
           endptr := endptr v + k, vmsize := vmsize v + k\<rparr>)"

fun vec_equal_from :: "'a vec \<Rightarrow> 'a vec \<Rightarrow> nat \<Rightarrow> nat \<Rightarrow> bool" where
  "vec_equal_from v w i 0 = True"
| "vec_equal_from v w i (Suc n) = (if vec_index v i \<noteq> vec_index w i then False else vec_equal_from v w (Suc i) n)"

definition vec_equal :: "'a vec \<Rightarrow> 'a vec \<Rightarrow> bool" where
  "vec_equal v w \<longleftrightarrow> (if vmsize v \<noteq> vmsize w then False else vec_equal_from v w 0 (vmsize v))"

end
