(* ===== verification/Vector_Correct.thy ===== *)
theory Vector_Correct
  imports Vector
begin

text \<open>
  The vector implements a list: every operation keeps the representation and does on the
  elements what its name says; the element-wise moves of overlapping ranges equal \<open>memmove\<close>.
\<close>

section \<open>Loops over cells\<close>

lemma destroy_nth [simp]:
  "length (destroy cs i n) = length cs"
  "k < length cs \<Longrightarrow> destroy cs i n ! k = (if i \<le> k \<and> k < i + n then None else cs ! k)"
  by (induction n arbitrary: cs i) (auto simp: nth_list_update)

lemma construct_default_nth [simp]:
  "length (construct_default x cs i n) = length cs"
  "k < length cs \<Longrightarrow> construct_default x cs i n ! k = (if i \<le> k \<and> k < i + n then Some x else cs ! k)"
  by (induction n arbitrary: cs i) (auto simp: nth_list_update)

lemma memmove_nth [simp]:
  "length (memmove cs dst src n) = length cs"
  "k < length cs \<Longrightarrow> memmove cs dst src n ! k = (if dst \<le> k \<and> k < dst + n then cs ! (src + (k - dst)) else cs ! k)"
  by (simp_all add: memmove_def)

lemma move_forward_memmove:
  assumes "dst \<le> src" "src + n \<le> length cs"
  shows "move_forward cs dst src n = memmove cs dst src n"
proof (rule nth_equalityI)
  have len: "length (move_forward cs dst src n) = length cs"
    by (induction n arbitrary: cs dst src) simp_all
  then show "length (move_forward cs dst src n) = length (memmove cs dst src n)" by simp
  fix k assume "k < length (move_forward cs dst src n)"
  then have "k < length cs" using len by simp
  with assms show "move_forward cs dst src n ! k = memmove cs dst src n ! k"
  proof (induction n arbitrary: cs dst src)
    case (Suc n)
    have "move_forward (cs[dst := cs ! src]) (Suc dst) (Suc src) n ! k
        = memmove (cs[dst := cs ! src]) (Suc dst) (Suc src) n ! k"
      by (rule Suc.IH) (use Suc.prems in auto)
    moreover have "src + (k - dst) = Suc (src + (k - Suc dst))" if "Suc dst \<le> k" using that by simp
    ultimately show ?case
      using Suc.prems by (auto simp: nth_list_update)
  qed auto
qed

lemma move_backward_memmove:
  assumes "src \<le> dst" "dst + n \<le> length cs"
  shows "move_backward cs dst src n = memmove cs dst src n"
proof (rule nth_equalityI)
  have len: "length (move_backward cs dst src n) = length cs"
    by (induction n arbitrary: cs) simp_all
  then show "length (move_backward cs dst src n) = length (memmove cs dst src n)" by simp
  fix k assume "k < length (move_backward cs dst src n)"
  then have "k < length cs" using len by simp
  with assms show "move_backward cs dst src n ! k = memmove cs dst src n ! k"
  proof (induction n arbitrary: cs)
    case (Suc n)
    have "move_backward (cs[dst + n := cs ! (src + n)]) dst src n ! k
        = memmove (cs[dst + n := cs ! (src + n)]) dst src n ! k"
      by (rule Suc.IH) (use Suc.prems in auto)
    then show ?case
      using Suc.prems by (auto simp: nth_list_update)
  qed auto
qed

lemma vec_move_memmove:
  assumes "b \<le> e" "e \<le> length cs" "dst + (e - b) \<le> length cs"
  shows "vec_move triv cs dst b e = memmove cs dst b (e - b)"
  using assms by (simp add: vec_move_def move_forward_memmove move_backward_memmove)

text \<open>
  The compaction of a type that is not trivially copyable is right because it only happens
  when the unused front is longer than the rest.
\<close>

lemma compact_storage_nth:
  assumes "b \<le> e" "e \<le> length cs" "k < e - b" "e - b < b"
  shows "compact_storage triv cs b e ! k = cs ! (b + k)" "length (compact_storage triv cs b e) = length cs"
proof -
  have "compact_storage triv cs b e ! k = cs ! (b + k) \<and> length (compact_storage triv cs b e) = length cs"
  proof (cases triv)
    case True
    then show ?thesis using assms by (simp add: compact_storage_def)
  next
    case False
    have k: "min b (e - b) = e - b" using assms by simp
    have "move_forward cs 0 b (e - b) = memmove cs 0 b (e - b)" using assms by (intro move_forward_memmove) auto
    moreover have "vec_move triv (memmove cs 0 b (e - b)) (e - b) e e = memmove (memmove cs 0 b (e - b)) (e - b) e (e - e)"
      using assms by (intro vec_move_memmove) auto
    ultimately show ?thesis
      using assms False by (auto simp: compact_storage_def Let_def k)
  qed
  then show "compact_storage triv cs b e ! k = cs ! (b + k)" "length (compact_storage triv cs b e) = length cs" by auto
qed

section \<open>Representation\<close>

definition vec_rep :: "'a vec \<Rightarrow> 'a list \<Rightarrow> bool" where
  "vec_rep v xs \<longleftrightarrow>
     vmsize v = length xs \<and> endptr v = beginptr v + length xs \<and> endptr v \<le> length (storage v) \<and>
     (\<forall>i < length xs. storage v ! (beginptr v + i) = Some (xs ! i))"

lemma vec_rep_nth: "vec_rep v xs \<Longrightarrow> i < length xs \<Longrightarrow> storage v ! (beginptr v + i) = Some (xs ! i)"
  by (simp add: vec_rep_def)

lemma vec_new_rep: "vec_rep vec_new []"
  by (simp add: vec_rep_def vec_new_def)

lemma vec_clear_rep: "vec_rep v xs \<Longrightarrow> vec_rep (vec_clear v) []"
  by (simp add: vec_rep_def vec_clear_def)

lemma reserveImpl_rep:
  assumes "vec_rep v xs" "length xs \<le> n"
  shows "vec_rep (reserveImpl v n) xs" "length (storage (reserveImpl v n)) = n" "beginptr (reserveImpl v n) = 0"
  using assms by (auto simp: vec_rep_def reserveImpl_def Let_def nth_append)

lemma reserve_rep:
  assumes "vec_rep v xs" "length xs \<le> n"
  shows "vec_rep (reserve v n) xs" "n \<le> capacity (reserve v n)"
  using reserveImpl_rep [OF assms] assms(1) by (auto simp: reserve_def capacity_def)

lemma expand_rep:
  assumes "vec_rep v xs" "endptr v = length (storage v)"
  shows "vec_rep (expand v) xs" "endptr (expand v) < length (storage (expand v))" "beginptr (expand v) = 0"
proof -
  have "length xs = capacity v" using assms by (simp add: vec_rep_def capacity_def)
  then have "length xs \<le> max (capacity v * 2) 16" "length xs < max (capacity v * 2) 16" by auto
  with reserveImpl_rep [OF assms(1)] show "vec_rep (expand v) xs" "endptr (expand v) < length (storage (expand v))"
    "beginptr (expand v) = 0"
    by (simp_all add: expand_def vec_rep_def)
qed

definition with_room :: "'a vec \<Rightarrow> 'a vec" where
  "with_room v = (if endptr v = length (storage v) then expand v else v)"

lemma with_room_rep:
  assumes "vec_rep v xs"
  shows "vec_rep (with_room v) xs" "endptr (with_room v) < length (storage (with_room v))"
  using assms expand_rep [OF assms] by (auto simp: with_room_def vec_rep_def)

lemma emplace_back_rep:
  assumes "vec_rep v xs"
  shows "vec_rep (emplace_back v x) (xs @ [x])"
  using with_room_rep [OF assms]
  by (auto simp: emplace_back_def with_room_def [symmetric] Let_def vec_rep_def nth_append nth_list_update less_Suc_eq)

lemma vec_pop_back_rep:
  assumes "vec_rep v (xs @ [x])"
  shows "vec_back v = x" "vec_rep (vec_pop_back v) xs"
  using assms vec_rep_nth [OF assms, of "length xs"]
  by (auto simp: vec_rep_def vec_back_def vec_pop_back_def nth_append nth_list_update)

lemma erase_range_rep:
  assumes "vec_rep v xs" "i \<le> j" "j \<le> length xs"
  shows "vec_rep (erase_range sz triv v (beginptr v + i) (beginptr v + j)) (take i xs @ drop j xs)"
proof (cases "i = 0")
  case False
  let ?cs = "vec_move triv (storage v) (beginptr v + i) (beginptr v + j) (endptr v)"
  have mv: "?cs = memmove (storage v) (beginptr v + i) (beginptr v + j) (endptr v - (beginptr v + j))"
    using assms by (intro vec_move_memmove) (auto simp: vec_rep_def)
  have "destroy ?cs (endptr v - (j - i)) (j - i) ! (beginptr v + l) = Some ((take i xs @ drop j xs) ! l)"
    if "l < length (take i xs @ drop j xs)" for l
  proof (cases "l < i")
    case True
    then show ?thesis unfolding mv using assms that vec_rep_nth [OF assms(1), of l] by (auto simp: vec_rep_def nth_append)
  next
    case ge: False
    have "beginptr v + j + (beginptr v + l - (beginptr v + i)) = beginptr v + (j + (l - i))" using ge by simp
    then show ?thesis
      unfolding mv using assms that ge vec_rep_nth [OF assms(1), of "j + (l - i)"]
      by (auto simp: vec_rep_def nth_append)
  qed
  moreover have "length ?cs = length (storage v)"
    using assms by (subst vec_move_memmove) (auto simp: vec_rep_def)
  ultimately show ?thesis
    using assms False by (auto simp: erase_range_def Let_def vec_rep_def)
next
  case True
  let ?cs = "destroy (storage v) (beginptr v) j" and ?b = "beginptr v + j"
  have elem: "?cs ! (?b + l) = Some (xs ! (j + l))" if "l < length xs - j" for l
    using assms that vec_rep_nth [OF assms(1), of "j + l"] by (auto simp: vec_rep_def add.assoc)
  have comp: "compact_storage triv ?cs ?b (endptr v) ! l = Some (xs ! (j + l))"
    if "l < length xs - j" "length xs - j < ?b" for l
    using compact_storage_nth(1) [of ?b "endptr v" ?cs l triv] elem [OF that(1)] that assms by (auto simp: vec_rep_def)
  have "length (compact_storage triv ?cs ?b (endptr v)) = length (storage v)"
    if "j \<noteq> length xs" "length xs - j < ?b"
    using compact_storage_nth(2) [of ?b "endptr v" ?cs 0 triv] that assms by (auto simp: vec_rep_def)
  then show ?thesis
    using assms True elem comp by (auto simp: erase_range_def Let_def vec_rep_def)
qed

lemma vec_pop_front_rep:
  assumes "vec_rep v (x # xs)"
  shows "vec_front v = x" "vec_rep (vec_pop_front sz triv v) xs"
  using erase_range_rep [OF assms, of 0 1 sz triv] vec_rep_nth [OF assms, of 0]
  by (auto simp: vec_front_def vec_pop_front_def)

lemma insert_shift:
  assumes "vec_rep v xs" "endptr v < length (storage v)" "i < length xs"
  shows "vec_rep (v\<lparr>storage := (vec_move triv ((storage v)[endptr v := Some d]) (beginptr v + i + 1) (beginptr v + i) (endptr v))
                      [beginptr v + i := Some x], endptr := endptr v + 1, vmsize := vmsize v + 1\<rparr>)
    (take i xs @ x # drop i xs)"
proof -
  let ?cs = "(storage v)[endptr v := Some d]"
  have mv: "vec_move triv ?cs (beginptr v + i + 1) (beginptr v + i) (endptr v)
      = memmove ?cs (beginptr v + i + 1) (beginptr v + i) (endptr v - (beginptr v + i))"
    using assms by (intro vec_move_memmove) (auto simp: vec_rep_def)
  have "(memmove ?cs (beginptr v + i + 1) (beginptr v + i) (endptr v - (beginptr v + i)))
      [beginptr v + i := Some x] ! (beginptr v + l) = Some ((take i xs @ x # drop i xs) ! l)" if lk: "l \<le> length xs" for l
  proof -
    consider "l < i" | "l = i" | "i < l" by linarith
    then show ?thesis
    proof cases
      case 1
      then show ?thesis using assms lk vec_rep_nth [OF assms(1), of l] by (auto simp: vec_rep_def nth_append nth_list_update)
    next
      case 2
      then show ?thesis using assms by (auto simp: vec_rep_def nth_append nth_list_update)
    next
      case 3
      then obtain k where k: "l = Suc k" "i \<le> k" "k < length xs" using lk by (cases l) auto
      then have "beginptr v + i + (beginptr v + l - (beginptr v + i + 1)) = beginptr v + k" by simp
      moreover have "(take i xs @ x # drop i xs) ! l = xs ! k" using k assms(3) by (simp add: nth_append Suc_diff_le)
      ultimately show ?thesis
        using k assms vec_rep_nth [OF assms(1), of k] by (auto simp: vec_rep_def nth_list_update)
    qed
  qed
  then show ?thesis unfolding mv using assms by (auto simp: vec_rep_def)
qed

lemma vec_insert_rep:
  assumes "vec_rep v xs" "i \<le> length xs"
  shows "vec_rep (fst (vec_insert triv d v (beginptr v + i) x)) (take i xs @ x # drop i xs)"
    "snd (vec_insert triv d v (beginptr v + i) x) = beginptr (fst (vec_insert triv d v (beginptr v + i) x)) + i"
proof -
  have "vec_rep (fst (vec_insert triv d v (beginptr v + i) x)) (take i xs @ x # drop i xs) \<and>
    snd (vec_insert triv d v (beginptr v + i) x) = beginptr (fst (vec_insert triv d v (beginptr v + i) x)) + i"
  proof (cases "i = length xs")
    case True
    then show ?thesis
      using emplace_back_rep [OF assms(1), of x] assms by (auto simp: vec_insert_def Let_def vec_rep_def)
  next
    case False
    then have i: "i < length xs" using assms(2) by simp
    note R = with_room_rep [OF assms(1)]
    have "fst (vec_insert triv d v (beginptr v + i) x) =
      (let w = with_room v in
        w\<lparr>storage := (vec_move triv ((storage w)[endptr w := Some d]) (beginptr w + i + 1) (beginptr w + i) (endptr w))
                      [beginptr w + i := Some x], endptr := endptr w + 1, vmsize := vmsize w + 1\<rparr>)"
      "snd (vec_insert triv d v (beginptr v + i) x) = beginptr (with_room v) + i"
      using i assms by (auto simp: vec_insert_def Let_def with_room_def vec_rep_def)
    then show ?thesis using insert_shift [OF R i] by (simp add: Let_def)
  qed
  then show "vec_rep (fst (vec_insert triv d v (beginptr v + i) x)) (take i xs @ x # drop i xs)"
    "snd (vec_insert triv d v (beginptr v + i) x) = beginptr (fst (vec_insert triv d v (beginptr v + i) x)) + i" by auto
qed

lemma resize_rep:
  assumes "vec_rep v xs"
  shows "vec_rep (resize x v n) (take n xs @ replicate (n - length xs) x)"
proof (cases "n > length xs")
  case False
  then show ?thesis using assms by (auto simp: resize_def Let_def vec_rep_def)
next
  case True
  note R = reserve_rep [OF assms, of n]
  then show ?thesis
    using True assms by (auto simp: resize_def Let_def vec_rep_def capacity_def nth_append)
qed

lemma vec_assign_rep:
  assumes "vec_rep v xs" "vec_rep n ys"
  shows "vec_rep (vec_assign v n) ys"
proof -
  define w where "w = reserve (vec_clear v) (vmsize n)"
  have "vec_rep w []" "vmsize n \<le> capacity w"
    using reserve_rep [OF vec_clear_rep [OF assms(1)], of "vmsize n"] by (simp_all add: w_def)
  then show ?thesis
    unfolding vec_assign_def Let_def w_def [symmetric]
    using assms(2) by (auto simp: vec_rep_def capacity_def nth_append)
qed

lemma vec_at_rep: "vec_rep v xs \<Longrightarrow> vec_at v i = (if i < length xs then Inr (xs ! i) else Inl OutOfRange)"
  by (auto simp: vec_at_def vec_rep_def)

lemma vec_equal_rep:
  assumes "vec_rep v xs" "vec_rep w ys"
  shows "vec_equal v w \<longleftrightarrow> xs = ys"
proof -
  have "vec_equal_from v w i n \<longleftrightarrow> (\<forall>k < n. vec_index v (i + k) = vec_index w (i + k))" for i n
    by (induction n arbitrary: i) (auto simp: All_less_Suc2)
  then show ?thesis
    using assms by (auto simp: vec_equal_def vec_index_def vec_rep_def list_eq_iff_nth_eq)
qed

interpretation vq: deque vec_rep "\<lambda>_ _. True" emplace_back "vec_pop_front sz triv" vec_pop_back vec_front vec_back vec_empty
  for sz triv
  by unfold_locales
    (simp_all add: emplace_back_rep vec_pop_front_rep vec_pop_back_rep, simp add: vec_rep_def vec_empty_def)

section \<open>Properties\<close>







end
