(* ===== verification/Simple_Vector.thy ===== *)
theory Simple_Vector
  imports Prelude
begin

text \<open>
  The vector of \<^verbatim>\<open>core/simple_vector.h\<close>, which has no spare capacity, together with the
  allocator it uses: a heap of blocks of cells. A block number stands for a pointer, \<open>None\<close> for
  the null pointer; releasing a block that is not allocated is the error \<open>BadFree\<close>.
\<close>

section \<open>Operations\<close>

record 'a heap =
  blocks :: "nat \<rightharpoonup> 'a option list"
  next_block :: nat

record simple_vec =
  sv_begin :: "nat option"
  sv_size :: nat

definition sv_new :: simple_vec where
  "sv_new = \<lparr>sv_begin = None, sv_size = 0\<rparr>"

definition allocate :: "'a heap \<Rightarrow> nat \<Rightarrow> nat \<times> 'a heap" where
  "allocate h n = (next_block h, h\<lparr>blocks := (blocks h)(next_block h \<mapsto> replicate n None), next_block := next_block h + 1\<rparr>)"

definition deallocate :: "'a heap \<Rightarrow> nat option \<Rightarrow> 'a heap result" where
  "deallocate h p =
     (case p of
        None \<Rightarrow> Inr h
      | Some b \<Rightarrow> if blocks h b = None then Inl BadFree else Inr (h\<lparr>blocks := (blocks h)(b := None)\<rparr>))"

definition cell :: "'a heap \<Rightarrow> simple_vec \<Rightarrow> nat \<Rightarrow> 'a option" where
  "cell h v i =
     (case sv_begin v of None \<Rightarrow> None | Some b \<Rightarrow>
        (case blocks h b of None \<Rightarrow> None | Some cs \<Rightarrow> if i < length cs then cs ! i else None))"

definition sv_at :: "'a heap \<Rightarrow> simple_vec \<Rightarrow> nat \<Rightarrow> 'a result" where
  "sv_at h v i =
     (if i \<ge> sv_size v then Inl OutOfRange
      else case cell h v i of None \<Rightarrow> Inl OutOfBounds | Some x \<Rightarrow> Inr x)"

text \<open>\<open>clear\<close> releases the memory and resets the size, not the pointer.\<close>

definition sv_clear :: "'a heap \<Rightarrow> simple_vec \<Rightarrow> ('a heap \<times> simple_vec) result" where
  "sv_clear h v =
     (if sv_size v \<noteq> 0
      then bind_result (deallocate h (sv_begin v)) (\<lambda>h. Inr (h, v\<lparr>sv_size := 0\<rparr>))
      else Inr (h, v))"

text \<open>
  \<open>resize\<close>: shrinking ends in \<open>CHECK(false)\<close>; growing moves to a new block, releases the old
  pointer and default-constructs the new elements (with value \<open>d\<close>).
\<close>

definition sv_resize :: "'a \<Rightarrow> 'a heap \<Rightarrow> simple_vec \<Rightarrow> nat \<Rightarrow> ('a heap \<times> simple_vec) result" where
  "sv_resize d h v n =
     (if sv_size v > n then Inl CheckFailed
      else if n > sv_size v
      then let (b, h1) = allocate h n;
               cs = map (cell h v) [0 ..< sv_size v] @ replicate (n - sv_size v) (Some d);
               h2 = h1\<lparr>blocks := (blocks h1)(b \<mapsto> cs)\<rparr>
           in bind_result (deallocate h2 (sv_begin v)) (\<lambda>h3. Inr (h3, \<lparr>sv_begin = Some b, sv_size = n\<rparr>))
      else Inr (h, v\<lparr>sv_size := n\<rparr>))"

fun sv_copy_down :: "'a heap \<Rightarrow> simple_vec \<Rightarrow> simple_vec \<Rightarrow> nat \<Rightarrow> 'a heap" where
  "sv_copy_down h v w 0 = h"
| "sv_copy_down h v w (Suc i) =
     (let b = the (sv_begin v)
      in sv_copy_down (h\<lparr>blocks := (blocks h)(b \<mapsto> (the (blocks h b))[i := cell h w i])\<rparr>) v w i)"

definition sv_assign :: "'a \<Rightarrow> 'a heap \<Rightarrow> simple_vec \<Rightarrow> simple_vec \<Rightarrow> ('a heap \<times> simple_vec) result" where
  "sv_assign d h v w =
     bind_result (sv_resize d h v (sv_size w)) (\<lambda>(h, v). Inr (sv_copy_down h v w (sv_size v), v))"

section \<open>Behaviour\<close>

text \<open>
  \<open>sv_rep h v xs\<close>: \<open>v\<close> owns a block that holds \<open>xs\<close>, or is null and empty. Block numbers from
  \<open>next_block\<close> on are not in use.
\<close>

definition heap_ok :: "'a heap \<Rightarrow> bool" where
  "heap_ok h \<longleftrightarrow> (\<forall>b \<ge> next_block h. blocks h b = None)"

definition sv_rep :: "'a heap \<Rightarrow> simple_vec \<Rightarrow> 'a list \<Rightarrow> bool" where
  "sv_rep h v xs \<longleftrightarrow>
     sv_size v = length xs \<and>
     (case sv_begin v of None \<Rightarrow> xs = [] | Some b \<Rightarrow> blocks h b = Some (map Some xs))"

lemma sv_rep_cell: "sv_rep h v xs \<Longrightarrow> i < length xs \<Longrightarrow> cell h v i = Some (xs ! i)"
  by (auto simp: sv_rep_def cell_def split: option.splits)

lemma sv_rep_cells: "sv_rep h v xs \<Longrightarrow> map (cell h v) [0 ..< length xs] = map Some xs"
  by (rule nth_equalityI) (simp_all add: sv_rep_cell)

lemma sv_resize_rep:
  assumes "heap_ok h" "sv_rep h v xs" "length xs \<le> n"
  shows "\<exists>h' v'. sv_resize d h v n = Inr (h', v') \<and> heap_ok h' \<and> sv_rep h' v' (xs @ replicate (n - length xs) d) \<and>
    (\<forall>b. b \<noteq> next_block h \<longrightarrow> Some b \<noteq> sv_begin v \<longrightarrow> blocks h' b = blocks h b)"
proof (cases "length xs = n")
  case True
  then show ?thesis using assms by (simp add: sv_resize_def sv_rep_def)
next
  case False
  then have n: "length xs < n" using assms(3) by simp
  have sz: "sv_size v = length xs" using assms(2) by (simp add: sv_rep_def)
  have "sv_begin v \<noteq> Some (next_block h)"
    using assms(1,2) by (auto simp: heap_ok_def sv_rep_def split: option.splits)
  then show ?thesis
    using assms n sv_rep_cells [OF assms(2)]
    by (cases "sv_begin v") (auto simp: sv_resize_def sz allocate_def deallocate_def Let_def heap_ok_def sv_rep_def)
qed

section \<open>Properties\<close>



text \<open>
  C33: A vector that was cleared must not be used again: growing it releases the block that
  \<open>clear\<close> already released.
\<close>

theorem cleared_vector_double_free:
  assumes "heap_ok h" "sv_rep h v xs" "xs \<noteq> []" "0 < n"
  shows "bind_result (sv_clear h v) (\<lambda>(h, v). sv_resize d h v n) = Inl BadFree"
proof -
  obtain b where b: "sv_begin v = Some b" "blocks h b = Some (map Some xs)"
    using assms(2,3) by (auto simp: sv_rep_def split: option.splits)
  then have "b \<noteq> next_block h" using assms(1) by (auto simp: heap_ok_def)
  then show ?thesis
    using assms b by (auto simp: sv_clear_def sv_resize_def sv_rep_def deallocate_def allocate_def Let_def)
qed

theorem cleared_vector_double_free_witness:
  "bind_result (sv_clear \<lparr>blocks = [0 \<mapsto> [Some (5 :: nat)]], next_block = 1\<rparr> \<lparr>sv_begin = Some 0, sv_size = 1\<rparr>)
     (\<lambda>(h, v). sv_resize 0 h v 1) = Inl BadFree"
proof -
  let ?h = "\<lparr>blocks = [0 \<mapsto> [Some (5 :: nat)]], next_block = 1\<rparr>" and ?v = "\<lparr>sv_begin = Some 0, sv_size = 1\<rparr>"
  have "heap_ok ?h" "sv_rep ?h ?v [5]" by (simp_all add: heap_ok_def sv_rep_def)
  then show ?thesis using cleared_vector_double_free [of ?h ?v "[5]" 1 0] by simp
qed

end
