(* ===== verification/Intrusive_List.thy ===== *)
theory Intrusive_List
  imports Deque
begin

text \<open>
  The intrusive doubly linked list of \<^verbatim>\<open>core/intrusive_list.h\<close>: a ring of nodes through a head
  node that is part of the list object. Nodes are numbers, the links are maps from nodes to
  nodes, and a null link is \<open>None\<close>; following a null link is the error \<open>OutOfBounds\<close>.
\<close>

section \<open>Operations\<close>

record links =
  lnext :: "nat \<Rightarrow> nat option"
  lprev :: "nat \<Rightarrow> nat option"

definition set_next :: "links \<Rightarrow> nat \<Rightarrow> nat option \<Rightarrow> links" where
  "set_next s a b = s\<lparr>lnext := (lnext s)(a := b)\<rparr>"

definition set_prev :: "links \<Rightarrow> nat \<Rightarrow> nat option \<Rightarrow> links" where
  "set_prev s a b = s\<lparr>lprev := (lprev s)(a := b)\<rparr>"

definition not_null :: "nat option \<Rightarrow> nat result" where
  "not_null p = (case p of None \<Rightarrow> Inl OutOfBounds | Some a \<Rightarrow> Inr a)"

definition il_clear :: "nat \<Rightarrow> links \<Rightarrow> links" where
  "il_clear h s = set_next (set_prev s h (Some h)) h (Some h)"

definition il_empty :: "nat \<Rightarrow> links \<Rightarrow> bool" where
  "il_empty h s \<longleftrightarrow> lnext s h = Some h"

text \<open>\<open>insert\<close> links the item in before \<open>at\<close>; the iterator it returns is \<open>at\<close>.\<close>

definition il_insert :: "links \<Rightarrow> nat \<Rightarrow> nat \<Rightarrow> (links \<times> nat) result" where
  "il_insert s at item =
     bind_result (not_null (lprev s at)) (\<lambda>prevItem.
       let s = set_prev s at (Some item);
           s = set_next s prevItem (Some item);
           s = set_next s item (Some at);
           s = set_prev s item (Some prevItem)
       in Inr (s, at))"

definition il_erase :: "links \<Rightarrow> nat \<Rightarrow> (links \<times> nat) result" where
  "il_erase s at =
     bind_result (not_null (lnext s at)) (\<lambda>nextItem.
       bind_result (not_null (lprev s at)) (\<lambda>prevItem.
         let s = set_prev s nextItem (Some prevItem);
             s = set_next s prevItem (Some nextItem);
             s = set_prev s at None;
             s = set_next s at None
         in Inr (s, nextItem)))"

definition il_push_front :: "nat \<Rightarrow> links \<Rightarrow> nat \<Rightarrow> links result" where
  "il_push_front h s item =
     bind_result (not_null (lnext s h)) (\<lambda>at. bind_result (il_insert s at item) (\<lambda>r. Inr (fst r)))"

definition il_push_back :: "nat \<Rightarrow> links \<Rightarrow> nat \<Rightarrow> links result" where
  "il_push_back h s item = bind_result (il_insert s h item) (\<lambda>r. Inr (fst r))"

definition il_pop_front :: "nat \<Rightarrow> links \<Rightarrow> links result" where
  "il_pop_front h s =
     bind_result (not_null (lnext s h)) (\<lambda>at. bind_result (il_erase s at) (\<lambda>r. Inr (fst r)))"

definition il_pop_back :: "nat \<Rightarrow> links \<Rightarrow> links result" where
  "il_pop_back h s =
     bind_result (not_null (lprev s h)) (\<lambda>at. bind_result (il_erase s at) (\<lambda>r. Inr (fst r)))"

definition il_front :: "nat \<Rightarrow> links \<Rightarrow> nat" where
  "il_front h s = the (lnext s h)"

definition il_back :: "nat \<Rightarrow> links \<Rightarrow> nat" where
  "il_back h s = the (lprev s h)"

text \<open>Move assignment to the list with head \<open>h\<close> from the one with head \<open>n\<close>.\<close>

definition il_move_assign :: "nat \<Rightarrow> nat \<Rightarrow> links \<Rightarrow> links result" where
  "il_move_assign h n s =
     (if il_empty n s then Inr (il_clear h s)
      else bind_result (not_null (lprev s n)) (\<lambda>hp.
        bind_result (not_null (lnext s n)) (\<lambda>hn.
          let s = set_prev s hn (Some h);
              s = set_next s hp (Some h);
              s = set_prev s h (Some hp);
              s = set_next s h (Some hn)
          in Inr (il_clear n s))))"

text \<open>A loop from \<open>begin\<close> to \<open>end\<close>.\<close>

fun il_iterate :: "nat \<Rightarrow> nat \<Rightarrow> links \<Rightarrow> nat \<Rightarrow> nat list result" where
  "il_iterate 0 h s p = (if p = h then Inr [] else Inl OutOfFuel)"
| "il_iterate (Suc fuel) h s p =
     (if p = h then Inr []
      else bind_result (not_null (lnext s p)) (\<lambda>q.
             bind_result (il_iterate fuel h s q) (\<lambda>ps. Inr (p # ps))))"

section \<open>The ring\<close>

definition link :: "links \<Rightarrow> nat \<Rightarrow> nat \<Rightarrow> bool" where
  "link s a b \<longleftrightarrow> lnext s a = Some b \<and> lprev s b = Some a"

fun chain :: "links \<Rightarrow> nat \<Rightarrow> nat list \<Rightarrow> nat \<Rightarrow> bool" where
  "chain s a [] b = link s a b"
| "chain s a (x # xs) b = (link s a x \<and> chain s x xs b)"

definition ring :: "nat \<Rightarrow> links \<Rightarrow> nat list \<Rightarrow> bool" where
  "ring h s xs \<longleftrightarrow> distinct (h # xs) \<and> chain s h xs h"

lemma chain_append: "chain s a (xs @ y # ys) b \<longleftrightarrow> chain s a xs y \<and> chain s y ys b"
  by (induction xs arbitrary: a) auto

lemma chain_frame:
  assumes "chain s a xs b" "\<And>x. x \<in> set (a # xs) \<Longrightarrow> lnext s' x = lnext s x"
    and "\<And>x. x \<in> set (xs @ [b]) \<Longrightarrow> lprev s' x = lprev s x"
  shows "chain s' a xs b"
  using assms by (induction xs arbitrary: a) (auto simp: link_def)

lemma chain_last:
  assumes "chain s a xs b"
  shows "lprev s b = Some (last (a # xs))"
  using assms by (induction xs arbitrary: a) (auto simp: link_def)

lemma chain_first: "chain s a xs b \<Longrightarrow> lnext s a = Some (hd (xs @ [b]))"
  by (cases xs) (auto simp: link_def)

text \<open>The two ends of a link, replaced by a new neighbour.\<close>

lemma chain_relink_last:
  assumes "chain s a xs b" "distinct (a # xs)" "last (a # xs) = p" "link s' p c"
    and "\<And>x. x \<in> set (a # xs) \<Longrightarrow> x \<noteq> p \<Longrightarrow> lnext s' x = lnext s x"
    and "\<And>x. x \<in> set xs \<Longrightarrow> lprev s' x = lprev s x"
  shows "chain s' a xs c"
proof (cases xs rule: rev_cases)
  case Nil
  then show ?thesis using assms(3,4) by simp
next
  case (snoc us q)
  then have q: "q = p" using assms(3) by simp
  note snoc = snoc [unfolded q]
  have "chain s a us p" using assms(1) by (simp add: snoc chain_append)
  moreover have "lnext s' x = lnext s x" if "x \<in> set (a # us)" for x
    using assms(2,5) that by (auto simp: snoc)
  moreover have "lprev s' x = lprev s x" if "x \<in> set (us @ [p])" for x
    using assms(6) that by (auto simp: snoc)
  ultimately have "chain s' a us p" by (rule chain_frame)
  then show ?thesis using assms(4) by (simp add: snoc chain_append)
qed

lemma chain_relink_first:
  assumes "chain s c ys b" "hd (ys @ [b]) = q" "link s' c' q" "distinct ys" "b \<notin> set ys"
    and "\<And>x. x \<in> set ys \<Longrightarrow> lnext s' x = lnext s x"
    and "\<And>x. x \<in> set (ys @ [b]) \<Longrightarrow> x \<noteq> q \<Longrightarrow> lprev s' x = lprev s x"
  shows "chain s' c' ys b"
proof (cases ys)
  case Nil
  then show ?thesis using assms(2,3) by simp
next
  case (Cons y ys')
  have "chain s y ys' b" using assms(1) by (simp add: Cons)
  moreover have "lnext s' x = lnext s x" if "x \<in> set (y # ys')" for x using assms(6) that by (simp add: Cons)
  moreover have "lprev s' x = lprev s x" if "x \<in> set (ys' @ [b])" for x
    using assms(2,4,5,7) that by (auto simp: Cons)
  ultimately have "chain s' y ys' b" by (rule chain_frame)
  then show ?thesis using assms(2,3) by (simp add: Cons)
qed

lemmas set_links = set_next_def set_prev_def

lemma chain_split:
  "chain s a (xs @ ys) b \<longleftrightarrow> chain s a xs (hd (ys @ [b])) \<and> chain s (last (a # xs)) ys b"
  by (induction xs arbitrary: a; cases ys) auto

lemma ring_next_prev:
  assumes "ring h s xs"
  shows "lnext s h = Some (hd (xs @ [h]))" "lprev s h = Some (last (h # xs))"
  using assms chain_first chain_last by (auto simp: ring_def)

text \<open>The neighbours of a place in the ring: behind \<open>xs\<close> and before \<open>ys\<close>.\<close>

lemma ring_neighbours:
  assumes "distinct (h # xs @ ys)" "last (h # xs) = p" "hd (ys @ [h]) = c"
  shows "p \<in> set (h # xs)" "p \<notin> set ys" "c \<in> set (h # ys)" "c \<notin> set xs"
proof -
  show p: "p \<in> set (h # xs)" using assms(2) last_in_set [of "h # xs"] by simp
  show c: "c \<in> set (h # ys)" using assms(3) hd_in_set [of "ys @ [h]"] by auto
  show "p \<notin> set ys" using p assms(1) by auto
  show "c \<notin> set xs" using c assms(1) by auto
qed

lemma il_insert_ring:
  assumes "ring h s (xs @ ys)" "item \<notin> set (h # xs @ ys)"
  shows "\<exists>s'. il_insert s (hd (ys @ [h])) item = Inr (s', hd (ys @ [h])) \<and> ring h s' (xs @ item # ys)"
proof -
  obtain p c where pc: "last (h # xs) = p" "hd (ys @ [h]) = c" by blast
  have d: "distinct (h # xs @ ys)" and ch: "chain s h xs c" "chain s p ys h"
    using assms(1) pc by (auto simp: ring_def chain_split)
  note n = ring_neighbours [OF d pc]
  obtain s' where s': "il_insert s c item = Inr (s', c)"
    and nx: "lnext s' = (lnext s)(p \<mapsto> item, item \<mapsto> c)" and pv: "lprev s' = (lprev s)(c \<mapsto> item, item \<mapsto> p)"
    using chain_last [OF ch(1)] pc(1) by (auto simp: il_insert_def not_null_def Let_def set_links)
  have ne: "item \<noteq> p" "item \<noteq> c" using assms(2) n(1,3) by auto
  have "chain s' h xs item"
    by (rule chain_relink_last [OF ch(1) _ pc(1)]) (use d assms(2) n(4) ne in \<open>auto simp: nx pv link_def\<close>)
  moreover have "chain s' item ys h"
    by (rule chain_relink_first [OF ch(2) pc(2)]) (use d assms(2) n(2) ne in \<open>auto simp: nx pv link_def\<close>)
  moreover have "distinct (h # xs @ item # ys)" using d assms(2) by auto
  ultimately show ?thesis unfolding pc(2) ring_def chain_append using s' by blast
qed

lemma il_erase_ring:
  assumes "ring h s (xs @ x # ys)"
  shows "\<exists>s'. il_erase s x = Inr (s', hd (ys @ [h])) \<and> ring h s' (xs @ ys) \<and> lnext s' x = None \<and> lprev s' x = None"
proof -
  obtain p c where pc: "last (h # xs) = p" "hd (ys @ [h]) = c" by blast
  have x: "x \<notin> set (h # xs @ ys)" and d: "distinct (h # xs @ ys)" and ch: "chain s h xs x" "chain s x ys h"
    using assms by (auto simp: ring_def chain_append)
  note n = ring_neighbours [OF d pc]
  have ne: "x \<noteq> p" "x \<noteq> c" using x n(1,3) by auto
  obtain s' where s': "il_erase s x = Inr (s', c)"
    and nx: "lnext s' = (lnext s)(p \<mapsto> c, x := None)" and pv: "lprev s' = (lprev s)(c \<mapsto> p, x := None)"
    using chain_last [OF ch(1)] chain_first [OF ch(2)] pc
    by (auto simp: il_erase_def not_null_def Let_def set_links)
  have "chain s' h xs c"
    by (rule chain_relink_last [OF ch(1) _ pc(1)]) (use d x n(4) ne in \<open>auto simp: nx pv link_def\<close>)
  moreover have "chain s' p ys h"
    by (rule chain_relink_first [OF ch(2) pc(2)]) (use d x n(2) ne in \<open>auto simp: nx pv link_def\<close>)
  ultimately have "ring h s' (xs @ ys)" unfolding ring_def chain_split pc using d by blast
  then show ?thesis unfolding pc(2) using s' nx pv by auto
qed

lemma il_iterate_chain:
  assumes "chain s a xs h" "h \<notin> set xs" "length xs \<le> fuel"
  shows "il_iterate fuel h s (hd (xs @ [h])) = Inr xs"
  using assms
proof (induction fuel arbitrary: a xs)
  case 0
  then show ?case by simp
next
  case (Suc fuel)
  show ?case
  proof (cases xs)
    case Nil
    then show ?thesis by simp
  next
    case (Cons x ys)
    then have ch: "chain s x ys h" using Suc.prems(1) by simp
    then have "il_iterate fuel h s (hd (ys @ [h])) = Inr ys" using Suc.prems Cons by (intro Suc.IH) auto
    then show ?thesis using Cons Suc.prems(2) chain_first [OF ch] by (auto simp: not_null_def)
  qed
qed

section \<open>The list operations\<close>

lemma il_clear_ring: "ring h (il_clear h s) []"
  by (simp add: ring_def link_def il_clear_def set_links)

lemma il_empty_ring: "ring h s xs \<Longrightarrow> il_empty h s \<longleftrightarrow> xs = []"
  using ring_next_prev(1) [of h s xs] by (cases xs) (auto simp: il_empty_def ring_def)

lemma il_push_back_ring:
  assumes "ring h s xs" "item \<notin> set (h # xs)"
  shows "\<exists>s'. il_push_back h s item = Inr s' \<and> ring h s' (xs @ [item])"
  using il_insert_ring [of h s xs "[]" item] assms by (auto simp: il_push_back_def)

lemma il_push_front_ring:
  assumes "ring h s xs" "item \<notin> set (h # xs)"
  shows "\<exists>s'. il_push_front h s item = Inr s' \<and> ring h s' (item # xs)"
  using il_insert_ring [of h s "[]" xs item] assms ring_next_prev(1) [OF assms(1)]
  by (auto simp: il_push_front_def not_null_def)

lemma il_pop_front_ring:
  assumes "ring h s (x # xs)"
  shows "il_front h s = x" "\<exists>s'. il_pop_front h s = Inr s' \<and> ring h s' xs"
  using il_erase_ring [of h s "[]" x xs] assms ring_next_prev(1) [OF assms]
  by (auto simp: il_pop_front_def il_front_def not_null_def)

lemma il_pop_back_ring:
  assumes "ring h s (xs @ [x])"
  shows "il_back h s = x" "\<exists>s'. il_pop_back h s = Inr s' \<and> ring h s' xs"
  using il_erase_ring [of h s xs x "[]"] assms ring_next_prev(2) [OF assms]
  by (auto simp: il_pop_back_def il_back_def not_null_def)

lemma il_move_assign_ring:
  assumes "ring n s ys" "h \<notin> set (n # ys)"
  shows "\<exists>s'. il_move_assign h n s = Inr s' \<and> ring h s' ys \<and> ring n s' []"
proof (cases ys)
  case Nil
  have "ring n (il_clear h s) []" using assms by (auto simp: Nil ring_def link_def il_clear_def set_links)
  then show ?thesis using il_empty_ring [OF assms(1)] il_clear_ring [of h s] Nil by (simp add: il_move_assign_def)
next
  case (Cons y zs)
  obtain p where p: "last (y # zs) = p" by blast
  have pys: "p \<in> set ys" using p Cons last_in_set [of "y # zs"] by auto
  have d: "distinct (n # ys)" and ch: "chain s y zs n" using assms(1) by (auto simp: ring_def Cons)
  have ends: "lprev s n = Some p" "lnext s n = Some y" using ring_next_prev [OF assms(1)] p Cons by auto
  define s' where "s' = s\<lparr>lnext := (lnext s)(p \<mapsto> h, h \<mapsto> y, n \<mapsto> n), lprev := (lprev s)(y \<mapsto> h, h \<mapsto> p, n \<mapsto> n)\<rparr>"
  then have nx: "lnext s' = (lnext s)(p \<mapsto> h, h \<mapsto> y, n \<mapsto> n)"
    and pv: "lprev s' = (lprev s)(y \<mapsto> h, h \<mapsto> p, n \<mapsto> n)" by simp_all
  have s': "il_move_assign h n s = Inr s'"
    using il_empty_ring [OF assms(1)] Cons ends
    by (simp add: il_move_assign_def not_null_def Let_def set_links il_clear_def s'_def)
  have "chain s' y zs h"
    by (rule chain_relink_last [OF ch _ p]) (use d assms(2) pys Cons in \<open>auto simp: nx pv link_def\<close>)
  moreover have "link s' h y" using d assms(2) Cons by (auto simp: nx pv link_def)
  ultimately have "ring h s' ys" using assms(2) d by (auto simp: ring_def Cons)
  moreover have "ring n s' []" by (simp add: ring_def link_def nx pv)
  ultimately show ?thesis using s' by blast
qed

text \<open>The list as a queue; \<open>ok_or\<close> takes the new state of an operation that succeeds.\<close>

definition ok_or :: "'s \<Rightarrow> 's result \<Rightarrow> 's" where
  "ok_or s r = (case r of Inl e \<Rightarrow> s | Inr s' \<Rightarrow> s')"

interpretation ilq: deque "ring h" "\<lambda>xs x. x \<notin> set (h # xs)" "\<lambda>s x. ok_or s (il_push_back h s x)"
  "\<lambda>s. ok_or s (il_pop_front h s)" "\<lambda>s. ok_or s (il_pop_back h s)" "il_front h" "il_back h" "il_empty h" for h
proof unfold_locales
  fix s xs x
  show "ring h (ok_or s (il_push_back h s x)) (xs @ [x])" if "ring h s xs" "x \<notin> set (h # xs)"
    using il_push_back_ring [OF that] by (auto simp: ok_or_def)
  show "il_front h s = x \<and> ring h (ok_or s (il_pop_front h s)) xs" if "ring h s (x # xs)"
    using il_pop_front_ring [OF that] by (auto simp: ok_or_def)
  show "il_back h s = x \<and> ring h (ok_or s (il_pop_back h s)) xs" if "ring h s (xs @ [x])"
    using il_pop_back_ring [OF that] by (auto simp: ok_or_def)
  show "il_empty h s \<longleftrightarrow> xs = []" if "ring h s xs"
    by (rule il_empty_ring [OF that])
qed

section \<open>Properties\<close>

text \<open>
  C34: Inserting before any position of the list and erasing any element keep the ring and
  have exactly that effect on the sequence; no null link is followed, the erased node is
  unlinked, and \<open>erase\<close> returns the position behind it.
\<close>

theorem intrusive_insert_erase:
  assumes "ring h s (xs @ ys)" "item \<notin> set (h # xs @ ys)"
  shows "\<exists>s1 s2. il_insert s (hd (ys @ [h])) item = Inr (s1, hd (ys @ [h])) \<and> ring h s1 (xs @ item # ys) \<and>
    il_erase s1 item = Inr (s2, hd (ys @ [h])) \<and> ring h s2 (xs @ ys) \<and> lnext s2 item = None \<and> lprev s2 item = None"
proof -
  obtain s1 where s1: "il_insert s (hd (ys @ [h])) item = Inr (s1, hd (ys @ [h]))" "ring h s1 (xs @ item # ys)"
    using il_insert_ring [OF assms] by blast
  then show ?thesis using il_erase_ring [OF s1(2)] by blast
qed

theorem intrusive_insert_erase_witness:
  "\<exists>s1 s2. il_insert (il_clear 0 \<lparr>lnext = Map.empty, lprev = Map.empty\<rparr>) 0 5 = Inr (s1, 0) \<and> ring 0 s1 [5] \<and>
    il_erase s1 5 = Inr (s2, 0) \<and> ring 0 s2 [] \<and> lnext s2 5 = None \<and> lprev s2 5 = None"
  using intrusive_insert_erase [of 0 "il_clear 0 \<lparr>lnext = Map.empty, lprev = Map.empty\<rparr>" "[]" "[]" 5]
    il_clear_ring [of 0] by simp

text \<open>
  C35: Moving a list to another head transfers its elements in order and leaves the source
  empty; a loop from \<open>begin\<close> to \<open>end\<close> then visits exactly these elements and ends.
\<close>

theorem intrusive_move_iterate:
  assumes "ring n s ys" "h \<notin> set (n # ys)"
  shows "\<exists>s'. il_move_assign h n s = Inr s' \<and> ring h s' ys \<and> il_empty n s' \<and>
    il_iterate (length ys) h s' (the (lnext s' h)) = Inr ys"
proof -
  obtain s' where s': "il_move_assign h n s = Inr s'" "ring h s' ys" "ring n s' []"
    using il_move_assign_ring [OF assms] by blast
  have "il_iterate (length ys) h s' (hd (ys @ [h])) = Inr ys"
    by (rule il_iterate_chain) (use s'(2) in \<open>auto simp: ring_def\<close>)
  then show ?thesis using s' il_empty_ring [OF s'(3)] ring_next_prev(1) [OF s'(2)] by auto
qed

theorem intrusive_move_iterate_witness:
  "\<exists>s'. il_move_assign 1 0 (il_clear 0 \<lparr>lnext = Map.empty, lprev = Map.empty\<rparr>) = Inr s' \<and> ring 1 s' [] \<and> il_empty 0 s'"
  using intrusive_move_iterate [OF il_clear_ring, of 1 0] by force

end
