(* ===== verification/Free_List.thy ===== *)
theory Free_List
  imports Prelude
begin

text \<open>
  The free list of \<^verbatim>\<open>core/freelist.h\<close>: every thread has a singly linked list of free objects
  through their \<open>next\<close> fields, and a full list hands its tail over to a shared stack of lists,
  from which a thread with an empty list takes one. Objects and threads are numbers, \<open>None\<close> is
  the null pointer, and following it is the error \<open>OutOfBounds\<close>. The mutex makes the accesses
  to the shared stack atomic; the operations are the steps between them.
\<close>

section \<open>Operations\<close>

record free_lists =
  fnext :: "nat \<Rightarrow> nat option"
  tls :: "nat \<Rightarrow> nat option \<times> nat"
  glists :: "(nat option \<times> nat) list"

definition load_next :: "free_lists \<Rightarrow> nat option \<Rightarrow> nat option result" where
  "load_next s p = (case p of None \<Rightarrow> Inl OutOfBounds | Some a \<Rightarrow> Inr (fnext s a))"

text \<open>The walk of \<open>moveToGlobal\<close> to the last node the thread keeps.\<close>

fun walk :: "nat \<Rightarrow> free_lists \<Rightarrow> nat option \<Rightarrow> nat option result" where
  "walk 0 s head = Inr head"
| "walk (Suc n) s head = bind_result (load_next s head) (\<lambda>p. walk n s p)"

definition moveToGlobal :: "free_lists \<Rightarrow> nat \<Rightarrow> nat \<Rightarrow> free_lists result" where
  "moveToGlobal s t nToKeep =
     (let newSize = (if 1 < nToKeep then nToKeep else 1);
          oldSize = snd (tls s t)
      in bind_result (walk (newSize - 1) s (fst (tls s t))) (\<lambda>head.
           bind_result (load_next s head) (\<lambda>next.
             Inr (s\<lparr>tls := (tls s)(t := (fst (tls s t), newSize)),
                    fnext := (fnext s)(the head := None),
                    glists := glists s @ [(next, oldSize - newSize)]\<rparr>))))"

definition fl_push :: "free_lists \<Rightarrow> nat \<Rightarrow> nat \<Rightarrow> nat \<Rightarrow> free_lists result" where
  "fl_push s t maxEntries value =
     bind_result (if snd (tls s t) = maxEntries then moveToGlobal s t (maxEntries div 4) else Inr s) (\<lambda>s.
       Inr (s\<lparr>tls := (tls s)(t := (Some value, snd (tls s t) + 1)),
              fnext := (fnext s)(value := fst (tls s t))\<rparr>))"

definition popSlow :: "free_lists \<Rightarrow> nat \<Rightarrow> (nat option \<times> free_lists) result" where
  "popSlow s t =
     (if glists s = [] then Inr (None, s)
      else let (r, newSize) = last (glists s)
           in bind_result (load_next s r) (\<lambda>next.
                Inr (r, s\<lparr>glists := butlast (glists s), tls := (tls s)(t := (next, newSize - 1))\<rparr>)))"

definition fl_pop :: "free_lists \<Rightarrow> nat \<Rightarrow> (nat option \<times> free_lists) result" where
  "fl_pop s t =
     (case fst (tls s t) of
        Some r \<Rightarrow> Inr (Some r, s\<lparr>tls := (tls s)(t := (fnext s r, snd (tls s t) - 1))\<rparr>)
      | None \<Rightarrow> popSlow s t)"

section \<open>Specification\<close>

text \<open>
  Seen from outside: a stack of free objects per thread and a stack of such stacks.
\<close>

type_synonym free_spec = "(nat \<Rightarrow> nat list) \<times> nat list list"

definition push_spec :: "free_spec \<Rightarrow> nat \<Rightarrow> nat \<Rightarrow> nat \<Rightarrow> free_spec" where
  "push_spec = (\<lambda>(L, G) t maxEntries value.
     if length (L t) = maxEntries
     then (let k = max 1 (maxEntries div 4) in (L(t := value # take k (L t)), G @ [drop k (L t)]))
     else (L(t := value # L t), G))"

definition pop_spec :: "free_spec \<Rightarrow> nat \<Rightarrow> nat option \<times> free_spec" where
  "pop_spec = (\<lambda>(L, G) t.
     case L t of
       x # xs \<Rightarrow> (Some x, (L(t := xs), G))
     | [] \<Rightarrow> if G = [] then (None, (L, G)) else (Some (hd (last G)), (L(t := tl (last G)), butlast G)))"

definition free_objects :: "free_spec \<Rightarrow> nat set" where
  "free_objects = (\<lambda>(L, G). (\<Union>t. set (L t)) \<union> set (concat G))"

text \<open>Every object is free at most once.\<close>

definition spec_ok :: "free_spec \<Rightarrow> bool" where
  "spec_ok = (\<lambda>(L, G).
     (\<forall>t. distinct (L t)) \<and> (\<forall>t t'. t \<noteq> t' \<longrightarrow> set (L t) \<inter> set (L t') = {}) \<and>
     distinct (concat G) \<and> (\<forall>t. set (L t) \<inter> set (concat G) = {}) \<and> [] \<notin> set G)"

section \<open>Representation\<close>

fun path :: "(nat \<Rightarrow> nat option) \<Rightarrow> nat option \<Rightarrow> nat list \<Rightarrow> bool" where
  "path nx p [] = (p = None)"
| "path nx p (x # xs) = (p = Some x \<and> path nx (nx x) xs)"

definition list_rep :: "(nat \<Rightarrow> nat option) \<Rightarrow> nat option \<times> nat \<Rightarrow> nat list \<Rightarrow> bool" where
  "list_rep nx e xs \<longleftrightarrow> path nx (fst e) xs \<and> snd e = length xs"

definition fl_rep :: "free_lists \<Rightarrow> free_spec \<Rightarrow> bool" where
  "fl_rep s = (\<lambda>(L, G). (\<forall>t. list_rep (fnext s) (tls s t) (L t)) \<and> list_all2 (list_rep (fnext s)) (glists s) G)"

lemma path_frame: "x \<notin> set xs \<Longrightarrow> path (nx(x := q)) p xs = path nx p xs"
  by (induction xs arbitrary: p) auto

lemma list_rep_frame: "x \<notin> set xs \<Longrightarrow> list_rep (nx(x := q)) e xs = list_rep nx e xs"
  by (simp add: list_rep_def path_frame)

lemma glists_frame:
  assumes "x \<notin> set (concat G)"
  shows "list_all2 (list_rep (nx(x := q))) gs G = list_all2 (list_rep nx) gs G"
  using assms
proof (induction G arbitrary: gs)
  case (Cons g G)
  then show ?case by (cases gs) (simp_all add: list_rep_frame del: fun_upd_apply split_paired_All)
qed simp

lemma walk_path:
  assumes "path (fnext s) p xs" "n < length xs"
  shows "walk n s p = Inr (Some (xs ! n)) \<and> path (fnext s) (fnext s (xs ! n)) (drop (Suc n) xs)"
  using assms
proof (induction n arbitrary: p xs)
  case 0
  then show ?case by (cases xs) auto
next
  case (Suc n)
  then obtain x ys where xs: "xs = x # ys" by (cases xs) auto
  with Suc.prems have ys: "path (fnext s) (fnext s x) ys" "n < length ys" "p = Some x" by auto
  show ?case using Suc.IH [OF ys(1,2)] by (simp add: xs ys(3) load_next_def)
qed

lemma path_cut:
  assumes "path nx p xs" "n < length xs" "distinct xs"
  shows "path (nx(xs ! n := None)) p (take (Suc n) xs)"
  using assms
proof (induction n arbitrary: p xs)
  case 0
  then show ?case by (cases xs) auto
next
  case (Suc n)
  then obtain x ys where xs: "xs = x # ys" by (cases xs) auto
  have "ys ! n \<noteq> x" using Suc.prems(2,3) nth_mem [of n ys] by (auto simp: xs)
  then show ?case using Suc by (simp add: xs)
qed

lemma moveToGlobal_rep:
  assumes rep: "fl_rep s (L, G)" and ok: "spec_ok (L, G)" and k: "k = max 1 n" "k < length (L t)"
  shows "\<exists>s'. moveToGlobal s t n = Inr s' \<and> fl_rep s' (L(t := take k (L t)), G @ [drop k (L t)])"
proof -
  let ?xs = "L t" and ?x = "L t ! (k - 1)"
  have lt: "k - 1 < length ?xs" "Suc (k - 1) = k" using k by auto
  have P: "path (fnext s) (fst (tls s t)) ?xs" "snd (tls s t) = length ?xs"
    using rep by (auto simp: fl_rep_def list_rep_def)
  note W = walk_path [OF P(1) lt(1)]
  have d: "distinct ?xs" "?x \<in> set ?xs" using ok lt(1) by (auto simp: spec_ok_def)
  have xd: "?x \<notin> set (drop k ?xs)"
    using distinct_take [OF d(1)] d(1) lt by (metis Int_iff disjoint_insert(1) id_take_nth_drop distinct.simps(2) distinct_append)
  define s' where "s' = s\<lparr>tls := (tls s)(t := (fst (tls s t), k)), fnext := (fnext s)(?x := None),
      glists := glists s @ [(fnext s ?x, length ?xs - k)]\<rparr>"
  have "moveToGlobal s t n = Inr s'"
    using W P(2) k by (auto simp: moveToGlobal_def Let_def load_next_def s'_def max_def)
  moreover have "list_rep (fnext s') (tls s' t') ((L(t := take k ?xs)) t')" for t'
  proof (cases "t' = t")
    case True
    then show ?thesis
      using path_cut [OF P(1) lt(1) d(1)] k lt(2) by (simp add: s'_def list_rep_def)
  next
    case False
    then have "?x \<notin> set (L t')" using ok d(2) by (auto simp: spec_ok_def)
    then show ?thesis using False rep by (simp add: s'_def list_rep_frame fl_rep_def)
  qed
  moreover have "list_all2 (list_rep (fnext s')) (glists s') (G @ [drop k ?xs])"
  proof -
    have "set ?xs \<inter> set (concat G) = {}" using ok by (auto simp: spec_ok_def)
    then have "?x \<notin> set (concat G)" using d(2) by blast
    then have "list_all2 (list_rep (fnext s')) (glists s) G"
      using rep glists_frame [of ?x G "fnext s" None] by (simp add: s'_def fl_rep_def)
    moreover have "list_rep (fnext s') (fnext s ?x, length ?xs - k) (drop k ?xs)"
      using W lt(2) path_frame [OF xd] by (simp add: s'_def list_rep_def)
    ultimately show ?thesis by (simp add: s'_def list_all2_appendI)
  qed
  ultimately show ?thesis by (auto simp: fl_rep_def)
qed

text \<open>The free objects with one thread's list apart.\<close>

definition others :: "(nat \<Rightarrow> nat list) \<Rightarrow> nat \<Rightarrow> nat set" where
  "others L t = (\<Union>a \<in> - {t}. set (L a))"

lemma free_objects_at: "free_objects (L, G) = set (L t) \<union> others L t \<union> set (concat G)"
  by (auto simp: free_objects_def others_def)

lemma others_upd [simp]: "others (L(t := ys)) t = others L t"
  by (auto simp: others_def)

lemma spec_ok_at:
  "spec_ok (L, G) \<longleftrightarrow> (\<forall>a. a \<noteq> t \<longrightarrow> distinct (L a)) \<and> (\<forall>a b. a \<noteq> t \<and> b \<noteq> t \<and> a \<noteq> b \<longrightarrow> set (L a) \<inter> set (L b) = {}) \<and>
     (\<forall>a. a \<noteq> t \<longrightarrow> set (L a) \<inter> set (concat G) = {}) \<and>
     distinct (L t @ concat G) \<and> set (L t) \<inter> others L t = {} \<and> [] \<notin> set G" (is "?l = ?r")
proof
  show "?l \<Longrightarrow> ?r" unfolding spec_ok_def others_def by simp blast
  assume r: ?r
  then have "set (L a) \<inter> set (L b) = {}" if "a \<noteq> b" for a b
    using that unfolding others_def by (cases "a = t"; cases "b = t") auto
  moreover have "distinct (L a)" "set (L a) \<inter> set (concat G) = {}" for a
    using r by (cases "a = t"; simp)+
  ultimately show ?l using r by (simp add: spec_ok_def)
qed

lemma spec_ok_split:
  assumes "spec_ok (L, G)" "L t = A @ B" "B \<noteq> []"
  shows "spec_ok (L(t := A), G @ [B])"
proof -
  note s = assms(1) [unfolded spec_ok_at [of _ _ t] assms(2)]
  have "set (L a) \<inter> set B = {}" if "a \<noteq> t" for a
    using s that by (auto simp: others_def)
  then have "set (L a) \<inter> set (concat (G @ [B])) = {}" if "a \<noteq> t" for a
    using s that by (simp add: Int_Un_distrib del: set_concat)
  moreover have "distinct (A @ concat (G @ [B]))" using s by auto
  moreover have "set A \<inter> others L t = {}" using s by auto
  ultimately show ?thesis
    unfolding spec_ok_at [of _ _ t] using s assms(3) by (simp del: set_concat distinct_append)
qed

lemma spec_ok_cut:
  assumes "spec_ok (L, G)" "k < length (L t)"
  shows "spec_ok (L(t := take k (L t)), G @ [drop k (L t)])"
    and "free_objects (L(t := take k (L t)), G @ [drop k (L t)]) = free_objects (L, G)"
proof -
  show "spec_ok (L(t := take k (L t)), G @ [drop k (L t)])"
    using spec_ok_split [OF assms(1), of t "take k (L t)" "drop k (L t)"] assms(2) by simp
  have "set (take k (L t)) \<union> set (drop k (L t)) = set (L t)"
    by (metis append_take_drop_id set_append)
  then show "free_objects (L(t := take k (L t)), G @ [drop k (L t)]) = free_objects (L, G)"
    unfolding free_objects_at [of _ _ t] by auto
qed

lemma cons_rep:
  fixes t :: nat
  assumes "fl_rep s (L, G)" "spec_ok (L, G)" "v \<notin> free_objects (L, G)"
  defines "s' \<equiv> s\<lparr>tls := (tls s)(t := (Some v, snd (tls s t) + 1)), fnext := (fnext s)(v := fst (tls s t))\<rparr>"
  shows "fl_rep s' (L(t := v # L t), G) \<and> spec_ok (L(t := v # L t), G) \<and>
         free_objects (L(t := v # L t), G) = insert v (free_objects (L, G))"
proof -
  have v: "v \<notin> set (L a)" "v \<notin> set (concat G)" for a using assms(3) by (auto simp: free_objects_def)
  have "list_rep (fnext s') (tls s' a) ((L(t := v # L t)) a)" for a
    using assms(1) v path_frame [OF v(1)] list_rep_frame [OF v(1)]
    by (auto simp: s'_def fl_rep_def list_rep_def)
  moreover have "list_all2 (list_rep (fnext s')) (glists s') G"
    using assms(1) glists_frame [OF v(2)] by (simp add: s'_def fl_rep_def)
  ultimately have "fl_rep s' (L(t := v # L t), G)" by (simp add: fl_rep_def)
  moreover have "spec_ok (L(t := v # L t), G)"
    using assms(2) v by (auto simp: spec_ok_def)
  moreover have "free_objects (L(t := v # L t), G) = insert v (free_objects (L, G))"
    by (auto simp: free_objects_def split: if_splits)
  ultimately show ?thesis by blast
qed

lemma fl_push_rep:
  assumes "fl_rep s S" "spec_ok S" "v \<notin> free_objects S" "2 \<le> m"
  shows "\<exists>s'. fl_push s t m v = Inr s' \<and> fl_rep s' (push_spec S t m v) \<and> spec_ok (push_spec S t m v) \<and>
              free_objects (push_spec S t m v) = insert v (free_objects S)"
proof -
  obtain L G where S: "S = (L, G)" by (cases S)
  have size: "snd (tls s t) = length (L t)" using assms(1) by (simp add: S fl_rep_def list_rep_def)
  show ?thesis
  proof (cases "length (L t) = m")
    case True
    define k where "k = max 1 (m div 4)"
    have k: "k < length (L t)" using assms(4) True by (auto simp: k_def)
    from moveToGlobal_rep [OF assms(1,2) [unfolded S] k_def k] obtain s1 where
      s1: "moveToGlobal s t (m div 4) = Inr s1" "fl_rep s1 (L(t := take k (L t)), G @ [drop k (L t)])" by blast
    note cut = spec_ok_cut [OF assms(2) [unfolded S] k]
    have "push_spec S t m v = (L(t := v # take k (L t)), G @ [drop k (L t)])"
      using True by (simp add: push_spec_def S k_def Let_def)
    then show ?thesis
      using cons_rep [OF s1(2) cut(1), of v t] s1(1) True size cut(2) assms(3)
      by (simp add: fl_push_def S)
  next
    case False
    then show ?thesis
      using cons_rep [of s L G v t] assms size by (simp add: fl_push_def push_spec_def S)
  qed
qed

lemma fl_pop_rep:
  assumes "fl_rep s S" "spec_ok S"
  shows "\<exists>s'. fl_pop s t = Inr (fst (pop_spec S t), s') \<and> fl_rep s' (snd (pop_spec S t))"
proof -
  obtain L G where S: "S = (L, G)" by (cases S)
  have P: "path (fnext s) (fst (tls s t)) (L t)" "snd (tls s t) = length (L t)"
    using assms(1) by (auto simp: S fl_rep_def list_rep_def)
  show ?thesis
  proof (cases "L t")
    case (Cons x xs)
    then show ?thesis using P assms(1) by (auto simp: S fl_pop_def pop_spec_def fl_rep_def list_rep_def)
  next
    case Nil
    show ?thesis
    proof (cases G rule: rev_cases)
      case Nil': Nil
      with assms(1) have "glists s = []" by (simp add: S fl_rep_def)
      with Nil Nil' P assms(1) show ?thesis by (simp add: S fl_pop_def popSlow_def pop_spec_def)
    next
      case (snoc G' g)
      with assms(1) obtain gs e where gs: "glists s = gs @ [e]" "list_all2 (list_rep (fnext s)) gs G'"
          "list_rep (fnext s) e g"
        by (auto simp: S fl_rep_def list_all2_append2 list_all2_Cons2)
      from assms(2) snoc obtain x xs where g: "g = x # xs" by (cases g) (auto simp: S spec_ok_def)
      show ?thesis
        using Nil snoc gs P assms(1) by (cases e)
          (auto simp: S g fl_pop_def popSlow_def pop_spec_def load_next_def fl_rep_def list_rep_def)
    qed
  qed
qed

lemma spec_ok_pop_local:
  assumes "spec_ok (L, G)" "L t = x # xs"
  shows "spec_ok (L(t := xs), G) \<and> free_objects (L(t := xs), G) = free_objects (L, G) - {x} \<and> x \<in> free_objects (L, G)"
  using assms unfolding spec_ok_at [of _ _ t] free_objects_at [of _ _ t]
  by (auto simp del: set_concat)

lemma spec_ok_pop_global:
  assumes "spec_ok (L, G @ [x # xs])" "L t = []"
  shows "spec_ok (L(t := xs), G) \<and> free_objects (L(t := xs), G) = free_objects (L, G @ [x # xs]) - {x} \<and>
         x \<in> free_objects (L, G @ [x # xs])"
proof -
  have "set (x # xs) \<inter> others L t = {}"
    using assms(1) unfolding spec_ok_at [of _ _ t] others_def by auto
  then show ?thesis
    using assms unfolding spec_ok_at [of _ _ t] free_objects_at [of _ _ t]
    by (simp del: set_concat) blast
qed

lemma pop_spec_ok:
  assumes "spec_ok S" "pop_spec S t = (r, S')"
  shows "spec_ok S' \<and> (case r of
           Some x \<Rightarrow> x \<in> free_objects S \<and> free_objects S' = free_objects S - {x}
         | None \<Rightarrow> S' = S \<and> fst S t = [] \<and> snd S = [])"
proof -
  obtain L G where S: "S = (L, G)" by (cases S)
  show ?thesis
  proof (cases "L t")
    case (Cons x xs)
    with assms(2) have "r = Some x" "S' = (L(t := xs), G)" by (simp_all add: S pop_spec_def)
    then show ?thesis using spec_ok_pop_local [OF assms(1) [unfolded S] Cons] by (simp add: S)
  next
    case Nil
    show ?thesis
    proof (cases G rule: rev_cases)
      case Nil': Nil
      with assms(2) Nil have "r = None" "S' = S" by (simp_all add: S pop_spec_def)
      then show ?thesis using assms(1) Nil Nil' by (simp add: S)
    next
      case (snoc G' g)
      with assms(1) obtain x xs where g: "g = x # xs" by (cases g) (auto simp: S spec_ok_def)
      with assms(2) Nil have "r = Some x" "S' = (L(t := xs), G')" by (simp_all add: S snoc pop_spec_def)
      then show ?thesis
        using spec_ok_pop_global [OF assms(1) [unfolded S snoc g] Nil] by (simp add: S snoc g)
    qed
  qed
qed

section \<open>Properties\<close>

text \<open>
  Pushes and pops by any threads in any order. The outputs are the objects handed out, in order.
\<close>

datatype fl_op = FPush nat nat | FPop nat

fun fl_run :: "nat \<Rightarrow> fl_op list \<Rightarrow> free_lists \<Rightarrow> (nat option list \<times> free_lists) result" where
  "fl_run m [] s = Inr ([], s)"
| "fl_run m (FPush t v # ops) s = bind_result (fl_push s t m v) (\<lambda>s. fl_run m ops s)"
| "fl_run m (FPop t # ops) s =
     bind_result (fl_pop s t) (\<lambda>(r, s). bind_result (fl_run m ops s) (\<lambda>(rs, s). Inr (r # rs, s)))"

fun spec_run :: "nat \<Rightarrow> fl_op list \<Rightarrow> free_spec \<Rightarrow> nat option list \<times> free_spec" where
  "spec_run m [] S = ([], S)"
| "spec_run m (FPush t v # ops) S = spec_run m ops (push_spec S t m v)"
| "spec_run m (FPop t # ops) S =
     (let (r, S) = pop_spec S t; (rs, S) = spec_run m ops S in (r # rs, S))"

text \<open>Only objects that are not free are pushed.\<close>

fun pushes_used :: "nat \<Rightarrow> fl_op list \<Rightarrow> free_spec \<Rightarrow> bool" where
  "pushes_used m [] S = True"
| "pushes_used m (FPush t v # ops) S = (v \<notin> free_objects S \<and> pushes_used m ops (push_spec S t m v))"
| "pushes_used m (FPop t # ops) S = pushes_used m ops (snd (pop_spec S t))"

definition fl_init :: free_lists where
  "fl_init = \<lparr>fnext = \<lambda>_. None, tls = \<lambda>_. (None, 0), glists = []\<rparr>"

lemma fl_init_rep: "fl_rep fl_init (\<lambda>_. [], [])" "spec_ok (\<lambda>_. [], [])"
  by (auto simp: fl_rep_def fl_init_def list_rep_def spec_ok_def)

lemma fl_run_rep:
  assumes "2 \<le> m" "fl_rep s S" "spec_ok S" "pushes_used m ops S"
  shows "\<exists>s'. fl_run m ops s = Inr (fst (spec_run m ops S), s') \<and> fl_rep s' (snd (spec_run m ops S)) \<and>
              spec_ok (snd (spec_run m ops S))"
  using assms(2-)
proof (induction ops arbitrary: s S)
  case (Cons c ops)
  show ?case
  proof (cases c)
    case (FPush t v)
    then show ?thesis using Cons fl_push_rep [of s S v m t] assms(1) by fastforce
  next
    case (FPop t)
    obtain r S' where p: "pop_spec S t = (r, S')" by (cases "pop_spec S t")
    from fl_pop_rep [OF Cons.prems(1,2), of t] p obtain s1 where
      s1: "fl_pop s t = Inr (r, s1)" "fl_rep s1 S'" by auto
    have "spec_ok S'" using pop_spec_ok [OF Cons.prems(2) p] by blast
    moreover have "pushes_used m ops S'" using Cons.prems(3) by (simp add: FPop p)
    ultimately obtain s' where "fl_run m ops s1 = Inr (fst (spec_run m ops S'), s')"
      "fl_rep s' (snd (spec_run m ops S'))" "spec_ok (snd (spec_run m ops S'))"
      using Cons.IH s1(2) by blast
    then show ?thesis using s1(1) by (simp add: FPop p case_prod_unfold Let_def)
  qed
qed simp

text \<open>C37: with room for at least two entries per thread, any interleaving of pushes of objects in use and
  of pops by any threads runs without following a null pointer, hands out what the stack-of-stacks
  specification hands out, and ends in linked lists that represent its state, no object free twice.\<close>

theorem free_list_refines:
  assumes "2 \<le> m" "pushes_used m ops (\<lambda>_. [], [])"
  shows "\<exists>s. fl_run m ops fl_init = Inr (fst (spec_run m ops (\<lambda>_. [], [])), s) \<and>
             fl_rep s (snd (spec_run m ops (\<lambda>_. [], []))) \<and> spec_ok (snd (spec_run m ops (\<lambda>_. [], [])))"
  using fl_run_rep [OF assms(1) fl_init_rep assms(2)] .

theorem free_list_refines_witness:
  "\<exists>s. fl_run 2 [FPush 0 5, FPush 0 6, FPush 0 7, FPop 1, FPop 0, FPop 1] fl_init = Inr ([Some 5, Some 7, None], s)"
  using free_list_refines [of 2 "[FPush 0 5, FPush 0 6, FPush 0 7, FPop 1, FPop 0, FPop 1]"]
  by (auto simp: push_spec_def pop_spec_def free_objects_def)

text \<open>C38: a pop takes one object out of the free ones and a push puts exactly its object in; a pop comes
  back empty only when the thread's list and the shared stack are both empty.\<close>

theorem free_list_conserves:
  assumes "fl_rep s S" "spec_ok S"
  shows "(\<exists>r s' S'. fl_pop s t = Inr (r, s') \<and> fl_rep s' S' \<and> spec_ok S' \<and>
           (case r of Some x \<Rightarrow> x \<in> free_objects S \<and> free_objects S' = free_objects S - {x}
                    | None \<Rightarrow> fst (tls s t) = None \<and> glists s = [])) \<and>
         (v \<notin> free_objects S \<and> 2 \<le> m \<longrightarrow>
           (\<exists>s' S'. fl_push s t m v = Inr s' \<and> fl_rep s' S' \<and> spec_ok S' \<and> free_objects S' = insert v (free_objects S)))"
    (is "?pop \<and> ?push")
proof
  obtain r S' where p: "pop_spec S t = (r, S')" by (cases "pop_spec S t")
  from fl_pop_rep [OF assms, of t] p obtain s' where s': "fl_pop s t = Inr (r, s')" "fl_rep s' S'" by auto
  have none: "fst (tls s t) = None \<and> glists s = []" if "fst S t = []" "snd S = []"
  proof -
    from that obtain L where S: "S = (L, [])" "L t = []" by (cases S) auto
    then have "list_rep (fnext s) (tls s t) []" using assms(1) by (auto simp: fl_rep_def dest: spec [of _ t])
    then show ?thesis using assms(1) by (simp add: S(1) fl_rep_def list_rep_def)
  qed
  show ?pop
    using s' pop_spec_ok [OF assms(2) p] none
    by (intro exI [of _ r] exI [of _ s'] exI [of _ S']) (simp split: option.splits)
  show ?push using fl_push_rep [OF assms] by blast
qed

theorem free_list_conserves_witness:
  "(\<exists>r s'. fl_pop fl_init 3 = Inr (r, s')) \<and> (\<exists>s'. fl_push fl_init 3 2 9 = Inr s')"
  using free_list_conserves [OF fl_init_rep, of 3 9 2] by (auto simp: free_objects_def)


end
