(* ===== verification/Store_Topology.thy ===== *)
theory Store_Topology
  imports Prelude "HOL-Library.Multiset"
begin

text \<open>
  The mesh of the store, \<open>findPaths\<close> and \<open>getBroadcastForwardRanks\<close> of
  \<^verbatim>\<open>core/store.cc\<close>: a ring, for more than four ranks with one shortcut per rank, and a
  breadth-first search for the first hop to every rank. The random parts are arguments: what
  \<open>std::ranges::shuffle\<close> does to the list of shortcuts (\<open>mix\<close>) and to the edges of every rank
  (\<open>mixrow\<close>), and the numbers drawn by the distribution, as a list that the loop consumes.
\<close>

section \<open>Building the mesh\<close>

text \<open>The lambda \<open>addedge\<close>; \<open>Vector::at\<close> throws outside the vector.\<close>

definition addedge :: "nat list list \<Rightarrow> nat \<Rightarrow> nat \<Rightarrow> nat list list result" where
  "addedge edges i e =
     (if i = e then Inr edges
      else if length edges \<le> i then Inl OutOfRange
      else if e \<in> set (edges ! i) then Inr edges
      else if length edges \<le> e then Inl OutOfRange
      else if i \<in> set (edges ! e) then Inl CheckFailed
      else Inr (edges[i := edges ! i @ [e], e := edges ! e @ [i]]))"

definition add_ring :: "nat \<Rightarrow> nat list list \<Rightarrow> nat list list result" where
  "add_ring n edges = fold_result (\<lambda>E i. addedge E i ((i + 1) mod n)) edges [0..<n]"

definition neighbors :: "nat \<Rightarrow> nat \<Rightarrow> nat \<Rightarrow> bool" where
  "neighbors n a b = (let x = (if b < a then a - b else b - a) in x = 1 \<or> x = n - 1)"

definition bad_shortcut :: "nat \<Rightarrow> nat list \<Rightarrow> nat \<Rightarrow> bool" where
  "bad_shortcut n cs i \<longleftrightarrow> cs ! i = i \<or> neighbors n i (cs ! i) \<or> cs ! (cs ! i) = i"

definition swap_at :: "nat list \<Rightarrow> nat \<Rightarrow> nat \<Rightarrow> nat list" where
  "swap_at cs i x = cs[i := cs ! x, x := cs ! i]"

text \<open>The inner \<open>while\<close> loop; \<open>OutOfFuel\<close> says that the given draws did not suffice.\<close>

fun fix_shortcut :: "nat \<Rightarrow> nat list \<Rightarrow> nat \<Rightarrow> nat list \<Rightarrow> (nat list \<times> nat list) result" where
  "fix_shortcut n draws i cs =
     (if \<not> bad_shortcut n cs i then Inr (cs, draws)
      else case draws of
        [] \<Rightarrow> Inl OutOfFuel
      | x # rest \<Rightarrow> fix_shortcut n rest i (if neighbors n x (cs ! i) then cs else swap_at cs i x))"

definition fix_shortcuts :: "nat \<Rightarrow> nat list \<Rightarrow> nat list \<Rightarrow> (nat list \<times> nat list) result" where
  "fix_shortcuts n draws cs = fold_result (\<lambda>(cs, ds) i. fix_shortcut n ds i cs) (cs, draws) [0..<n]"

definition add_shortcuts :: "nat \<Rightarrow> nat list \<Rightarrow> nat list list \<Rightarrow> nat list list result" where
  "add_shortcuts n cs edges = fold_result (\<lambda>E i. addedge E i (cs ! i)) edges [0..<n]"

definition mesh :: "(nat list \<Rightarrow> nat list) \<Rightarrow> (nat \<Rightarrow> nat list \<Rightarrow> nat list) \<Rightarrow> nat list \<Rightarrow> nat \<Rightarrow> nat list list result" where
  "mesh mix mixrow draws n =
     bind_result (add_ring n (replicate n [])) (\<lambda>E.
       bind_result
         (if 4 < n
          then bind_result (fix_shortcuts n draws (mix [0..<n])) (\<lambda>(cs, ds). add_shortcuts n cs E)
          else Inr E)
         (\<lambda>E. Inr (map (\<lambda>i. mixrow i (E ! i)) [0..<n])))"

section \<open>First hops\<close>

record node =
  ni :: nat
  nfirst :: nat
  ndistance :: nat

record bfs =
  visited :: "bool list"
  opened :: "node list"
  firsthop :: "nat list"

definition visit :: "bfs \<Rightarrow> nat \<Rightarrow> nat \<Rightarrow> nat \<Rightarrow> bfs" where
  "visit s v first distance =
     s\<lparr>visited := (visited s)[v := True], opened := opened s @ [\<lparr>ni = v, nfirst = first, ndistance = distance\<rparr>],
       firsthop := (firsthop s)[v := first]\<rparr>"

definition seed_edge :: "bfs \<Rightarrow> nat \<Rightarrow> bfs result" where
  "seed_edge s v =
     (if length (visited s) \<le> v then Inl OutOfBounds
      else if visited s ! v then Inl CheckFailed
      else Inr (visit s v v 1))"

definition relax_edge :: "node \<Rightarrow> bfs \<Rightarrow> nat \<Rightarrow> bfs result" where
  "relax_edge x s v =
     (if length (visited s) \<le> v then Inl OutOfBounds
      else if visited s ! v then Inr s
      else Inr (visit s v (nfirst x) (ndistance x + 1)))"

definition unvisited :: "bfs \<Rightarrow> nat" where
  "unvisited s = length (filter (\<lambda>b. \<not> b) (visited s))"

lemma unvisited_update:
  assumes "v < length bs" "\<not> bs ! v"
  shows "Suc (length (filter (\<lambda>b. \<not> b) (bs[v := True]))) = length (filter (\<lambda>b. \<not> b) bs)"
  using assms
proof (induction bs arbitrary: v)
  case (Cons b bs)
  then show ?case by (cases v) auto
qed simp

lemma relax_edges_measure:
  assumes "fold_result (relax_edge x) s vs = Inr s'"
  shows "unvisited s' + length (opened s') = unvisited s + length (opened s)"
  using assms
proof (induction vs arbitrary: s)
  case (Cons v vs)
  from Cons.prems obtain t where t: "relax_edge x s v = Inr t" "fold_result (relax_edge x) t vs = Inr s'"
    by (auto simp: bind_result_Inr)
  have "unvisited t + length (opened t) = unvisited s + length (opened s)"
    using t(1) unvisited_update [of v "visited s"]
    by (auto simp: relax_edge_def visit_def unvisited_def split: if_splits)
  with Cons.IH [OF t(2)] show ?case by simp
qed simp

text \<open>The search; every round takes one node from the queue.\<close>

function search :: "nat list list \<Rightarrow> bfs \<Rightarrow> bfs result" where
  "search edges s =
     (case opened s of
        [] \<Rightarrow> Inr s
      | x # rest \<Rightarrow>
          if length edges \<le> ni x then Inl OutOfBounds
          else case fold_result (relax_edge x) (s\<lparr>opened := rest\<rparr>) (edges ! ni x) of
                 Inl e \<Rightarrow> Inl e
               | Inr s' \<Rightarrow> search edges s')"
  by pat_completeness auto
termination
  by (relation "measure (\<lambda>(edges, s). unvisited s + length (opened s))")
    (auto dest!: relax_edges_measure simp: unvisited_def)

declare search.simps [simp del] fix_shortcut.simps [simp del]

definition first_hops :: "nat \<Rightarrow> nat \<Rightarrow> nat list list \<Rightarrow> nat list result" where
  "first_hops n rank edges =
     (let s = \<lparr>visited = (replicate n False)[rank := True], opened = [], firsthop = (replicate n n)[rank := rank]\<rparr>
      in bind_result (fold_result seed_edge s (edges ! rank)) (\<lambda>s.
           bind_result (search edges s) (\<lambda>s.
             if list_all id (visited s) then Inr (firsthop s) else Inl CheckFailed)))"

definition findPaths ::
  "(nat list \<Rightarrow> nat list) \<Rightarrow> (nat \<Rightarrow> nat list \<Rightarrow> nat list) \<Rightarrow> nat list \<Rightarrow> nat \<Rightarrow> nat \<Rightarrow> (nat list list \<times> nat list) result" where
  "findPaths mix mixrow draws n rank =
     bind_result (mesh mix mixrow draws n) (\<lambda>edges.
       bind_result (first_hops n rank edges) (\<lambda>hops. Inr (edges, hops)))"

definition getBroadcastForwardRanks :: "nat list \<Rightarrow> nat \<Rightarrow> nat list" where
  "getBroadcastForwardRanks hops edge = filter (\<lambda>r. hops ! r = edge) [0..<length hops]"

section \<open>Keys and ranks\<close>

definition hash_step :: "u32 \<Rightarrow> u8 \<Rightarrow> u32" where
  "hash_step r x = r * 42643801 + ucast x"

definition stringHash :: "u8 list \<Rightarrow> u32" where
  "stringHash s = foldl hash_step 524287 s mod 2147483647"

definition storeRank :: "u32 \<Rightarrow> u8 list \<Rightarrow> u32" where
  "storeRank worldSize key = stringHash key mod worldSize"

end
