(* ===== verification/Store_Mesh.thy ===== *)
theory Store_Mesh
  imports Store_Topology
begin

text \<open>
  The mesh built by \<open>findPaths\<close>: no check fails while it is built, edges go both ways, no rank
  has more than four of them, and every rank reaches every other along the ring.
\<close>

section \<open>Adding edges\<close>

definition mesh_ok :: "nat \<Rightarrow> nat list list \<Rightarrow> bool" where
  "mesh_ok n E \<longleftrightarrow> length E = n \<and>
     (\<forall>i<n. distinct (E ! i) \<and> i \<notin> set (E ! i) \<and> set (E ! i) \<subseteq> {..<n}) \<and>
     (\<forall>i<n. \<forall>j<n. j \<in> set (E ! i) \<longleftrightarrow> i \<in> set (E ! j))"

definition edge_set :: "nat list list \<Rightarrow> (nat \<times> nat) set" where
  "edge_set E = {(a, b). a < length E \<and> b \<in> set (E ! a)}"

definition both_ways :: "nat \<Rightarrow> nat \<Rightarrow> (nat \<times> nat) set" where
  "both_ways i e = (if i = e then {} else {(i, e), (e, i)})"

lemma mesh_ok_edge: "mesh_ok n E \<Longrightarrow> (a, b) \<in> edge_set E \<Longrightarrow> a < n \<and> b < n \<and> a \<noteq> b \<and> (b, a) \<in> edge_set E"
  by (auto simp: mesh_ok_def edge_set_def)

lemma mesh_ok_row:
  assumes "mesh_ok n E" "a < n"
  shows "distinct (E ! a)" "b \<in> set (E ! a) \<Longrightarrow> b < n \<and> b \<noteq> a \<and> a \<in> set (E ! b)"
proof -
  show "distinct (E ! a)" using assms by (simp add: mesh_ok_def)
  assume "b \<in> set (E ! a)"
  then have "(a, b) \<in> edge_set E" using assms by (simp add: edge_set_def mesh_ok_def)
  from mesh_ok_edge [OF assms(1) this] show "b < n \<and> b \<noteq> a \<and> a \<in> set (E ! b)" by (simp add: edge_set_def)
qed

lemma mesh_ok_sets:
  "mesh_ok n E \<longleftrightarrow> length E = n \<and> (\<forall>i<n. distinct (E ! i)) \<and>
     edge_set E \<subseteq> {..<n} \<times> {..<n} - Id \<and> sym (edge_set E)"
  by (auto simp: mesh_ok_def edge_set_def sym_def)

lemma addedge_ok:
  assumes "mesh_ok n E" "i < n" "e < n"
  shows "\<exists>E'. addedge E i e = Inr E' \<and> mesh_ok n E' \<and> edge_set E' = edge_set E \<union> both_ways i e"
proof (cases "i = e \<or> e \<in> set (E ! i)")
  case True
  then show ?thesis
    using assms by (auto simp: addedge_def both_ways_def edge_set_def mesh_ok_def)
next
  case False
  let ?E' = "E[i := E ! i @ [e], e := E ! e @ [i]]"
  have len: "length E = n" and nin: "i \<notin> set (E ! e)" using assms False by (auto simp: mesh_ok_def)
  have row: "?E' ! a = (if a = e then E ! e @ [i] else if a = i then E ! i @ [e] else E ! a)" if "a < n" for a
    using that False len by (auto simp: nth_list_update)
  have "edge_set ?E' = edge_set E \<union> both_ways i e"
    using assms False len by (auto simp: edge_set_def both_ways_def nth_list_update split: if_splits)
  moreover have "distinct (?E' ! a)" if "a < n" for a
    using that assms False nin by (auto simp: row mesh_ok_def)
  moreover have "both_ways i e \<subseteq> {..<n} \<times> {..<n} - Id" "sym (both_ways i e)"
    using assms by (auto simp: both_ways_def sym_def)
  ultimately have "mesh_ok n ?E'"
    using assms(1) len by (auto simp: mesh_ok_sets sym_Un)
  with \<open>edge_set ?E' = _\<close> show ?thesis
    using assms False nin len by (intro exI [of _ ?E']) (simp add: addedge_def)
qed

lemma add_edges_ok:
  assumes "mesh_ok n E" "\<And>i. i \<in> set is \<Longrightarrow> i < n \<and> f i < n"
  shows "\<exists>E'. fold_result (\<lambda>E i. addedge E i (f i)) E is = Inr E' \<and> mesh_ok n E' \<and>
              edge_set E' = edge_set E \<union> (\<Union>i \<in> set is. both_ways i (f i))"
  using assms
proof (induction "is" arbitrary: E)
  case (Cons i "is")
  obtain E1 where E1: "addedge E i (f i) = Inr E1" "mesh_ok n E1" "edge_set E1 = edge_set E \<union> both_ways i (f i)"
    using addedge_ok [OF Cons.prems(1), of i "f i"] Cons.prems(2) by auto
  from Cons.IH [OF E1(2)] Cons.prems(2) E1 show ?case by fastforce
qed simp

lemma mesh_ok_empty: "mesh_ok n (replicate n [])" "edge_set (replicate n []) = {}"
  by (auto simp: mesh_ok_def edge_set_def)

section \<open>The shortcuts stay a permutation\<close>

lemma swap_at_mset:
  assumes "i < length cs" "x < length cs"
  shows "mset (swap_at cs i x) = mset cs"
  using assms by (simp add: swap_at_def mset_swap)

lemma length_swap_at [simp]: "length (swap_at cs i x) = length cs"
  by (simp add: swap_at_def)

lemma fix_shortcut_mset:
  assumes "fix_shortcut n ds i cs = Inr (cs', ds')" "i < length cs" "length cs = n" "list_all (\<lambda>x. x < n) ds"
  shows "mset cs' = mset cs \<and> list_all (\<lambda>x. x < n) ds'"
  using assms
proof (induction n ds i cs rule: fix_shortcut.induct)
  case (1 n ds i cs)
  show ?case
  proof (cases "bad_shortcut n cs i")
    case False
    then show ?thesis using "1.prems" by (simp add: fix_shortcut.simps)
  next
    case True
    with "1.prems"(1) obtain x rest where ds: "ds = x # rest"
      by (subst (asm) fix_shortcut.simps) (auto split: list.splits)
    let ?cs = "if neighbors n x (cs ! i) then cs else swap_at cs i x"
    have rec: "fix_shortcut n rest i ?cs = Inr (cs', ds')"
      using "1.prems"(1) True ds by (subst (asm) fix_shortcut.simps) simp
    have len: "length ?cs = n" "mset ?cs = mset cs" using "1.prems" ds by (auto simp: swap_at_mset)
    have "mset cs' = mset ?cs \<and> list_all (\<lambda>x. x < n) ds'"
      using "1.IH" [OF _ ds rec] True "1.prems" len ds by simp
    with len show ?thesis by simp
  qed
qed

lemma fix_shortcuts_mset:
  assumes "fix_shortcuts n ds cs = Inr (cs', ds')" "length cs = n" "list_all (\<lambda>x. x < n) ds"
  shows "mset cs' = mset cs"
proof -
  let ?I = "\<lambda>(c, d). mset c = mset cs \<and> list_all (\<lambda>x. x < n) d"
  have "?I (cs', ds')"
  proof (rule fold_result_invariant [where f = "\<lambda>(cs, ds) i. fix_shortcut n ds i cs" and xs = "[0..<n]"])
    show "fold_result (\<lambda>(cs, ds) i. fix_shortcut n ds i cs) (cs, ds) [0..<n] = Inr (cs', ds')"
      using assms(1) by (simp add: fix_shortcuts_def)
    show "?I (cs, ds)" using assms by simp
  next
    fix s i s' assume I: "?I s" "i \<in> set [0..<n]" and step: "(case s of (cs, ds) \<Rightarrow> \<lambda>i. fix_shortcut n ds i cs) i = Inr s'"
    obtain c d c' d' where s: "s = (c, d)" "s' = (c', d')" by (cases s, cases s')
    have "length c = n" using I s assms(2) by (auto dest: mset_eq_length)
    with I step show "?I s'" using fix_shortcut_mset [of n d i c c' d'] s by auto
  qed
  then show ?thesis by simp
qed

section \<open>Degree and connectivity\<close>

definition ring_edges :: "nat \<Rightarrow> (nat \<times> nat) set" where
  "ring_edges n = (\<Union>i \<in> {..<n}. both_ways i ((i + 1) mod n))"

definition shortcut_edges :: "nat \<Rightarrow> nat list \<Rightarrow> (nat \<times> nat) set" where
  "shortcut_edges n cs = (\<Union>i \<in> {..<n}. both_ways i (cs ! i))"

lemma card_image_cap:
  assumes "inj_on f A" "finite A"
  shows "card {b \<in> A. f b = a} \<le> 1"
proof -
  have "finite {b \<in> A. f b = a}" using assms(2) by simp
  then show ?thesis using assms(1) by (simp add: card_le_Suc0_iff_eq inj_on_def)
qed

lemma succ_mod_inj: "inj_on (\<lambda>i. (i + 1) mod n) {..<n :: nat}"
proof (rule inj_onI)
  fix a b assume ab: "a \<in> {..<n}" "b \<in> {..<n}" "(a + 1) mod n = (b + 1) mod n"
  have "(1 + a) mod n = (1 + b) mod n" using ab(3) by simp
  from mod_add_left_cancel [OF this] ab show "a = b" by auto
qed

lemma permutation_facts:
  assumes "mset cs = mset [0..<n]"
  shows "length cs = n" "distinct cs" "set cs = {..<n}" "inj_on (\<lambda>i. cs ! i) {..<n}" "i < n \<Longrightarrow> cs ! i < n"
proof -
  show len: "length cs = n" using mset_eq_length [OF assms] by simp
  show d: "distinct cs" using mset_eq_imp_distinct_iff [OF assms] by simp
  show set: "set cs = {..<n}" using mset_eq_setD [OF assms] by (simp add: lessThan_atLeast0)
  show "inj_on (\<lambda>i. cs ! i) {..<n}" using inj_on_nth [OF d, of "{..<n}"] len by simp
  show "i < n \<Longrightarrow> cs ! i < n" using nth_mem [of i cs] unfolding len set by simp
qed

lemma ring_shortcut_degree:
  assumes "edge_set E \<subseteq> ring_edges n \<union> shortcut_edges n cs" "mset cs = mset [0..<n]" "mesh_ok n E" "a < n"
  shows "length (E ! a) \<le> 4"
proof -
  let ?s = "\<lambda>i. (i + 1) mod n" and ?c = "\<lambda>i. cs ! i"
  note inj = permutation_facts(4) [OF assms(2)]
  have "set (E ! a) \<subseteq> {?s a} \<union> {b \<in> {..<n}. ?s b = a} \<union> ({?c a} \<union> {b \<in> {..<n}. ?c b = a})"
  proof
    fix b assume "b \<in> set (E ! a)"
    then have "(a, b) \<in> ring_edges n \<union> shortcut_edges n cs"
      using assms(1,3,4) by (auto simp: edge_set_def mesh_ok_def)
    then show "b \<in> {?s a} \<union> {b \<in> {..<n}. ?s b = a} \<union> ({?c a} \<union> {b \<in> {..<n}. ?c b = a})"
      by (auto simp: ring_edges_def shortcut_edges_def both_ways_def split: if_splits)
  qed
  then have "card (set (E ! a)) \<le> card ({?s a} \<union> {b \<in> {..<n}. ?s b = a} \<union> ({?c a} \<union> {b \<in> {..<n}. ?c b = a}))"
    by (intro card_mono) auto
  also have "\<dots> \<le> (card {?s a} + card {b \<in> {..<n}. ?s b = a}) + (card {?c a} + card {b \<in> {..<n}. ?c b = a})"
    by (meson add_mono card_Un_le le_trans)
  also have "\<dots> \<le> 4" using card_image_cap [OF succ_mod_inj finite_lessThan, of n a] card_image_cap [OF inj finite_lessThan, of a] by simp
  finally show ?thesis using assms(3,4) distinct_card [of "E ! a"] by (simp add: mesh_ok_def)
qed

text \<open>Along the ring every rank is reached from every other.\<close>

lemma ring_step: "a < n \<Longrightarrow> (a, (a + 1) mod n) \<in> (ring_edges n)\<^sup>*"
  by (cases "a = (a + 1) mod n") (auto simp: ring_edges_def both_ways_def intro!: r_into_rtrancl)

lemma ring_from_zero: "b < n \<Longrightarrow> (0, b) \<in> (ring_edges n)\<^sup>*"
proof (induction b)
  case (Suc b)
  then show ?case using ring_step [of b n] by (force intro: rtrancl_trans)
qed simp

lemma sym_ring: "sym (ring_edges n)"
  by (auto simp: ring_edges_def both_ways_def sym_def split: if_splits)

lemma ring_connected: "a < n \<Longrightarrow> b < n \<Longrightarrow> (a, b) \<in> (ring_edges n)\<^sup>*"
  using ring_from_zero [of a n] ring_from_zero [of b n] sym_rtrancl [OF sym_ring, of n]
  by (meson rtrancl_trans symD)

section \<open>The mesh\<close>

definition connected :: "nat \<Rightarrow> nat list list \<Rightarrow> bool" where
  "connected n E \<longleftrightarrow> (\<forall>a<n. \<forall>b<n. (a, b) \<in> (edge_set E)\<^sup>*)"

lemma permuted_rows:
  assumes "mesh_ok n E" "\<And>i xs. mset (mixrow i xs) = mset xs"
  defines "E' \<equiv> map (\<lambda>i. mixrow i (E ! i)) [0..<n]"
  shows "mesh_ok n E'" "edge_set E' = edge_set E" "i < n \<Longrightarrow> length (E' ! i) = length (E ! i)"
proof -
  have s: "set (mixrow i xs) = set xs" "length (mixrow i xs) = length xs" "distinct (mixrow i xs) = distinct xs" for i xs
    using assms(2) by (metis set_mset_mset, metis size_mset, metis mset_eq_imp_distinct_iff)
  show "edge_set E' = edge_set E" "i < n \<Longrightarrow> length (E' ! i) = length (E ! i)"
    using assms(1) by (auto simp: E'_def edge_set_def s mesh_ok_def)
  then show "mesh_ok n E'" using assms(1) unfolding mesh_ok_sets by (simp add: E'_def s)
qed

lemma add_ring_ok:
  assumes "0 < n"
  shows "\<exists>E. add_ring n (replicate n []) = Inr E \<and> mesh_ok n E \<and> edge_set E = ring_edges n"
  using add_edges_ok [OF mesh_ok_empty(1), of "[0..<n]" n "\<lambda>i. (i + 1) mod n"] assms
  by (simp add: add_ring_def mesh_ok_empty(2) ring_edges_def lessThan_atLeast0)

lemma add_shortcuts_ok:
  assumes "mesh_ok n E" "mset cs = mset [0..<n]"
  shows "\<exists>E'. add_shortcuts n cs E = Inr E' \<and> mesh_ok n E' \<and> edge_set E' = edge_set E \<union> shortcut_edges n cs"
  using add_edges_ok [OF assms(1), of "[0..<n]" "\<lambda>i. cs ! i"] permutation_facts(5) [OF assms(2)]
  by (simp add: add_shortcuts_def shortcut_edges_def lessThan_atLeast0)

lemma fix_shortcut_error: "fix_shortcut n ds i cs = Inl e \<Longrightarrow> e = OutOfFuel"
proof (induction ds arbitrary: cs)
  case (Cons x ds)
  show ?case
  proof (cases "bad_shortcut n cs i")
    case True
    show ?thesis
      using Cons.prems Cons.IH [of "if neighbors n x (cs ! i) then cs else swap_at cs i x"] True
      unfolding fix_shortcut.simps [of n "x # ds"] by simp
  qed (use Cons.prems in \<open>simp add: fix_shortcut.simps\<close>)
qed (simp add: fix_shortcut.simps split: if_splits)

lemma fix_shortcuts_error:
  assumes "fix_shortcuts n ds cs = Inl e"
  shows "e = OutOfFuel"
proof -
  have "fold_result (\<lambda>(cs, ds) i. fix_shortcut n ds i cs) s is = Inl e \<Longrightarrow> e = OutOfFuel" for s "is"
  proof (induction "is" arbitrary: s)
    case (Cons i "is")
    then show ?case
      by (cases s; cases "fix_shortcut n (snd s) i (fst s)") (auto dest: fix_shortcut_error)
  qed simp
  with assms show ?thesis by (simp add: fix_shortcuts_def)
qed

lemma connected_mono:
  assumes "ring_edges n \<subseteq> edge_set E"
  shows "connected n E"
  using ring_connected [of _ n] rtrancl_mono [OF assms] by (auto simp: connected_def)

definition good_mesh :: "nat \<Rightarrow> nat list list \<Rightarrow> bool" where
  "good_mesh n E \<longleftrightarrow> mesh_ok n E \<and> connected n E \<and> (\<forall>a<n. length (E ! a) \<le> 4)"

lemma good_meshI:
  assumes "mesh_ok n E" "ring_edges n \<subseteq> edge_set E" "edge_set E \<subseteq> ring_edges n \<union> shortcut_edges n cs" "mset cs = mset [0..<n]"
  shows "good_mesh n E"
  using assms connected_mono [OF assms(2)] ring_shortcut_degree [OF assms(3,4,1)] by (simp add: good_mesh_def)

lemma mesh_correct:
  assumes "0 < n" "\<And>xs. mset (mix xs) = mset xs" "\<And>i xs. mset (mixrow i xs) = mset xs" "list_all (\<lambda>x. x < n) draws"
  shows "mesh mix mixrow draws n = Inl OutOfFuel \<and> 4 < n \<and> fix_shortcuts n draws (mix [0..<n]) = Inl OutOfFuel \<or>
         (\<exists>E. mesh mix mixrow draws n = Inr E \<and> good_mesh n E)"
proof -
  obtain E where E: "add_ring n (replicate n []) = Inr E" "mesh_ok n E" "edge_set E = ring_edges n"
    using add_ring_ok [OF assms(1)] by blast
  have rows: "good_mesh n (map (\<lambda>i. mixrow i (E' ! i)) [0..<n])"
    if "mesh_ok n E'" "ring_edges n \<subseteq> edge_set E'" "edge_set E' \<subseteq> ring_edges n \<union> shortcut_edges n cs" "mset cs = mset [0..<n]"
    for E' cs
    using good_meshI [of n "map (\<lambda>i. mixrow i (E' ! i)) [0..<n]" cs] permuted_rows [of n E' mixrow, OF that(1) assms(3)] that by simp
  show ?thesis
  proof (cases "4 < n")
    case False
    then show ?thesis using E rows [OF E(2), of "[0..<n]"] by (simp add: mesh_def)
  next
    case True
    show ?thesis
    proof (cases "fix_shortcuts n draws (mix [0..<n])")
      case (Inl e)
      then show ?thesis using E True fix_shortcuts_error [OF Inl] by (simp add: mesh_def)
    next
      case (Inr r)
      obtain cs ds where r: "r = (cs, ds)" by (cases r)
      have cs: "mset cs = mset [0..<n]"
        using fix_shortcuts_mset [OF Inr [unfolded r]] assms(2,4) by (metis length_upt minus_nat.diff_0 size_mset)
      obtain E' where "add_shortcuts n cs E = Inr E'" "mesh_ok n E'" "edge_set E' = edge_set E \<union> shortcut_edges n cs"
        using add_shortcuts_ok [OF E(2) cs] by blast
      then show ?thesis using E True Inr r rows [of E' cs] cs by (simp add: mesh_def)
    qed
  qed
qed

section \<open>The shortcut loop can finish\<close>

text \<open>
  From seven ranks on there is always a draw, or one draw that leads to it, with which the inner
  loop ends: fewer than seven values are ruled out.
\<close>

lemma neighbors_sym: "neighbors n a b = neighbors n b a"
  by (auto simp: neighbors_def Let_def)

lemma card_neighbors:
  assumes "c < n" "2 \<le> n"
  shows "card {x \<in> {..<n}. neighbors n x c} \<le> 2"
proof -
  have "{x \<in> {..<n}. neighbors n x c} \<subseteq> {if c + 1 < n then c + 1 else 0, if c = 0 then n - 1 else c - 1}"
    using assms by (auto simp: neighbors_def Let_def split: if_splits)
  then have "card {x \<in> {..<n}. neighbors n x c} \<le> card {if c + 1 < n then c + 1 else 0, if c = 0 then n - 1 else c - 1}"
    by (rule card_mono [rotated]) simp
  also have "\<dots> \<le> 2" by (simp add: card_insert_if)
  finally show ?thesis .
qed

lemma card_preimage:
  assumes "mset cs = mset [0..<n]" "finite A"
  shows "card {x \<in> {..<n}. cs ! x \<in> A} \<le> card A"
proof (rule card_inj_on_le [OF _ _ assms(2)])
  show "inj_on (\<lambda>i. cs ! i) {x \<in> {..<n}. cs ! x \<in> A}"
    using permutation_facts(4) [OF assms(1)] by (rule inj_on_subset) auto
qed auto

lemma good_draw:
  assumes cs: "mset cs = mset [0..<n]" and i: "i < n" "7 \<le> n" and bad: "bad_shortcut n cs i" "cs ! i \<noteq> i"
  shows "\<exists>x<n. \<not> neighbors n x (cs ! i) \<and> \<not> bad_shortcut n (swap_at cs i x) i"
proof -
  note pf = permutation_facts [OF cs]
  let ?c = "cs ! i"
  have c: "?c < n" using pf(5) i by simp
  obtain t0 where t0: "t0 < n" "cs ! t0 = i" using pf(1,3) i by (metis in_set_conv_nth lessThan_iff)
  let ?N = "{t \<in> {..<n}. neighbors n t i}"
  let ?A = "?N \<union> {i, t0}"
  let ?B = "{x \<in> {..<n}. neighbors n x ?c} \<union> {x \<in> {..<n}. cs ! x \<in> ?A}"
  have "card ?A \<le> card ?N + card {i, t0}" by (rule card_Un_le)
  also have "\<dots> \<le> 2 + 2" using card_neighbors [of i n] i by (intro add_mono) (auto simp: card_insert_if)
  finally have "card ?A \<le> 4" by simp
  then have "card {x \<in> {..<n}. cs ! x \<in> ?A} \<le> 4" using card_preimage [OF cs, of ?A] by simp
  moreover have "card ?B \<le> card {x \<in> {..<n}. neighbors n x ?c} + card {x \<in> {..<n}. cs ! x \<in> ?A}" by (rule card_Un_le)
  ultimately have "card ?B < card {..<n}" using card_neighbors [OF c] i by simp
  then have "\<not> {..<n} \<subseteq> ?B" using card_mono [of ?B "{..<n}"] by fastforce
  then obtain x where x: "x < n" "x \<notin> ?B" by blast
  let ?t = "cs ! x"
  have "?t < n" using x(1) pf(5) by simp
  moreover have "?t \<notin> ?A" "\<not> neighbors n x ?c" using x by blast+
  ultimately have t: "?t < n" "?t \<noteq> i" "?t \<noteq> t0" "\<not> neighbors n i ?t" "\<not> neighbors n x ?c"
    by (simp_all add: neighbors_sym [of n i])
  have "x \<noteq> i"
  proof
    assume "x = i"
    with t(5) bad have "cs ! ?c = i" by (auto simp: bad_shortcut_def)
    then have "?c = t0" using t0 c pf(1,2) by (metis nth_eq_iff_index_eq)
    with \<open>x = i\<close> t(3) show False by simp
  qed
  then have "swap_at cs i x ! i = ?t" "swap_at cs i x ! x = ?c"
    using x(1) i pf(1) by (simp_all add: swap_at_def)
  moreover have "cs ! ?t \<noteq> i" using t t0 pf(1,2) by (metis nth_eq_iff_index_eq)
  then have "swap_at cs i x ! ?t \<noteq> i"
    using bad(2) t \<open>x \<noteq> i\<close> pf(1) by (cases "?t = x") (simp_all add: swap_at_def)
  ultimately have "\<not> bad_shortcut n (swap_at cs i x) i" using t by (simp add: bad_shortcut_def)
  with x(1) t(5) show ?thesis by blast
qed

lemma fix_shortcut_done: "\<not> bad_shortcut n cs i \<Longrightarrow> fix_shortcut n ds i cs = Inr (cs, ds)"
  by (simp add: fix_shortcut.simps)

lemma fix_shortcut_draw:
  assumes "bad_shortcut n cs i" "\<not> neighbors n x (cs ! i)"
  shows "fix_shortcut n (x # ds) i cs = fix_shortcut n ds i (swap_at cs i x)"
  using assms by (simp add: fix_shortcut.simps [of n "x # ds"])

lemma fix_shortcut_moved:
  assumes "mset cs = mset [0..<n]" "i < n" "7 \<le> n" "cs ! i \<noteq> i"
  shows "\<exists>ds cs'. list_all (\<lambda>x. x < n) ds \<and> mset cs' = mset [0..<n] \<and>
           (\<forall>rest. fix_shortcut n (ds @ rest) i cs = Inr (cs', rest))"
proof (cases "bad_shortcut n cs i")
  case False
  then show ?thesis using assms(1) by (intro exI [of _ "[]"] exI [of _ cs]) (simp add: fix_shortcut_done)
next
  case True
  then obtain x where x: "x < n" "\<not> neighbors n x (cs ! i)" "\<not> bad_shortcut n (swap_at cs i x) i"
    using good_draw [OF assms(1-3) _ assms(4)] by blast
  have "mset (swap_at cs i x) = mset [0..<n]"
    using swap_at_mset [of i cs x] permutation_facts(1) [OF assms(1)] assms(1,2) x(1) by simp
  then show ?thesis
    using x True by (intro exI [of _ "[x]"] exI [of _ "swap_at cs i x"]) (simp add: fix_shortcut_draw fix_shortcut_done)
qed

lemma fix_shortcut_finishes:
  assumes "mset cs = mset [0..<n]" "i < n" "7 \<le> n"
  shows "\<exists>ds cs'. list_all (\<lambda>x. x < n) ds \<and> mset cs' = mset [0..<n] \<and>
           (\<forall>rest. fix_shortcut n (ds @ rest) i cs = Inr (cs', rest))"
proof (cases "cs ! i = i")
  case False
  then show ?thesis using fix_shortcut_moved assms by blast
next
  case True
  define x where "x = (i + 3) mod n"
  have x: "x < n" "x \<noteq> i" "\<not> neighbors n x i"
    using assms(2,3) by (auto simp: x_def neighbors_def Let_def mod_if split: if_splits)
  note pf = permutation_facts [OF assms(1)]
  have "mset (swap_at cs i x) = mset [0..<n]" using swap_at_mset [of i cs x] pf(1) assms x(1) by simp
  moreover have "swap_at cs i x ! i = cs ! x" using x assms(2) pf(1) by (simp add: swap_at_def)
  moreover have "cs ! x \<noteq> i" using True x assms(2) pf(1,2) by (metis nth_eq_iff_index_eq)
  ultimately obtain ds cs' where ds: "list_all (\<lambda>x. x < n) ds" "mset cs' = mset [0..<n]"
      "\<And>rest. fix_shortcut n (ds @ rest) i (swap_at cs i x) = Inr (cs', rest)"
    using fix_shortcut_moved [of "swap_at cs i x" n i] assms by auto
  have "bad_shortcut n cs i" using True by (simp add: bad_shortcut_def)
  then show ?thesis
    using ds x True by (intro exI [of _ "x # ds"] exI [of _ cs']) (simp add: fix_shortcut_draw)
qed

lemma fix_shortcuts_finish:
  assumes "7 \<le> n" "\<And>i. i \<in> set is \<Longrightarrow> i < n" "mset cs = mset [0..<n]"
  shows "\<exists>ds cs'. list_all (\<lambda>x. x < n) ds \<and>
           (\<forall>rest. fold_result (\<lambda>(cs, ds) i. fix_shortcut n ds i cs) (cs, ds @ rest) is = Inr (cs', rest))"
  using assms(2,3)
proof (induction "is" arbitrary: cs)
  case (Cons i "is")
  obtain d1 c1 where 1: "list_all (\<lambda>x. x < n) d1" "mset c1 = mset [0..<n]"
      "\<And>rest. fix_shortcut n (d1 @ rest) i cs = Inr (c1, rest)"
    using fix_shortcut_finishes [of cs n i] Cons.prems assms(1) by auto
  obtain d2 c2 where 2: "list_all (\<lambda>x. x < n) d2"
      "\<And>rest. fold_result (\<lambda>(cs, ds) i. fix_shortcut n ds i cs) (c1, d2 @ rest) is = Inr (c2, rest)"
    using Cons.IH [OF _ 1(2)] Cons.prems(1) by auto
  show ?case using 1 2 by (intro exI [of _ "d1 @ d2"] exI [of _ c2]) simp
qed (auto intro: exI [of _ "[]"])

end
