(* ===== verification/Store_Paths.thy ===== *)
theory Store_Paths
  imports Store_Mesh
begin

text \<open>
  The breadth-first search of \<open>findPaths\<close>: it ends, reaches every rank of a connected mesh, and the
  first hop it records lies on a shortest path.
\<close>

section \<open>Distance\<close>

definition dist :: "(nat \<times> nat) set \<Rightarrow> nat \<Rightarrow> nat \<Rightarrow> nat" where
  "dist R a b = (LEAST k. (a, b) \<in> R ^^ k)"

lemma dist_le: "(a, b) \<in> R ^^ k \<Longrightarrow> dist R a b \<le> k"
  by (simp add: dist_def Least_le)

lemma dist_path: "(a, b) \<in> R\<^sup>* \<Longrightarrow> (a, b) \<in> R ^^ dist R a b"
  unfolding dist_def rtrancl_power by (rule LeastI_ex) blast

lemma dist_self [simp]: "dist R a a = 0"
  using dist_le [of a a 0 R] by simp

lemma dist_zero: "(a, b) \<in> R\<^sup>* \<Longrightarrow> dist R a b = 0 \<Longrightarrow> a = b"
  using dist_path [of a b R] by simp

lemma dist_step: "(a, b) \<in> R\<^sup>* \<Longrightarrow> (b, c) \<in> R \<Longrightarrow> dist R a c \<le> Suc (dist R a b)"
  by (rule dist_le) (auto intro: dist_path)

lemma dist_pred:
  assumes "(a, c) \<in> R\<^sup>*" "dist R a c = Suc k"
  shows "\<exists>b. (a, b) \<in> R ^^ k \<and> (b, c) \<in> R \<and> dist R a b = k"
proof -
  from dist_path [OF assms(1)] assms(2) obtain b where b: "(a, b) \<in> R ^^ k" "(b, c) \<in> R" by auto
  have "(a, b) \<in> R\<^sup>*" using b(1) by (auto simp: rtrancl_power)
  then have "dist R a b = k" using dist_le [OF b(1)] dist_step [OF _ b(2), of a] assms(2) by simp
  with b show ?thesis by blast
qed

lemma dist_first:
  assumes "(a, f) \<in> R" "(f, c) \<in> R ^^ k" "dist R a c = Suc k"
  shows "dist R f c = k"
proof -
  have "dist R f c \<le> k" using assms(2) by (rule dist_le)
  moreover have "(f, c) \<in> R ^^ dist R f c" using assms(2) by (intro dist_path) (auto simp: rtrancl_power)
  then have "(a, c) \<in> R ^^ Suc (dist R f c)" by (rule relpow_Suc_I2 [OF assms(1)])
  then have "dist R a c \<le> Suc (dist R f c)" by (rule dist_le)
  ultimately show ?thesis using assms(3) by simp
qed

section \<open>One round of the search\<close>

lemma relax_edges:
  assumes "\<And>v. v \<in> set vs \<Longrightarrow> v < length (visited s)" "length (firsthop s) = length (visited s)"
  shows "\<exists>new. set new = {v \<in> set vs. \<not> visited s ! v} \<and>
     fold_result (relax_edge x) s vs = Inr \<lparr>
       visited = map (\<lambda>v. visited s ! v \<or> v \<in> set vs) [0..<length (visited s)],
       opened = opened s @ map (\<lambda>v. \<lparr>ni = v, nfirst = nfirst x, ndistance = ndistance x + 1\<rparr>) new,
       firsthop = map (\<lambda>v. if v \<in> set new then nfirst x else firsthop s ! v) [0..<length (visited s)]\<rparr>"
  using assms
proof (induction vs arbitrary: s)
  case Nil
  have "map (\<lambda>v. visited s ! v) [0..<length (visited s)] = visited s"
    "map (\<lambda>v. firsthop s ! v) [0..<length (visited s)] = firsthop s"
    using map_nth [of "visited s"] map_nth [of "firsthop s"] Nil(2) by simp_all
  then show ?case by simp
next
  case (Cons v vs)
  show ?case
  proof (cases "visited s ! v")
    case True
    then have "relax_edge x s v = Inr s" using Cons.prems by (simp add: relax_edge_def not_le)
    moreover obtain new where new: "set new = {v \<in> set vs. \<not> visited s ! v}"
       "fold_result (relax_edge x) s vs = Inr \<lparr>
         visited = map (\<lambda>v. visited s ! v \<or> v \<in> set vs) [0..<length (visited s)],
         opened = opened s @ map (\<lambda>v. \<lparr>ni = v, nfirst = nfirst x, ndistance = ndistance x + 1\<rparr>) new,
         firsthop = map (\<lambda>v. if v \<in> set new then nfirst x else firsthop s ! v) [0..<length (visited s)]\<rparr>"
      using Cons.IH [of s] Cons.prems by auto
    moreover have "map (\<lambda>w. visited s ! w \<or> w \<in> set vs) [0..<length (visited s)]
        = map (\<lambda>w. visited s ! w \<or> w \<in> set (v # vs)) [0..<length (visited s)]"
      using True by auto
    ultimately show ?thesis using True by (intro exI [of _ new]) auto
  next
    case False
    let ?s = "visit s v (nfirst x) (ndistance x + 1)"
    have v: "v < length (visited s)" using Cons.prems by simp
    then have r: "relax_edge x s v = Inr ?s" using False by (simp add: relax_edge_def)
    obtain new where new: "set new = {w \<in> set vs. \<not> visited ?s ! w}"
       "fold_result (relax_edge x) ?s vs = Inr \<lparr>
         visited = map (\<lambda>w. visited ?s ! w \<or> w \<in> set vs) [0..<length (visited ?s)],
         opened = opened ?s @ map (\<lambda>v. \<lparr>ni = v, nfirst = nfirst x, ndistance = ndistance x + 1\<rparr>) new,
         firsthop = map (\<lambda>w. if w \<in> set new then nfirst x else firsthop ?s ! w) [0..<length (visited ?s)]\<rparr>"
      using Cons.IH [of ?s] Cons.prems by (auto simp: visit_def)
    have "set (v # new) = {w \<in> set (v # vs). \<not> visited s ! w}"
      using new(1) False v by (auto simp: visit_def nth_list_update)
    moreover have "map (\<lambda>w. visited ?s ! w \<or> w \<in> set vs) [0..<length (visited ?s)]
        = map (\<lambda>w. visited s ! w \<or> w \<in> set (v # vs)) [0..<length (visited s)]"
      using v by (auto simp: visit_def nth_list_update)
    moreover have "map (\<lambda>w. if w \<in> set new then nfirst x else firsthop ?s ! w) [0..<length (visited ?s)]
        = map (\<lambda>w. if w \<in> set (v # new) then nfirst x else firsthop s ! w) [0..<length (visited s)]"
      using v Cons.prems(2) by (auto simp: visit_def nth_list_update)
    ultimately show ?thesis
      using r new(2) by (intro exI [of _ "v # new"]) (simp add: visit_def)
  qed
qed

section \<open>The invariant\<close>

definition hop_ok :: "(nat \<times> nat) set \<Rightarrow> nat \<Rightarrow> nat \<Rightarrow> nat \<Rightarrow> bool" where
  "hop_ok R r f v \<longleftrightarrow> (r, f) \<in> R \<and> (\<exists>k. dist R r v = Suc k \<and> (f, v) \<in> R ^^ k)"

definition graph_ok :: "nat \<Rightarrow> (nat \<times> nat) set \<Rightarrow> nat \<Rightarrow> bool" where
  "graph_ok n R r \<longleftrightarrow> R \<subseteq> {..<n} \<times> {..<n} \<and> (\<forall>v<n. (r, v) \<in> R\<^sup>*) \<and> r < n"

definition sizes_ok :: "nat \<Rightarrow> nat \<Rightarrow> bfs \<Rightarrow> bool" where
  "sizes_ok n r s \<longleftrightarrow> length (visited s) = n \<and> length (firsthop s) = n \<and> visited s ! r \<and> firsthop s ! r = r"

definition hops_ok :: "nat \<Rightarrow> (nat \<times> nat) set \<Rightarrow> nat \<Rightarrow> bfs \<Rightarrow> bool" where
  "hops_ok n R r s \<longleftrightarrow> (\<forall>v<n. visited s ! v \<and> v \<noteq> r \<longrightarrow> hop_ok R r (firsthop s ! v) v)"

definition entry_ok :: "nat \<Rightarrow> (nat \<times> nat) set \<Rightarrow> nat \<Rightarrow> bfs \<Rightarrow> node \<Rightarrow> bool" where
  "entry_ok n R r s x \<longleftrightarrow> ni x < n \<and> visited s ! ni x \<and> ni x \<noteq> r \<and> ndistance x = dist R r (ni x) \<and>
     nfirst x = firsthop s ! ni x"

definition window :: "nat \<Rightarrow> node list \<Rightarrow> bool" where
  "window k xs \<longleftrightarrow> sorted (map ndistance xs) \<and> (\<forall>x \<in> set xs. k \<le> ndistance x \<and> ndistance x \<le> Suc k)"

definition closed_below :: "nat \<Rightarrow> (nat \<times> nat) set \<Rightarrow> bfs \<Rightarrow> bool" where
  "closed_below n R s \<longleftrightarrow> (\<forall>u v. u < n \<and> visited s ! u \<and> u \<notin> ni ` set (opened s) \<and> (u, v) \<in> R \<longrightarrow> visited s ! v)"

definition level_ok :: "nat \<Rightarrow> (nat \<times> nat) set \<Rightarrow> nat \<Rightarrow> bfs \<Rightarrow> nat \<Rightarrow> bool" where
  "level_ok n R r s k \<longleftrightarrow> (\<forall>v<n. dist R r v \<le> k \<longrightarrow> visited s ! v)"

definition search_inv :: "nat \<Rightarrow> (nat \<times> nat) set \<Rightarrow> nat \<Rightarrow> bfs \<Rightarrow> bool" where
  "search_inv n R r s \<longleftrightarrow> sizes_ok n r s \<and> hops_ok n R r s \<and> (\<forall>x \<in> set (opened s). entry_ok n R r s x) \<and>
     closed_below n R s \<and>
     (opened s \<noteq> [] \<longrightarrow> window (ndistance (hd (opened s))) (opened s) \<and> level_ok n R r s (ndistance (hd (opened s))))"

text \<open>What one round does to the state.\<close>

definition new_node :: "node \<Rightarrow> nat \<Rightarrow> node" where
  "new_node x v = \<lparr>ni = v, nfirst = nfirst x, ndistance = ndistance x + 1\<rparr>"

lemma new_node_simps [simp]: "ni (new_node x v) = v" "nfirst (new_node x v) = nfirst x" "ndistance (new_node x v) = Suc (ndistance x)"
  by (simp_all add: new_node_def)

definition expands :: "nat \<Rightarrow> (nat \<times> nat) set \<Rightarrow> nat \<Rightarrow> bfs \<Rightarrow> node \<Rightarrow> node list \<Rightarrow> nat list \<Rightarrow> bfs \<Rightarrow> bool" where
  "expands n R r s x rest new s' \<longleftrightarrow> graph_ok n R r \<and> search_inv n R r s \<and> opened s = x # rest \<and>
     set new = {v. (ni x, v) \<in> R \<and> \<not> visited s ! v} \<and>
     length (visited s') = n \<and> length (firsthop s') = n \<and>
     (\<forall>v<n. visited s' ! v \<longleftrightarrow> visited s ! v \<or> (ni x, v) \<in> R) \<and>
     (\<forall>v<n. firsthop s' ! v = (if v \<in> set new then nfirst x else firsthop s ! v)) \<and>
     opened s' = rest @ map (new_node x) new"

lemma expandsI:
  assumes "graph_ok n R r" "search_inv n R r s" "opened s = x # rest" "set vs = R `` {ni x}"
  shows "\<exists>new s'. fold_result (relax_edge x) (s\<lparr>opened := rest\<rparr>) vs = Inr s' \<and> expands n R r s x rest new s'"
proof -
  have len: "length (visited s) = n" "length (firsthop s) = n" using assms(2) by (auto simp: search_inv_def sizes_ok_def)
  have "\<And>v. v \<in> set vs \<Longrightarrow> v < n" using assms(1,4) by (auto simp: graph_ok_def)
  then obtain new where "set new = {v \<in> set vs. \<not> visited s ! v}"
    "fold_result (relax_edge x) (s\<lparr>opened := rest\<rparr>) vs = Inr \<lparr>
       visited = map (\<lambda>v. visited s ! v \<or> v \<in> set vs) [0..<n],
       opened = rest @ map (new_node x) new,
       firsthop = map (\<lambda>v. if v \<in> set new then nfirst x else firsthop s ! v) [0..<n]\<rparr>"
    using relax_edges [of vs "s\<lparr>opened := rest\<rparr>" x] len unfolding new_node_def by auto
  then show ?thesis
    using assms by (intro exI [of _ new] exI conjI) (assumption, simp add: expands_def)
qed

lemma expands_head:
  assumes "expands n R r s x rest new s'"
  shows "entry_ok n R r s x" "\<And>y. y \<in> set rest \<Longrightarrow> entry_ok n R r s y"
    "sorted (map ndistance rest)" "\<And>y. y \<in> set rest \<Longrightarrow> ndistance x \<le> ndistance y \<and> ndistance y \<le> Suc (ndistance x)"
    "level_ok n R r s (ndistance x)" "sizes_ok n r s" "hops_ok n R r s" "closed_below n R s"
proof -
  have inv: "search_inv n R r s" and op: "opened s = x # rest" using assms by (simp_all add: expands_def)
  show "entry_ok n R r s x" "\<And>y. y \<in> set rest \<Longrightarrow> entry_ok n R r s y"
    "sorted (map ndistance rest)" "\<And>y. y \<in> set rest \<Longrightarrow> ndistance x \<le> ndistance y \<and> ndistance y \<le> Suc (ndistance x)"
    "level_ok n R r s (ndistance x)" "sizes_ok n r s" "hops_ok n R r s" "closed_below n R s"
    using inv by (simp_all add: search_inv_def op window_def)
qed

lemma expands_graph:
  assumes "expands n R r s x rest new s'"
  shows "(a, b) \<in> R \<Longrightarrow> a < n \<and> b < n" "v < n \<Longrightarrow> (r, v) \<in> R\<^sup>*" "r < n"
  using assms by (auto simp: expands_def graph_ok_def)

lemma expands_visited:
  "expands n R r s x rest new s' \<Longrightarrow> v < n \<Longrightarrow> visited s' ! v \<longleftrightarrow> visited s ! v \<or> (ni x, v) \<in> R"
  by (simp add: expands_def)

lemma expands_firsthop:
  "expands n R r s x rest new s' \<Longrightarrow> v < n \<Longrightarrow> firsthop s' ! v = (if v \<in> set new then nfirst x else firsthop s ! v)"
  by (simp add: expands_def)

lemma expands_new:
  assumes e: "expands n R r s x rest new s'" and v: "v \<in> set new"
  shows "dist R r v = Suc (ndistance x)" "v < n" "v \<noteq> r" "(ni x, v) \<in> R" "\<not> visited s ! v"
proof -
  show v': "(ni x, v) \<in> R" "\<not> visited s ! v" using e v by (auto simp: expands_def)
  then show n: "v < n" using expands_graph [OF e] by blast
  have x: "ndistance x = dist R r (ni x)" "ni x < n" using expands_head(1) [OF e] by (auto simp: entry_ok_def)
  have "dist R r v \<le> Suc (ndistance x)"
    using dist_step [OF expands_graph(2) [OF e x(2)] v'(1)] x(1) by simp
  moreover have "\<not> dist R r v \<le> ndistance x" using expands_head(5) [OF e] v' n by (auto simp: level_ok_def)
  ultimately show "dist R r v = Suc (ndistance x)" by simp
  show "v \<noteq> r" using v'(2) expands_head(6) [OF e] by (auto simp: sizes_ok_def)
qed

lemma expands_entries:
  assumes e: "expands n R r s x rest new s'" and y: "y \<in> set (opened s')"
  shows "entry_ok n R r s' y" "ndistance x \<le> ndistance y" "ndistance y \<le> Suc (ndistance x)"
proof -
  have "entry_ok n R r s' y \<and> ndistance x \<le> ndistance y \<and> ndistance y \<le> Suc (ndistance x)"
  proof (cases "y \<in> set rest")
    case True
    have "entry_ok n R r s y" using expands_head(2) [OF e True] .
    moreover from this have "ni y \<notin> set new" using expands_new(5) [OF e] by (auto simp: entry_ok_def)
    ultimately have "entry_ok n R r s' y"
      using expands_visited [OF e] expands_firsthop [OF e] by (simp add: entry_ok_def)
    with expands_head(4) [OF e True] show ?thesis by simp
  next
    case False
    then obtain v where v: "v \<in> set new" "y = new_node x v" using e y by (auto simp: expands_def)
    note new = expands_new [OF e v(1)]
    then show ?thesis
      using v expands_visited [OF e new(2)] expands_firsthop [OF e new(2)] by (simp add: entry_ok_def)
  qed
  then show "entry_ok n R r s' y" "ndistance x \<le> ndistance y" "ndistance y \<le> Suc (ndistance x)" by simp_all
qed

lemma expands_hops:
  assumes e: "expands n R r s x rest new s'"
  shows "hops_ok n R r s'"
  unfolding hops_ok_def
proof (intro allI impI)
  fix v assume v: "v < n" "visited s' ! v \<and> v \<noteq> r"
  show "hop_ok R r (firsthop s' ! v) v"
  proof (cases "v \<in> set new")
    case True
    have "hop_ok R r (nfirst x) (ni x)"
      using expands_head(1,7) [OF e] by (auto simp: entry_ok_def hops_ok_def)
    then obtain k where k: "(r, nfirst x) \<in> R" "dist R r (ni x) = Suc k" "(nfirst x, ni x) \<in> R ^^ k"
      by (auto simp: hop_ok_def)
    have "(nfirst x, v) \<in> R ^^ Suc k" using k(3) expands_new(4) [OF e True] by auto
    moreover have "dist R r v = Suc (Suc k)"
      using expands_new(1) [OF e True] k(2) expands_head(1) [OF e] by (simp add: entry_ok_def)
    ultimately show ?thesis using k(1) expands_firsthop [OF e v(1)] True unfolding hop_ok_def by auto
  next
    case False
    then have "visited s ! v" using v expands_visited [OF e v(1)] e by (auto simp: expands_def)
    then show ?thesis using v False expands_firsthop [OF e v(1)] expands_head(7) [OF e] by (simp add: hops_ok_def)
  qed
qed

lemma expands_closed:
  assumes e: "expands n R r s x rest new s'"
  shows "closed_below n R s'"
  unfolding closed_below_def
proof (intro allI impI, elim conjE)
  fix u v assume u: "u < n" "visited s' ! u" "u \<notin> ni ` set (opened s')" "(u, v) \<in> R"
  have v: "v < n" using expands_graph(1) [OF e u(4)] by simp
  have op: "opened s' = rest @ map (new_node x) new" "opened s = x # rest" "set new = {v. (ni x, v) \<in> R \<and> \<not> visited s ! v}"
    using e by (simp_all add: expands_def)
  show "visited s' ! v"
  proof (cases "u = ni x")
    case True
    then show ?thesis using u(4) expands_visited [OF e v] by simp
  next
    case False
    have "u \<notin> ni ` set rest" "u \<notin> set new" using u(3) unfolding op(1) by force+
    then have "visited s ! u" "u \<notin> ni ` set (opened s)"
      using expands_visited [OF e u(1)] u(2) False op(2,3) by auto
    then have "visited s ! v" using expands_head(8) [OF e] u(1,4) unfolding closed_below_def by blast
    then show ?thesis using expands_visited [OF e v] by simp
  qed
qed

lemma expands_window:
  assumes e: "expands n R r s x rest new s'" and ne: "opened s' \<noteq> []"
  shows "window (ndistance (hd (opened s'))) (opened s')"
proof -
  have "sorted (map (ndistance \<circ> new_node x) new)" by (induction new) simp_all
  then have "sorted (map ndistance (opened s'))"
    using expands_head(3,4) [OF e] e by (auto simp: expands_def sorted_append)
  moreover have "ndistance (hd (opened s')) \<le> ndistance y" if "y \<in> set (opened s')" for y
    using calculation that by (cases "opened s'") auto
  moreover have "ndistance y \<le> Suc (ndistance (hd (opened s')))" if "y \<in> set (opened s')" for y
    using expands_entries(3) [OF e that] expands_entries(2) [OF e hd_in_set [OF ne]] by simp
  ultimately show ?thesis by (simp add: window_def)
qed

lemma expands_level:
  assumes e: "expands n R r s x rest new s'" and ne: "opened s' \<noteq> []"
  shows "level_ok n R r s' (ndistance (hd (opened s')))"
  unfolding level_ok_def
proof (intro allI impI)
  fix v assume v: "v < n" "dist R r v \<le> ndistance (hd (opened s'))"
  show "visited s' ! v"
  proof (cases "dist R r v \<le> ndistance x")
    case True
    then show ?thesis using expands_head(5) [OF e] v expands_visited [OF e v(1)] by (simp add: level_ok_def)
  next
    case False
    then have d: "dist R r v = Suc (ndistance x)" "ndistance (hd (opened s')) = Suc (ndistance x)"
      using v expands_entries [OF e hd_in_set [OF ne]] by simp_all
    from dist_pred [OF expands_graph(2) [OF e v(1)] d(1)]
    obtain w where w: "(w, v) \<in> R" "dist R r w = ndistance x" by blast
    have "w < n" using expands_graph(1) [OF e w(1)] by simp
    moreover from this have "visited s' ! w"
      using expands_head(5) [OF e] w(2) expands_visited [OF e, of w] by (simp add: level_ok_def)
    moreover have "w \<notin> ni ` set (opened s')"
    proof
      assume "w \<in> ni ` set (opened s')"
      then obtain y where y: "y \<in> set (opened s')" "w = ni y" by blast
      then have "Suc (ndistance x) \<le> ndistance y" using expands_window [OF e ne] d(2) by (simp add: window_def)
      then show False using expands_entries(1) [OF e y(1)] w(2) y(2) by (simp add: entry_ok_def)
    qed
    ultimately show ?thesis using expands_closed [OF e] w(1) unfolding closed_below_def by blast
  qed
qed

lemma expands_inv:
  assumes e: "expands n R r s x rest new s'"
  shows "search_inv n R r s'"
proof -
  have "r \<notin> set new" using expands_new(3) [OF e] by blast
  then have "sizes_ok n r s'"
    using expands_head(6) [OF e] expands_visited [OF e expands_graph(3) [OF e]]
      expands_firsthop [OF e expands_graph(3) [OF e]] e by (simp add: sizes_ok_def expands_def)
  then show ?thesis
    using expands_hops [OF e] expands_entries(1) [OF e] expands_closed [OF e] expands_window [OF e] expands_level [OF e]
    by (simp add: search_inv_def)
qed

section \<open>The whole search\<close>

lemma search_correct:
  assumes "graph_ok n R r" "length E = n" "\<And>u. u < n \<Longrightarrow> set (E ! u) = R `` {u}" "search_inv n R r s"
  shows "\<exists>s'. search E s = Inr s' \<and> search_inv n R r s' \<and> opened s' = []"
  using assms(2-)
proof (induction E s rule: search.induct)
  case (1 E s)
  show ?case
  proof (cases "opened s")
    case Nil
    then show ?thesis using "1.prems" by (simp add: search.simps)
  next
    case (Cons x rest)
    have x: "ni x < n" using "1.prems"(3) Cons by (simp add: search_inv_def entry_ok_def)
    from expandsI [OF assms(1) "1.prems"(3) Cons "1.prems"(2) [OF x]]
    obtain new t where t: "fold_result (relax_edge x) (s\<lparr>opened := rest\<rparr>) (E ! ni x) = Inr t" "expands n R r s x rest new t"
      by blast
    have "search E s = search E t" using Cons x t(1) "1.prems"(1) by (simp add: search.simps [of E s])
    then show ?thesis
      using "1.IH" [OF Cons _ t(1) "1.prems"(1,2) expands_inv [OF t(2)]] x "1.prems"(1) by simp
  qed
qed

lemma search_complete:
  assumes "graph_ok n R r" "search_inv n R r s" "opened s = []" "v < n"
  shows "visited s ! v"
proof -
  have "(r, v) \<in> R\<^sup>*" using assms(1,4) by (simp add: graph_ok_def)
  then have "visited s ! v \<and> v < n"
  proof (induction rule: rtrancl_induct)
    case base
    then show ?case using assms(1,2) by (simp add: graph_ok_def search_inv_def sizes_ok_def)
  next
    case (step a b)
    have "closed_below n R s" using assms(2) by (simp add: search_inv_def)
    moreover have "b < n" using assms(1) step.hyps(2) by (auto simp: graph_ok_def)
    ultimately show ?case
      using step.IH step.hyps(2) assms(3) unfolding closed_below_def by (metis empty_iff image_empty list.set(1))
  qed
  then show ?thesis by simp
qed

definition seed_node :: "nat \<Rightarrow> node" where
  "seed_node v = \<lparr>ni = v, nfirst = v, ndistance = 1\<rparr>"

lemma seed_node_simps [simp]: "ni (seed_node v) = v" "nfirst (seed_node v) = v" "ndistance (seed_node v) = 1"
  by (simp_all add: seed_node_def)

lemma seed_edges:
  assumes "distinct vs" "\<And>v. v \<in> set vs \<Longrightarrow> v < length (visited s) \<and> \<not> visited s ! v" "length (firsthop s) = length (visited s)"
  shows "\<exists>s'. fold_result seed_edge s vs = Inr s' \<and> opened s' = opened s @ map seed_node vs \<and>
     length (visited s') = length (visited s) \<and> length (firsthop s') = length (visited s) \<and>
     (\<forall>v<length (visited s). (visited s' ! v \<longleftrightarrow> visited s ! v \<or> v \<in> set vs) \<and>
        firsthop s' ! v = (if v \<in> set vs then v else firsthop s ! v))"
  using assms
proof (induction vs arbitrary: s)
  case (Cons v vs)
  let ?s = "visit s v v 1"
  have v: "v < length (visited s)" "seed_edge s v = Inr ?s" using Cons.prems(2) [of v] by (simp_all add: seed_edge_def)
  have "\<exists>s'. fold_result seed_edge ?s vs = Inr s' \<and> opened s' = opened ?s @ map seed_node vs \<and>
     length (visited s') = length (visited ?s) \<and> length (firsthop s') = length (visited ?s) \<and>
     (\<forall>v<length (visited ?s). (visited s' ! v \<longleftrightarrow> visited ?s ! v \<or> v \<in> set vs) \<and>
        firsthop s' ! v = (if v \<in> set vs then v else firsthop ?s ! v))"
  proof (rule Cons.IH)
    show "\<And>w. w \<in> set vs \<Longrightarrow> w < length (visited ?s) \<and> \<not> visited ?s ! w"
      using Cons.prems(1,2) by (auto simp: visit_def nth_list_update)
  qed (use Cons.prems in \<open>simp_all add: visit_def\<close>)
  then obtain s' where s': "fold_result seed_edge ?s vs = Inr s'" "opened s' = opened ?s @ map seed_node vs"
     "length (visited s') = length (visited ?s)" "length (firsthop s') = length (visited ?s)"
     "\<And>v. v < length (visited ?s) \<Longrightarrow> (visited s' ! v \<longleftrightarrow> visited ?s ! v \<or> v \<in> set vs) \<and>
        firsthop s' ! v = (if v \<in> set vs then v else firsthop ?s ! v)" by blast
  show ?case
    using s' v Cons.prems(3) by (intro exI [of _ s']) (auto simp: visit_def seed_node_def nth_list_update)
qed simp

definition seeded :: "nat \<Rightarrow> nat \<Rightarrow> nat list \<Rightarrow> bfs \<Rightarrow> bool" where
  "seeded n r vs s \<longleftrightarrow> opened s = map seed_node vs \<and> length (visited s) = n \<and> length (firsthop s) = n \<and>
     (\<forall>v<n. (visited s ! v \<longleftrightarrow> v = r \<or> v \<in> set vs) \<and> (v \<in> set vs \<longrightarrow> firsthop s ! v = v)) \<and> firsthop s ! r = r"

lemma seed_start:
  assumes "r < n" "distinct vs" "r \<notin> set vs" "\<And>v. v \<in> set vs \<Longrightarrow> v < n"
  shows "\<exists>s. fold_result seed_edge \<lparr>visited = (replicate n False)[r := True], opened = [], firsthop = (replicate n n)[r := r]\<rparr> vs
             = Inr s \<and> seeded n r vs s"
proof -
  let ?s = "\<lparr>visited = (replicate n False)[r := True], opened = [], firsthop = (replicate n n)[r := r]\<rparr>"
  have start: "visited ?s ! v \<longleftrightarrow> v = r" if "v < n" for v
    using that by (cases "v = r") simp_all
  have "v < length (visited ?s) \<and> \<not> visited ?s ! v" if "v \<in> set vs" for v
    using assms(4) [OF that] that assms(3) start [of v] by auto
  from seed_edges [OF assms(2) this] obtain s where s: "fold_result seed_edge ?s vs = Inr s" "opened s = map seed_node vs"
     "length (visited s) = n" "length (firsthop s) = n"
     "\<And>v. v < n \<Longrightarrow> (visited s ! v \<longleftrightarrow> visited ?s ! v \<or> v \<in> set vs) \<and>
        firsthop s ! v = (if v \<in> set vs then v else firsthop ?s ! v)"
    by auto
  have "seeded n r vs s" unfolding seeded_def using s(2-5) start assms(1,3) by simp
  with s(1) show ?thesis by blast
qed

lemma seeded_inv:
  assumes g: "graph_ok n R r" and vs: "set vs = R `` {r}" "r \<notin> set vs" and s: "seeded n r vs s"
  shows "search_inv n R r s"
proof -
  have r: "r < n" and below: "\<And>v. v \<in> set vs \<Longrightarrow> v < n" and reach: "\<And>v. v < n \<Longrightarrow> (r, v) \<in> R\<^sup>*"
    using g vs(1) by (auto simp: graph_ok_def)
  have vis: "visited s ! v \<longleftrightarrow> v = r \<or> v \<in> set vs" if "v < n" for v using s that by (simp add: seeded_def)
  have hop: "firsthop s ! v = v" if "v \<in> set vs" for v using s below [OF that] that by (simp add: seeded_def)
  have one: "dist R r v = Suc 0" if "v \<in> set vs" for v
  proof -
    have "dist R r v \<le> Suc 0" using dist_step [of r r R v] vs(1) that by simp
    moreover have "dist R r v \<noteq> 0" using dist_zero [OF reach [OF below [OF that]]] that vs(2) by metis
    ultimately show ?thesis by simp
  qed
  have "visited s ! v" if v: "v < n" and d: "dist R r v \<le> Suc 0" for v
  proof (cases "dist R r v = 0")
    case True
    then show ?thesis using dist_zero [OF reach [OF v]] vis [OF v] by simp
  next
    case False
    then have "dist R r v = Suc 0" using d by simp
    then obtain w where "(r, w) \<in> R ^^ 0" "(w, v) \<in> R" using dist_pred [OF reach [OF v]] by blast
    then show ?thesis using vis [OF v] vs(1) by simp
  qed
  then have "level_ok n R r s (Suc 0)" by (simp add: level_ok_def)
  moreover have "sorted (map (ndistance \<circ> seed_node) vs)" by (induction vs) simp_all
  then have "window (Suc 0) (map seed_node vs)" by (simp add: window_def)
  moreover have "sizes_ok n r s" using s r by (simp add: sizes_ok_def seeded_def)
  moreover have "hops_ok n R r s" using vis hop one vs(1) by (auto simp: hops_ok_def hop_ok_def)
  moreover have "entry_ok n R r s (seed_node v)" if "v \<in> set vs" for v
    using that vis hop below one vs(2) by (auto simp: entry_ok_def)
  moreover have "closed_below n R s"
    unfolding closed_below_def
  proof (intro allI impI, elim conjE)
    fix u v assume u: "u < n" "visited s ! u" "u \<notin> ni ` set (opened s)" "(u, v) \<in> R"
    then have "u = r" using s vis [OF u(1)] by (force simp: seeded_def)
    then have "v \<in> set vs" using u(4) vs(1) by simp
    then show "visited s ! v" using vis [OF below] by simp
  qed
  moreover have "ndistance (hd (map seed_node vs)) = Suc 0" if "vs \<noteq> []" using that by (simp add: hd_map)
  ultimately show ?thesis using s by (simp add: search_inv_def seeded_def)
qed

text \<open>What the routing relies on: every recorded hop is an edge that is one step closer to the target.\<close>

definition routes :: "nat \<Rightarrow> (nat \<times> nat) set \<Rightarrow> nat \<Rightarrow> nat list \<Rightarrow> bool" where
  "routes n R r hops \<longleftrightarrow> length hops = n \<and> hops ! r = r \<and>
     (\<forall>v<n. v \<noteq> r \<longrightarrow> (r, hops ! v) \<in> R \<and> dist R r v = Suc (dist R (hops ! v) v))"

lemma good_mesh_graph:
  assumes "good_mesh n E" "r < n"
  shows "graph_ok n (edge_set E) r" "length E = n" "u < n \<Longrightarrow> set (E ! u) = edge_set E `` {u}" "distinct (E ! r)" "r \<notin> set (E ! r)"
  using assms by (auto simp: good_mesh_def graph_ok_def connected_def mesh_ok_def edge_set_def)

lemma first_hops_correct:
  assumes "good_mesh n E" "r < n"
  shows "\<exists>hops. first_hops n r E = Inr hops \<and> routes n (edge_set E) r hops"
proof -
  note g = good_mesh_graph [OF assms]
  obtain s where s: "fold_result seed_edge \<lparr>visited = (replicate n False)[r := True], opened = [], firsthop = (replicate n n)[r := r]\<rparr> (E ! r) = Inr s"
      "search_inv n (edge_set E) r s"
    using seed_start [OF assms(2) g(4,5)] seeded_inv [OF g(1) g(3) [OF assms(2)] g(5)] g(1) g(3) [OF assms(2)]
    unfolding graph_ok_def by blast
  obtain t where t: "search E s = Inr t" "search_inv n (edge_set E) r t" "opened t = []"
    using search_correct [OF g(1,2,3) s(2)] by blast
  have len: "length (visited t) = n" "length (firsthop t) = n" "firsthop t ! r = r"
    using t(2) by (simp_all add: search_inv_def sizes_ok_def)
  have vis: "visited t ! v" if "v < n" for v using search_complete [OF g(1) t(2,3) that] .
  then have "list_all id (visited t)" using len by (simp add: list_all_length)
  moreover have "(r, firsthop t ! v) \<in> edge_set E \<and> dist (edge_set E) r v = Suc (dist (edge_set E) (firsthop t ! v) v)"
    if "v < n" "v \<noteq> r" for v
  proof -
    have "hop_ok (edge_set E) r (firsthop t ! v) v"
      using t(2) vis [OF that(1)] that by (simp add: search_inv_def hops_ok_def)
    then obtain k where "(r, firsthop t ! v) \<in> edge_set E" "dist (edge_set E) r v = Suc k" "(firsthop t ! v, v) \<in> edge_set E ^^ k"
      by (auto simp: hop_ok_def)
    then show ?thesis using dist_first [of r "firsthop t ! v" "edge_set E" v k] by simp
  qed
  ultimately show ?thesis
    using s(1) t(1) len by (auto simp: first_hops_def Let_def routes_def)
qed

end
