(* ===== verification/Store_Routing.thy ===== *)
theory Store_Routing
  imports Store_Paths
begin

text \<open>
  Messages across the mesh, one rank after the other: how a message to one rank is forwarded
  (\<open>sendMessageTo\<close>, \<open>processMessage\<close>) and how a broadcast spreads (\<open>broadcastMessage\<close>,
  \<open>forwardBroadcast\<close>) in \<^verbatim>\<open>core/store.cc\<close>, with the time to live that every rank checks and lowers.
  \<open>hops r\<close> and \<open>edges r\<close> are the first hops and the edge peers of rank \<open>r\<close>, which every rank
  computes for itself.
\<close>

section \<open>Forwarding\<close>

text \<open>The ranks a message passes from \<open>cur\<close> on.\<close>

fun forward :: "nat \<Rightarrow> (nat \<Rightarrow> nat list) \<Rightarrow> nat \<Rightarrow> nat \<Rightarrow> nat \<Rightarrow> nat list result" where
  "forward n hops 0 cur dest = Inl CheckFailed"
| "forward n hops (Suc ttl) cur dest =
     (if dest = cur then Inr [cur]
      else let edge = hops cur ! dest
           in if edge = n then Inl CheckFailed
              else bind_result (forward n hops ttl edge dest) (\<lambda>path. Inr (cur # path)))"

definition send_to :: "nat \<Rightarrow> (nat \<Rightarrow> nat list) \<Rightarrow> nat \<Rightarrow> nat \<Rightarrow> nat list result" where
  "send_to n hops rank dest =
     (let edge = hops rank ! dest
      in if edge = rank then Inr [] else forward n hops n edge dest)"

text \<open>
  The ranks that process a broadcast of \<open>source\<close>, from rank \<open>e\<close> on, which has it from \<open>sender\<close>. An edge
  gets it if it told \<open>e\<close> that it reaches \<open>source\<close> through \<open>e\<close>.
\<close>

definition forward_edges :: "(nat \<Rightarrow> nat list) \<Rightarrow> (nat \<Rightarrow> nat list) \<Rightarrow> nat \<Rightarrow> nat \<Rightarrow> nat \<Rightarrow> nat list" where
  "forward_edges hops edges source sender e =
     filter (\<lambda>i. i \<noteq> sender \<and> source \<in> set (getBroadcastForwardRanks (hops i) e)) (edges e)"

fun deliver :: "(nat \<Rightarrow> nat list) \<Rightarrow> (nat \<Rightarrow> nat list) \<Rightarrow> nat \<Rightarrow> nat \<Rightarrow> nat \<Rightarrow> nat \<Rightarrow> nat list result" where
  "deliver hops edges source 0 sender e = Inl CheckFailed"
| "deliver hops edges source (Suc ttl) sender e =
     bind_result
       (fold_result (\<lambda>acc i. bind_result (deliver hops edges source ttl e i) (\<lambda>xs. Inr (acc @ xs))) []
          (forward_edges hops edges source sender e))
       (\<lambda>xs. Inr (e # xs))"

definition broadcast :: "nat \<Rightarrow> (nat \<Rightarrow> nat list) \<Rightarrow> (nat \<Rightarrow> nat list) \<Rightarrow> nat \<Rightarrow> nat list result" where
  "broadcast n hops edges source =
     fold_result (\<lambda>acc e. bind_result (deliver hops edges source n source e) (\<lambda>xs. Inr (acc @ xs))) [] (edges source)"

section \<open>Distances in the mesh\<close>

definition network :: "nat \<Rightarrow> (nat \<times> nat) set \<Rightarrow> (nat \<Rightarrow> nat list) \<Rightarrow> (nat \<Rightarrow> nat list) \<Rightarrow> bool" where
  "network n R hops edges \<longleftrightarrow> R \<subseteq> {..<n} \<times> {..<n} - Id \<and> sym R \<and> (\<forall>a<n. \<forall>b<n. (a, b) \<in> R\<^sup>*) \<and>
     (\<forall>r<n. routes n R r (hops r) \<and> distinct (edges r) \<and> set (edges r) = R `` {r})"

lemma network_hop:
  assumes "network n R hops edges" "r < n" "v < n" "v \<noteq> r"
  shows "(r, hops r ! v) \<in> R" "dist R r v = Suc (dist R (hops r ! v) v)" "hops r ! v < n"
proof -
  have "routes n R r (hops r)" using assms(1,2) by (simp add: network_def)
  then show "(r, hops r ! v) \<in> R" "dist R r v = Suc (dist R (hops r ! v) v)" using assms(3,4) by (simp_all add: routes_def)
  then show "hops r ! v < n" using assms(1) by (auto simp: network_def)
qed

lemma network_dist_zero: "network n R hops edges \<Longrightarrow> a < n \<Longrightarrow> b < n \<Longrightarrow> dist R a b = 0 \<longleftrightarrow> a = b"
  by (auto simp: network_def dest: dist_zero)

text \<open>A shortest path has no more steps than there are other ranks.\<close>

lemma dist_less:
  assumes "network n R hops edges" "a < n" "b < n"
  shows "dist R a b < n"
proof -
  have "\<exists>w<n. dist R a w = k" if "k \<le> dist R a b" for k
    using that
  proof (induction k rule: inc_induct)
    case base
    then show ?case using assms(3) by blast
  next
    case (step k)
    then obtain w where w: "w < n" "dist R a w = Suc k" by blast
    then have "(a, w) \<in> R\<^sup>*" using assms by (simp add: network_def)
    from dist_pred [OF this w(2)] obtain u where "(u, w) \<in> R" "dist R a u = k" by blast
    then show ?case using assms(1) by (auto simp: network_def)
  qed
  then have "{..dist R a b} \<subseteq> dist R a ` {..<n}" by (auto simp: image_iff)
  then have "card {..dist R a b} \<le> card (dist R a ` {..<n})" by (rule card_mono [rotated]) simp
  also have "\<dots> \<le> n" using card_image_le [of "{..<n}" "dist R a"] by simp
  finally show ?thesis by simp
qed

lemma forward_correct:
  assumes net: "network n R hops edges" and "cur < n" "dest < n" "dist R cur dest < ttl"
  shows "\<exists>path. forward n hops ttl cur dest = Inr path \<and> length path = Suc (dist R cur dest) \<and>
     hd path = cur \<and> last path = dest \<and> successively (\<lambda>a b. (a, b) \<in> R) path"
  using assms(2-)
proof (induction ttl arbitrary: cur)
  case (Suc ttl)
  show ?case
  proof (cases "dest = cur")
    case True
    then show ?thesis by simp
  next
    case False
    note hop = network_hop [OF net Suc.prems(1,2) False]
    obtain path where p: "forward n hops ttl (hops cur ! dest) dest = Inr path"
        "length path = Suc (dist R (hops cur ! dest) dest)" "hd path = hops cur ! dest" "last path = dest"
        "successively (\<lambda>a b. (a, b) \<in> R) path"
      using Suc.IH [OF hop(3) Suc.prems(2)] Suc.prems(3) hop(2) by auto
    then show ?thesis using False hop by (cases path) (auto simp: Let_def)
  qed
qed simp

section \<open>The tree of a broadcast\<close>

definition toward :: "(nat \<Rightarrow> nat list) \<Rightarrow> nat \<Rightarrow> nat \<Rightarrow> nat" where
  "toward hops source v = hops v ! source"

definition below :: "nat \<Rightarrow> (nat \<Rightarrow> nat list) \<Rightarrow> nat \<Rightarrow> nat \<Rightarrow> nat set" where
  "below n hops source e = {v. v < n \<and> (\<exists>k. (toward hops source ^^ k) v = e)}"

lemma toward_iterate:
  assumes net: "network n R hops edges" and "s < n" "v < n" "k \<le> dist R v s"
  shows "(toward hops s ^^ k) v < n \<and> dist R ((toward hops s ^^ k) v) s + k = dist R v s"
  using assms(4)
proof (induction k)
  case (Suc k)
  then have IH: "(toward hops s ^^ k) v < n" "dist R ((toward hops s ^^ k) v) s + k = dist R v s" by simp_all
  moreover from IH(2) Suc.prems have "s \<noteq> (toward hops s ^^ k) v" using network_dist_zero [OF net IH(1) assms(2)] by auto
  from network_hop [OF net IH(1) assms(2) this] show ?case using IH(2)
    by (simp add: toward_def [of hops s "(toward hops s ^^ k) v"])
qed (simp add: assms(3))

lemma toward_stays:
  assumes "network n R hops edges" "s < n"
  shows "(toward hops s ^^ k) s = s"
proof -
  have "toward hops s s = s" using assms by (simp add: toward_def network_def routes_def)
  then show ?thesis by (induction k) simp_all
qed

lemma below_depth:
  assumes net: "network n R hops edges" and "s < n" "c \<noteq> s" and v: "v \<in> below n hops s c"
  shows "c = (toward hops s ^^ (dist R v s - dist R c s)) v \<and> dist R c s \<le> dist R v s \<and> c < n"
proof -
  from v obtain k where k: "v < n" "(toward hops s ^^ k) v = c" by (auto simp: below_def)
  have "k \<le> dist R v s"
  proof (rule ccontr)
    assume "\<not> k \<le> dist R v s"
    then obtain j where j: "k = j + dist R v s" using le_Suc_ex [of "dist R v s" k] by (metis add.commute nat_le_linear)
    have "(toward hops s ^^ dist R v s) v = s"
      using toward_iterate [OF net assms(2) k(1) order.refl]
        network_dist_zero [OF net _ assms(2), of "(toward hops s ^^ dist R v s) v"] by simp
    then have "c = s" using k(2) j toward_stays [OF net assms(2)] by (simp add: funpow_add)
    with assms(3) show False ..
  qed
  from toward_iterate [OF net assms(2) k(1) this] have "c < n" "dist R c s + k = dist R v s" by (simp_all add: k(2))
  moreover from this have "dist R v s - dist R c s = k" by simp
  ultimately show ?thesis using k(2) by simp
qed

lemma below_dist: "network n R hops edges \<Longrightarrow> s < n \<Longrightarrow> c < n \<Longrightarrow> c \<in> below n hops s c"
  by (auto simp: below_def intro: exI [of _ 0])

lemma below_disjoint:
  assumes "network n R hops edges" "s < n" "c \<noteq> s" "c' \<noteq> s" "dist R c s = dist R c' s" "c \<noteq> c'"
  shows "below n hops s c \<inter> below n hops s c' = {}"
  using below_depth [OF assms(1-3)] below_depth [OF assms(1,2,4)] assms(5,6) by fastforce

lemma below_unfold:
  assumes net: "network n R hops edges" and "s < n" "e < n" "e \<noteq> s"
  shows "below n hops s e = insert e (\<Union>c \<in> {c. c < n \<and> toward hops s c = e}. below n hops s c)"
proof (intro equalityI subsetI)
  fix v assume v: "v \<in> below n hops s e"
  then obtain k where k: "v < n" "(toward hops s ^^ k) v = e" by (auto simp: below_def)
  show "v \<in> insert e (\<Union>c \<in> {c. c < n \<and> toward hops s c = e}. below n hops s c)"
  proof (cases k)
    case (Suc j)
    let ?c = "(toward hops s ^^ j) v"
    have c: "toward hops s ?c = e" using k(2) Suc by simp
    then have "?c \<noteq> s" using toward_stays [OF net assms(2), of 1] assms(4) by auto
    moreover have "v \<in> below n hops s ?c" using k(1) by (auto simp: below_def)
    ultimately have "?c < n" using below_depth [OF net assms(2)] by blast
    then show ?thesis using c \<open>v \<in> below n hops s ?c\<close> by blast
  qed (use k in simp)
next
  fix v assume "v \<in> insert e (\<Union>c \<in> {c. c < n \<and> toward hops s c = e}. below n hops s c)"
  then consider "v = e" | c k where "v < n" "(toward hops s ^^ k) v = c" "toward hops s c = e"
    by (auto simp: below_def)
  then show "v \<in> below n hops s e"
  proof cases
    case 1
    then show ?thesis using below_dist [OF net assms(2,3)] by simp
  next
    case 2
    then have "(toward hops s ^^ Suc k) v = e" by simp
    with 2(1) show ?thesis unfolding below_def by blast
  qed
qed

lemma forward_edges_children:
  assumes net: "network n R hops edges" and "s < n" "e < n" "e \<noteq> s" "sender = toward hops s e"
  shows "set (forward_edges hops edges s sender e) = {c. c < n \<and> toward hops s c = e}"
    and "distinct (forward_edges hops edges s sender e)"
proof -
  have E: "set (edges e) = R `` {e}" "distinct (edges e)" using net assms(3) by (auto simp: network_def)
  show "distinct (forward_edges hops edges s sender e)" using E by (simp add: forward_edges_def)
  have len: "length (hops i) = n" if "i < n" for i using net that by (simp add: network_def routes_def)
  have R: "(a, b) \<in> R \<Longrightarrow> a < n \<and> b < n \<and> (b, a) \<in> R" for a b using net by (auto simp: network_def sym_def)
  have "c \<noteq> sender \<and> (e, c) \<in> R" if c: "c < n" "toward hops s c = e" for c
  proof -
    have "c \<noteq> s" using c(2) toward_stays [OF net assms(2), of 1] assms(4) by auto
    then have hop: "(c, e) \<in> R" "dist R c s = Suc (dist R e s)"
      using network_hop [OF net c(1) assms(2)] c(2) by (auto simp: toward_def)
    have "dist R e s = Suc (dist R sender s)"
      using network_hop(2) [OF net assms(3,2)] assms(4,5) by (auto simp: toward_def)
    then show ?thesis using hop R by auto
  qed
  then show "set (forward_edges hops edges s sender e) = {c. c < n \<and> toward hops s c = e}"
    using E R len assms(2) by (auto simp: forward_edges_def getBroadcastForwardRanks_def toward_def)
qed

lemma fold_concat:
  assumes "\<And>i. i \<in> set is \<Longrightarrow> f i = Inr (g i)"
  shows "fold_result (\<lambda>acc i. bind_result (f i) (\<lambda>xs. Inr (acc @ xs))) acc is = Inr (acc @ concat (map g is))"
  using assms by (induction "is" arbitrary: acc) simp_all

lemma distinct_concat_map:
  assumes "distinct is" "\<And>i. i \<in> set is \<Longrightarrow> distinct (g i) \<and> set (g i) = A i"
    "\<And>i j. i \<in> set is \<Longrightarrow> j \<in> set is \<Longrightarrow> i \<noteq> j \<Longrightarrow> A i \<inter> A j = {}"
  shows "distinct (concat (map g is)) \<and> set (concat (map g is)) = (\<Union>i \<in> set is. A i)"
  using assms
proof (induction "is")
  case (Cons i "is")
  have "distinct (concat (map g is)) \<and> set (concat (map g is)) = (\<Union>i \<in> set is. A i)"
    using Cons.prems by (intro Cons.IH) auto
  moreover have "A i \<inter> A j = {}" if "j \<in> set is" for j
    using Cons.prems(1) that by (intro Cons.prems(3)) auto
  then have "A i \<inter> (\<Union>i \<in> set is. A i) = {}" by blast
  moreover have "distinct (g i)" "set (g i) = A i" using Cons.prems(2) [of i] by simp_all
  ultimately show ?case by (simp del: set_concat)
qed simp

lemma deliver_correct:
  assumes net: "network n R hops edges" and "s < n" "e < n" "e \<noteq> s" "sender = toward hops s e" "ttl + dist R e s = Suc n"
  shows "\<exists>xs. deliver hops edges s ttl sender e = Inr xs \<and> distinct xs \<and> set xs = below n hops s e"
  using assms(3-)
proof (induction ttl arbitrary: e sender)
  case 0
  then show ?case using dist_less [OF net 0(1) assms(2)] by simp
next
  case (Suc ttl)
  let ?C = "forward_edges hops edges s sender e"
  note ch = forward_edges_children [OF net assms(2) Suc.prems(1-3)]
  have child: "c < n" "c \<noteq> s" "toward hops s c = e" "dist R c s = Suc (dist R e s)" if "c \<in> set ?C" for c
  proof -
    show c: "c < n" "toward hops s c = e" using that ch(1) by auto
    then show "c \<noteq> s" using toward_stays [OF net assms(2), of 1] Suc.prems(2) by auto
    then show "dist R c s = Suc (dist R e s)" using network_hop(2) [OF net c(1) assms(2)] c(2) by (simp add: toward_def)
  qed
  have "\<exists>xs. deliver hops edges s ttl e c = Inr xs \<and> distinct xs \<and> set xs = below n hops s c" if "c \<in> set ?C" for c
    using child [OF that] Suc.prems(4) by (intro Suc.IH) simp_all
  then obtain g where g: "\<And>c. c \<in> set ?C \<Longrightarrow>
      deliver hops edges s ttl e c = Inr (g c) \<and> distinct (g c) \<and> set (g c) = below n hops s c" by metis
  have "distinct (concat (map g ?C)) \<and> set (concat (map g ?C)) = (\<Union>c \<in> set ?C. below n hops s c)"
    using g child below_disjoint [OF net assms(2)] by (intro distinct_concat_map ch(2)) auto
  moreover have "e \<notin> below n hops s c" if "c \<in> set ?C" for c
    using below_depth [OF net assms(2) child(2) [OF that], of e] child(4) [OF that] by auto
  moreover have "deliver hops edges s (Suc ttl) sender e = Inr (e # concat (map g ?C))"
    using fold_concat [of ?C "deliver hops edges s ttl e" g "[]"] g by simp
  ultimately show ?case using below_unfold [OF net assms(2) Suc.prems(1,2)] ch(1)
    by (intro exI [of _ "e # concat (map g ?C)"]) (simp del: set_concat)
qed

lemma network_edges:
  assumes net: "network n R hops edges" and s: "s < n" and e: "e \<in> set (edges s)"
  shows "e < n" "e \<noteq> s" "dist R e s = Suc 0" "toward hops s e = s"
proof -
  have R: "(e, s) \<in> R" "e < n" "e \<noteq> s" using net s e by (auto simp: network_def sym_def)
  show "e < n" "e \<noteq> s" using R by simp_all
  have "dist R e s \<le> Suc 0" using dist_step [of e e R s] R(1) by simp
  then have "dist R (hops e ! s) s = 0" "dist R e s = Suc 0" using network_hop(2) [OF net R(2) s R(3) [symmetric]] by auto
  then show "dist R e s = Suc 0" "toward hops s e = s"
    using network_dist_zero [OF net network_hop(3) [OF net R(2) s R(3) [symmetric]] s] by (simp_all add: toward_def)
qed

lemma below_cover:
  assumes net: "network n R hops edges" and s: "s < n"
  shows "(\<Union>e \<in> set (edges s). below n hops s e) = {..<n} - {s}"
proof (intro equalityI subsetI)
  fix v assume "v \<in> (\<Union>e \<in> set (edges s). below n hops s e)"
  then obtain e where e: "e \<in> set (edges s)" "v \<in> below n hops s e" by blast
  note first = network_edges [OF net s e(1)]
  have "dist R v s \<noteq> 0" using below_depth [OF net s first(2) e(2)] first(3) by auto
  then show "v \<in> {..<n} - {s}" using e(2) by (auto simp: below_def)
next
  fix v assume v: "v \<in> {..<n} - {s}"
  then have "dist R v s \<noteq> 0" using network_dist_zero [OF net _ s] by simp
  then obtain k where k: "dist R v s = Suc k" by (cases "dist R v s") auto
  let ?e = "(toward hops s ^^ k) v"
  have e: "?e < n" "dist R ?e s = Suc 0" using toward_iterate [OF net s, of v k] v k by auto
  then have "?e \<noteq> s" by auto
  from network_hop [OF net e(1) s this [symmetric]] e(2) have "(?e, s) \<in> R"
    using network_dist_zero [OF net _ s, of "hops ?e ! s"] by simp
  then have "?e \<in> set (edges s)" using net s by (auto simp: network_def sym_def)
  moreover have "v \<in> below n hops s ?e" using v by (auto simp: below_def)
  ultimately show "v \<in> (\<Union>e \<in> set (edges s). below n hops s e)" by blast
qed

lemma broadcast_correct:
  assumes net: "network n R hops edges" and s: "s < n"
  shows "\<exists>xs. broadcast n hops edges s = Inr xs \<and> distinct xs \<and> set xs = {..<n} - {s}"
proof -
  have E: "distinct (edges s)" using net s by (auto simp: network_def)
  note first = network_edges [OF net s]
  have "\<exists>xs. deliver hops edges s n s e = Inr xs \<and> distinct xs \<and> set xs = below n hops s e" if "e \<in> set (edges s)" for e
    using first [OF that] by (intro deliver_correct [OF net s]) simp_all
  then obtain g where g: "\<And>e. e \<in> set (edges s) \<Longrightarrow>
      deliver hops edges s n s e = Inr (g e) \<and> distinct (g e) \<and> set (g e) = below n hops s e" by metis
  have "distinct (concat (map g (edges s))) \<and> set (concat (map g (edges s))) = (\<Union>e \<in> set (edges s). below n hops s e)"
    using g first below_disjoint [OF net s] by (intro distinct_concat_map E) auto
  moreover have "broadcast n hops edges s = Inr (concat (map g (edges s)))"
    using fold_concat [of "edges s" "deliver hops edges s n s" g "[]"] g by (simp add: broadcast_def)
  ultimately show ?thesis using below_cover [OF net s] by simp
qed

section \<open>The ranks together\<close>

text \<open>
  All ranks shuffle the shortcuts and draw the same numbers, from a generator seeded with the key
  of the store, but each shuffles the edges in its own way. They agree on the edges all the same.
\<close>

definition shuffles :: "('a list \<Rightarrow> 'a list) \<Rightarrow> bool" where
  "shuffles f \<longleftrightarrow> (\<forall>xs. mset (f xs) = mset xs)"

lemma findPaths_correct:
  assumes "0 < n" "r < n" "shuffles mix" "\<And>i. shuffles (mixrow i)" "list_all (\<lambda>x. x < n) draws"
  shows "findPaths mix mixrow draws n r = Inl OutOfFuel \<and> 4 < n \<and> fix_shortcuts n draws (mix [0..<n]) = Inl OutOfFuel \<or>
     (\<exists>E hops. findPaths mix mixrow draws n r = Inr (E, hops) \<and> mesh mix mixrow draws n = Inr E \<and> good_mesh n E \<and>
        routes n (edge_set E) r hops)"
proof -
  have "mset (mix xs) = mset xs" "mset (mixrow i ys) = mset ys" for xs i ys using assms(3,4) by (simp_all add: shuffles_def)
  from mesh_correct [of n mix mixrow draws, OF assms(1) this assms(5)] consider
    "mesh mix mixrow draws n = Inl OutOfFuel" "4 < n" "fix_shortcuts n draws (mix [0..<n]) = Inl OutOfFuel"
    | E where "mesh mix mixrow draws n = Inr E" "good_mesh n E" by blast
  then show ?thesis
  proof cases
    case 1
    then show ?thesis by (simp add: findPaths_def)
  next
    case 2
    with first_hops_correct [OF 2(2) assms(2)] show ?thesis by (auto simp: findPaths_def)
  qed
qed

lemma mesh_same_edges:
  assumes "0 < n" "shuffles mix" "\<And>i. shuffles (mixrow i)" "\<And>i. shuffles (mixrow' i)" "list_all (\<lambda>x. x < n) draws"
    and "mesh mix mixrow draws n = Inr E" "mesh mix mixrow' draws n = Inr E'"
  shows "edge_set E = edge_set E'"
proof -
  from assms(6) obtain F E0 where F: "add_ring n (replicate n []) = Inr F"
      "(if 4 < n then bind_result (fix_shortcuts n draws (mix [0..<n])) (\<lambda>(cs, ds). add_shortcuts n cs F) else Inr F) = Inr E0"
    and E: "E = map (\<lambda>i. mixrow i (E0 ! i)) [0..<n]"
    by (auto simp: mesh_def bind_result_Inr)
  have E0: "E = map (\<lambda>i. mixrow i (E0 ! i)) [0..<n]" "E' = map (\<lambda>i. mixrow' i (E0 ! i)) [0..<n]"
    using assms(7) E by (simp_all add: mesh_def F)
  have s: "set (mixrow i xs) = set xs" "set (mixrow' i xs) = set xs" for i xs
    using assms(3,4) by (metis set_mset_mset shuffles_def)+
  show ?thesis by (auto simp: E0 edge_set_def s)
qed

lemma network_findPaths:
  assumes "0 < n" "shuffles mix" "\<And>r i. shuffles (mixrow r i)" "list_all (\<lambda>x. x < n) draws"
    and paths: "\<And>r. r < n \<Longrightarrow> findPaths mix (mixrow r) draws n r = Inr (E r, hops r)"
  shows "network n (edge_set (E 0)) hops (\<lambda>r. E r ! r)"
proof -
  have E: "mesh mix (mixrow r) draws n = Inr (E r)" "good_mesh n (E r)" "routes n (edge_set (E r)) r (hops r)" if "r < n" for r
    using findPaths_correct [of n r mix "mixrow r" draws, OF assms(1) that assms(2,3,4)] paths [OF that] by auto
  have same: "edge_set (E r) = edge_set (E 0)" if "r < n" for r
    using mesh_same_edges [of n mix "mixrow r" "mixrow 0" draws "E r" "E 0", OF assms(1,2,3,3,4) E(1) [OF that] E(1) [OF assms(1)]] .
  have row: "distinct (E r ! r)" "set (E r ! r) = edge_set (E 0) `` {r}" "routes n (edge_set (E 0)) r (hops r)" if "r < n" for r
    using good_mesh_graph(3-) [OF E(2) [OF that] that] E(3) [OF that] that unfolding same [OF that] by simp_all
  have "edge_set (E 0) \<subseteq> {..<n} \<times> {..<n} - Id" "sym (edge_set (E 0))" "\<forall>a<n. \<forall>b<n. (a, b) \<in> (edge_set (E 0))\<^sup>*"
    using E(2) [OF assms(1)] by (auto simp: good_mesh_def mesh_ok_sets connected_def)
  then show ?thesis using row by (simp add: network_def)
qed

section \<open>Properties\<close>

text \<open>C6: Whatever the shuffles do and whatever is drawn, \<open>findPaths\<close> fails no check and leaves no range:
  unless the draws run out in the shortcut loop, it returns a mesh of at most four edges per rank, the same
  in both directions, connected, and first hops that lie on shortest paths.\<close>

theorem find_paths_sound:
  assumes "0 < n" "r < n" "shuffles mix" "\<And>i. shuffles (mixrow i)" "list_all (\<lambda>x. x < n) draws"
  shows "(4 < n \<and> fix_shortcuts n draws (mix [0..<n]) = Inl OutOfFuel \<and> findPaths mix mixrow draws n r = Inl OutOfFuel) \<or>
     (\<exists>E hops. findPaths mix mixrow draws n r = Inr (E, hops) \<and>
        (\<forall>a<n. distinct (E ! a) \<and> length (E ! a) \<le> 4 \<and> (\<forall>b \<in> set (E ! a). b < n \<and> b \<noteq> a \<and> a \<in> set (E ! b))) \<and>
        hops ! r = r \<and>
        (\<forall>v<n. v \<noteq> r \<longrightarrow> hops ! v \<in> set (E ! r) \<and> dist (edge_set E) r v = Suc (dist (edge_set E) (hops ! v) v)))"
  using findPaths_correct [of n r mix mixrow draws, OF assms]
proof (elim disjE exE conjE)
  fix E hops assume F: "findPaths mix mixrow draws n r = Inr (E, hops)" and g: "good_mesh n E" and R: "routes n (edge_set E) r hops"
  have "distinct (E ! a) \<and> length (E ! a) \<le> 4 \<and> (\<forall>b \<in> set (E ! a). b < n \<and> b \<noteq> a \<and> a \<in> set (E ! b))" if "a < n" for a
    using g that mesh_ok_row [of n E a] unfolding good_mesh_def by blast
  moreover have "hops ! v \<in> set (E ! r) \<and> dist (edge_set E) r v = Suc (dist (edge_set E) (hops ! v) v)" if "v < n" "v \<noteq> r" for v
  proof -
    have "(r, hops ! v) \<in> edge_set E" "dist (edge_set E) r v = Suc (dist (edge_set E) (hops ! v) v)"
      using R that by (simp_all add: routes_def)
    moreover from this have "hops ! v \<in> set (E ! r)" by (simp add: edge_set_def)
    ultimately show ?thesis by simp
  qed
  ultimately show ?thesis using F R unfolding routes_def by blast
qed blast

theorem find_paths_sound_witness:
  "\<exists>E hops. findPaths rev (\<lambda>_. rev) [] 4 2 = Inr (E, hops) \<and> length (E ! 2) \<le> 4 \<and> hops ! 2 = 2"
proof -
  have "(0::nat) < 4" "(2::nat) < 4" "shuffles (rev :: nat list \<Rightarrow> nat list)" "list_all (\<lambda>x. x < (4::nat)) []" "\<not> 4 < (4::nat)"
    by (simp_all add: shuffles_def)
  with find_paths_sound [of 4 2 rev "\<lambda>_. rev" "[]"] show ?thesis by blast
qed

text \<open>C7: From seven ranks on the shortcut loop can always finish: there are draws with which \<open>findPaths\<close>
  returns, whatever the shuffles did.\<close>

theorem find_paths_can_finish:
  assumes "7 \<le> n" "r < n" "shuffles mix" "\<And>i. shuffles (mixrow i)"
  shows "\<exists>draws E hops. list_all (\<lambda>x. x < n) draws \<and> findPaths mix mixrow draws n r = Inr (E, hops)"
proof -
  have "mset (mix [0..<n]) = mset [0..<n]" using assms(3) by (simp add: shuffles_def)
  from fix_shortcuts_finish [OF assms(1) _ this, of "[0..<n]"] obtain ds cs where
    ds: "list_all (\<lambda>x. x < n) ds" "fix_shortcuts n ds (mix [0..<n]) = Inr (cs, [])"
    unfolding fix_shortcuts_def by (metis append_Nil2 atLeastLessThan_iff set_upt)
  then show ?thesis
    using findPaths_correct [of n r mix mixrow ds] assms by auto
qed

theorem find_paths_can_finish_witness:
  "\<exists>draws E hops. list_all (\<lambda>x. x < 9) draws \<and> findPaths rev (\<lambda>_. rev) draws 9 4 = Inr (E, hops)"
  by (rule find_paths_can_finish) (simp_all add: shuffles_def)

text \<open>C5: A message between any two ranks passes one rank after the other along edges of the mesh and arrives
  after as many hops as the distance between them; no rank on the way finds its time to live used up.\<close>

theorem message_arrives:
  assumes "0 < n" "shuffles mix" "\<And>r i. shuffles (mixrow r i)" "list_all (\<lambda>x. x < n) draws"
    and "\<And>r. r < n \<Longrightarrow> findPaths mix (mixrow r) draws n r = Inr (E r, hops r)"
    and "s < n" "t < n" "s \<noteq> t"
  shows "\<exists>path. send_to n hops s t = Inr path \<and> last path = t \<and> length path = dist (edge_set (E 0)) s t \<and>
     successively (\<lambda>a b. (a, b) \<in> edge_set (E 0)) (s # path)"
proof -
  note net = network_findPaths [OF assms(1-5)]
  let ?e = "hops s ! t"
  note hop = network_hop [OF net assms(6,7) assms(8) [symmetric]]
  have "?e \<noteq> s" using hop(1) net by (auto simp: network_def)
  moreover obtain path where "forward n hops n ?e t = Inr path" "length path = Suc (dist (edge_set (E 0)) ?e t)" "hd path = ?e"
      "last path = t" "successively (\<lambda>a b. (a, b) \<in> edge_set (E 0)) path"
    using forward_correct [OF net hop(3) assms(7) dist_less [OF net hop(3) assms(7)]] by blast
  ultimately show ?thesis using hop by (cases path) (auto simp: send_to_def Let_def)
qed

text \<open>C4: A broadcast reaches every other rank exactly once, although every rank searched its paths
  independently: the first hops of all ranks towards the source form a tree.\<close>

theorem broadcast_exactly_once:
  assumes "0 < n" "shuffles mix" "\<And>r i. shuffles (mixrow r i)" "list_all (\<lambda>x. x < n) draws"
    and "\<And>r. r < n \<Longrightarrow> findPaths mix (mixrow r) draws n r = Inr (E r, hops r)" and "s < n"
  shows "\<exists>ranks. broadcast n hops (\<lambda>r. E r ! r) s = Inr ranks \<and> distinct ranks \<and> set ranks = {..<n} - {s}"
  using broadcast_correct [OF network_findPaths [OF assms(1-5)] assms(6)] .

text \<open>An instance: four ranks in a ring, with the edges of odd ranks reversed.\<close>

definition example_rows :: "nat \<Rightarrow> nat \<Rightarrow> nat list \<Rightarrow> nat list" where
  "example_rows r i xs = (if odd r then rev xs else xs)"

definition example_paths :: "nat \<Rightarrow> nat list list \<times> nat list" where
  "example_paths r = (case findPaths rev (example_rows r) [] 4 r of Inr p \<Rightarrow> p | Inl _ \<Rightarrow> ([], []))"

lemma example_shuffles: "shuffles rev" "shuffles (example_rows r i)"
  by (simp_all add: shuffles_def example_rows_def)

lemma example_findPaths: "r < 4 \<Longrightarrow> findPaths rev (example_rows r) [] 4 r = Inr (fst (example_paths r), snd (example_paths r))"
  using findPaths_correct [of 4 r rev "example_rows r" "[]"] by (auto simp: example_paths_def example_shuffles)

theorem message_arrives_witness:
  "\<exists>path. send_to 4 (\<lambda>r. snd (example_paths r)) 0 2 = Inr path \<and> last path = 2"
  using message_arrives [of 4 rev example_rows "[]" "\<lambda>r. fst (example_paths r)" "\<lambda>r. snd (example_paths r)" 0 2]
    example_shuffles example_findPaths by auto

theorem broadcast_exactly_once_witness:
  "\<exists>ranks. broadcast 4 (\<lambda>r. snd (example_paths r)) (\<lambda>r. fst (example_paths r) ! r) 1 = Inr ranks \<and>
     distinct ranks \<and> set ranks = {..<4} - {1}"
  using broadcast_exactly_once [of 4 rev example_rows "[]" "\<lambda>r. fst (example_paths r)" "\<lambda>r. snd (example_paths r)" 1]
    example_shuffles example_findPaths by auto

end
