(* ===== verification/Store_Messages.thy ===== *)
theory Store_Messages
  imports Serialization_Safety
begin

text \<open>
  The messages of the store in \<^verbatim>\<open>core/store.cc\<close> and their bytes: the structures with their
  \<open>serialize\<close> members as types of the serializer, the signatures in front of them, and the fixed
  header of routed messages, whose fields are patched in place at their offsets.
\<close>

section \<open>Constants\<close>

definition signatureConnect :: nat where "signatureConnect = 0x120a63c0941561a4"
definition signatureConnectAck :: nat where "signatureConnectAck = 0x120a63c0941561a5"
definition signatureAddresses :: nat where "signatureAddresses = 0x10f963c0941561a6"
definition signatureAddressesAck :: nat where "signatureAddressesAck = 0x10f963c0941561a7"
definition signatureMessage :: nat where "signatureMessage = 0x220a74d1a52672b8"
definition signatureMessageAck :: nat where "signatureMessageAck = 0x220a74d1a52672b9"
definition signatureKeepalive :: nat where "signatureKeepalive = 0x220a74d1a53772ba"
definition signatureKeepaliveAck :: nat where "signatureKeepaliveAck = 0x220a74d1a53772bb"
definition signatureDiagnosticHello :: nat where "signatureDiagnosticHello = 0x330b85e2b63783cc"
definition signatureDiagnosticHelloAck :: nat where "signatureDiagnosticHelloAck = 0x330b85e2b63783cd"
definition signatureDiagnosticInfo :: nat where "signatureDiagnosticInfo = 0x330b85e2b63783ce"

lemmas signature_defs = signatureConnect_def signatureConnectAck_def signatureAddresses_def signatureAddressesAck_def
  signatureMessage_def signatureMessageAck_def signatureKeepalive_def signatureKeepaliveAck_def
  signatureDiagnosticHello_def signatureDiagnosticHelloAck_def signatureDiagnosticInfo_def

definition messageDone :: nat where "messageDone = 0x3"
definition messageSet :: nat where "messageSet = 0x4"
definition messageGet :: nat where "messageGet = 0x5"
definition messageCheck :: nat where "messageCheck = 0x6"
definition messageWait :: nat where "messageWait = 0x7"
definition messageShutdown :: nat where "messageShutdown = 0x8"
definition messageExit :: nat where "messageExit = 0x9"
definition messageExitAck :: nat where "messageExitAck = 0xa"
definition messageDiagnosticSource :: nat where "messageDiagnosticSource = 0xb"

lemmas message_defs = messageDone_def messageSet_def messageGet_def messageCheck_def messageWait_def
  messageShutdown_def messageExit_def messageExitAck_def messageDiagnosticSource_def

datatype DiagnosticKind = Transient | ErrorKind | Success

fun kind_code :: "DiagnosticKind \<Rightarrow> u8" where
  "kind_code Transient = 0"
| "kind_code ErrorKind = 1"
| "kind_code Success = 2"

section \<open>Structures\<close>

record DiagnosticInfoMessage =
  di_key :: bytes
  di_reportingRank :: nat
  di_stuckEdge :: nat
  di_kind :: u8
  di_reason :: bytes

record DiagnosticHelloMessage =
  dh_key :: bytes
  dh_sourceRank :: nat

record TcpConnectMessage =
  tc_key :: bytes
  tc_sourceRank :: nat
  tc_sourceId :: bytes
  tc_destinationRank :: nat
  tc_destinationId :: bytes
  tc_broadcastForwardRanks :: "nat list"

record UdpConnectMessage =
  uc_key :: bytes
  uc_sourceRank :: nat
  uc_uid :: bytes
  uc_networkKey :: bytes
  uc_addresses :: "(nat \<times> bytes) list"

record UdpConnectAckMessage =
  ua_key :: bytes
  ua_sourceRank :: nat
  ua_uid :: bytes
  ua_addresses :: "nat list"

record AddressesMessage =
  am_key :: bytes
  am_sourceRank :: nat
  am_sourceId :: bytes
  am_networkKey :: bytes
  am_addresses :: "(nat \<times> bytes) list"

record AddressesAckMessage =
  aa_key :: bytes
  aa_sourceRank :: nat
  aa_edge :: nat

text \<open>
  A \<open>uint32_t\<close> is its four bytes. \<open>from_*\<close> reads a value of the right type; a value of another type
  does not come out of the deserializer.
\<close>

definition u32v :: "nat \<Rightarrow> val" where
  "u32v n = VTriv (le_bytes 4 n)"

fun of_u32v :: "val \<Rightarrow> nat" where
  "of_u32v (VTriv b) = le_nat b"
| "of_u32v _ = 0"

fun of_strv :: "val \<Rightarrow> bytes" where
  "of_strv (VStr b) = b"
| "of_strv _ = []"

fun of_vecv :: "val \<Rightarrow> val list" where
  "of_vecv (VVec vs) = vs"
| "of_vecv _ = []"

definition addrv :: "nat \<times> bytes \<Rightarrow> val" where
  "addrv a = VStruct [u32v (fst a), VStr (snd a)]"

fun of_addrv :: "val \<Rightarrow> nat \<times> bytes" where
  "of_addrv (VStruct [i, a]) = (of_u32v i, of_strv a)"
| "of_addrv _ = (0, [])"

fun struct_fields :: "val \<Rightarrow> val list" where
  "struct_fields (VStruct vs) = vs"
| "struct_fields _ = []"

definition u32_ty :: ty where "u32_ty = Triv 4"
definition addresses_ty :: ty where "addresses_ty = VecT (Struct (TCons u32_ty (TCons Str TNil)))"

fun tuple :: "ty list \<Rightarrow> tys" where
  "tuple [] = TNil"
| "tuple (t # ts) = TCons t (tuple ts)"

definition DiagnosticInfo_ty :: ty where "DiagnosticInfo_ty = Struct (tuple [Str, u32_ty, u32_ty, Triv 1, Str])"
definition DiagnosticHello_ty :: ty where "DiagnosticHello_ty = Struct (tuple [Str, u32_ty])"
definition TcpConnect_ty :: ty where "TcpConnect_ty = Struct (tuple [Str, u32_ty, Str, u32_ty, Str, VecT u32_ty])"
definition UdpConnect_ty :: ty where "UdpConnect_ty = Struct (tuple [Str, u32_ty, Str, Str, addresses_ty])"
definition UdpConnectAck_ty :: ty where "UdpConnectAck_ty = Struct (tuple [Str, u32_ty, Str, VecT u32_ty])"
definition Addresses_ty :: ty where "Addresses_ty = Struct (tuple [Str, u32_ty, Str, Str, addresses_ty])"
definition AddressesAck_ty :: ty where "AddressesAck_ty = Struct (tuple [Str, u32_ty, u32_ty])"

lemmas message_tys = DiagnosticInfo_ty_def DiagnosticHello_ty_def TcpConnect_ty_def UdpConnect_ty_def
  UdpConnectAck_ty_def Addresses_ty_def AddressesAck_ty_def addresses_ty_def u32_ty_def

section \<open>Datagrams\<close>

datatype udp_msg =
    UConnect UdpConnectMessage
  | UConnectAck UdpConnectAckMessage
  | UAddresses AddressesMessage
  | UAddressesAck AddressesAckMessage
  | UHello DiagnosticHelloMessage
  | UHelloAck DiagnosticHelloMessage
  | UDiagnostic DiagnosticInfoMessage

fun udp_signature :: "udp_msg \<Rightarrow> nat" where
  "udp_signature (UConnect m) = signatureConnect"
| "udp_signature (UConnectAck m) = signatureConnectAck"
| "udp_signature (UAddresses m) = signatureAddresses"
| "udp_signature (UAddressesAck m) = signatureAddressesAck"
| "udp_signature (UHello m) = signatureDiagnosticHello"
| "udp_signature (UHelloAck m) = signatureDiagnosticHelloAck"
| "udp_signature (UDiagnostic m) = signatureDiagnosticInfo"

fun udp_ty :: "udp_msg \<Rightarrow> ty" where
  "udp_ty (UConnect m) = UdpConnect_ty"
| "udp_ty (UConnectAck m) = UdpConnectAck_ty"
| "udp_ty (UAddresses m) = Addresses_ty"
| "udp_ty (UAddressesAck m) = AddressesAck_ty"
| "udp_ty (UHello m) = DiagnosticHello_ty"
| "udp_ty (UHelloAck m) = DiagnosticHello_ty"
| "udp_ty (UDiagnostic m) = DiagnosticInfo_ty"

fun udp_val :: "udp_msg \<Rightarrow> val" where
  "udp_val (UConnect m) = VStruct [VStr (uc_key m), u32v (uc_sourceRank m), VStr (uc_uid m), VStr (uc_networkKey m),
     VVec (map addrv (uc_addresses m))]"
| "udp_val (UConnectAck m) = VStruct [VStr (ua_key m), u32v (ua_sourceRank m), VStr (ua_uid m), VVec (map u32v (ua_addresses m))]"
| "udp_val (UAddresses m) = VStruct [VStr (am_key m), u32v (am_sourceRank m), VStr (am_sourceId m), VStr (am_networkKey m),
     VVec (map addrv (am_addresses m))]"
| "udp_val (UAddressesAck m) = VStruct [VStr (aa_key m), u32v (aa_sourceRank m), u32v (aa_edge m)]"
| "udp_val (UHello m) = VStruct [VStr (dh_key m), u32v (dh_sourceRank m)]"
| "udp_val (UHelloAck m) = VStruct [VStr (dh_key m), u32v (dh_sourceRank m)]"
| "udp_val (UDiagnostic m) = VStruct [VStr (di_key m), u32v (di_reportingRank m), u32v (di_stuckEdge m), VTriv [di_kind m],
     VStr (di_reason m)]"

text \<open>\<open>serializeToBuffer(signature, message)\<close>.\<close>

definition udp_bytes :: "udp_msg \<Rightarrow> bytes" where
  "udp_bytes m = le_bytes 8 (udp_signature m) @ encode (udp_ty m) (udp_val m)"

definition read_message :: "ty \<Rightarrow> (val list \<Rightarrow> 'a) \<Rightarrow> bytes \<Rightarrow> 'a result" where
  "read_message t f view = bind_result (deserializeBufferPart t view) (\<lambda>(v, rest). Inr (f (struct_fields v)))"

definition read_UdpConnect :: "val list \<Rightarrow> udp_msg" where
  "read_UdpConnect vs = UConnect \<lparr>uc_key = of_strv (vs ! 0), uc_sourceRank = of_u32v (vs ! 1), uc_uid = of_strv (vs ! 2),
     uc_networkKey = of_strv (vs ! 3), uc_addresses = map of_addrv (of_vecv (vs ! 4))\<rparr>"

definition read_UdpConnectAck :: "val list \<Rightarrow> udp_msg" where
  "read_UdpConnectAck vs = UConnectAck \<lparr>ua_key = of_strv (vs ! 0), ua_sourceRank = of_u32v (vs ! 1), ua_uid = of_strv (vs ! 2),
     ua_addresses = map of_u32v (of_vecv (vs ! 3))\<rparr>"

definition read_Addresses :: "val list \<Rightarrow> udp_msg" where
  "read_Addresses vs = UAddresses \<lparr>am_key = of_strv (vs ! 0), am_sourceRank = of_u32v (vs ! 1), am_sourceId = of_strv (vs ! 2),
     am_networkKey = of_strv (vs ! 3), am_addresses = map of_addrv (of_vecv (vs ! 4))\<rparr>"

definition read_AddressesAck :: "val list \<Rightarrow> udp_msg" where
  "read_AddressesAck vs = UAddressesAck \<lparr>aa_key = of_strv (vs ! 0), aa_sourceRank = of_u32v (vs ! 1), aa_edge = of_u32v (vs ! 2)\<rparr>"

definition read_Hello :: "val list \<Rightarrow> DiagnosticHelloMessage" where
  "read_Hello vs = \<lparr>dh_key = of_strv (vs ! 0), dh_sourceRank = of_u32v (vs ! 1)\<rparr>"

fun of_byte :: "val \<Rightarrow> u8" where
  "of_byte (VTriv (b # bs)) = b"
| "of_byte _ = 0"

definition read_Diagnostic :: "val list \<Rightarrow> udp_msg" where
  "read_Diagnostic vs = UDiagnostic \<lparr>di_key = of_strv (vs ! 0), di_reportingRank = of_u32v (vs ! 1), di_stuckEdge = of_u32v (vs ! 2),
     di_kind = of_byte (vs ! 3), di_reason = of_strv (vs ! 4)\<rparr>"

text \<open>
  The dispatch of \<open>onreadudp\<close>: \<open>Inr None\<close> is a datagram that is ignored, \<open>Inl\<close> a \<open>SerializationError\<close>,
  which is caught and logged.
\<close>

definition decode_udp :: "bytes \<Rightarrow> udp_msg option result" where
  "decode_udp buf =
     (if length buf < 8 then Inr None
      else let signature = le_nat (take 8 buf); view = drop 8 buf
           in if signature = signatureConnect then read_message UdpConnect_ty (Some \<circ> read_UdpConnect) view
              else if signature = signatureConnectAck then read_message UdpConnectAck_ty (Some \<circ> read_UdpConnectAck) view
              else if signature = signatureAddresses then read_message Addresses_ty (Some \<circ> read_Addresses) view
              else if signature = signatureAddressesAck then read_message AddressesAck_ty (Some \<circ> read_AddressesAck) view
              else if signature = signatureDiagnosticHello then read_message DiagnosticHello_ty (Some \<circ> UHello \<circ> read_Hello) view
              else if signature = signatureDiagnosticHelloAck then read_message DiagnosticHello_ty (Some \<circ> UHelloAck \<circ> read_Hello) view
              else if signature = signatureDiagnosticInfo then read_message DiagnosticInfo_ty (Some \<circ> read_Diagnostic) view
              else Inr None)"

section \<open>Routed messages\<close>

record MessageHeader =
  h_ttl :: nat
  h_seq :: nat
  h_destinationRank :: nat
  h_id :: nat
  h_sourceRank :: nat
  h_diagnosticSource :: nat
  h_messageType :: nat
  h_broadcast :: bool

text \<open>The object representation of the header: six \<open>uint32_t\<close>, two bytes and two bytes of padding.\<close>

definition header_bytes :: "MessageHeader \<Rightarrow> bytes" where
  "header_bytes h = le_bytes 4 (h_ttl h) @ le_bytes 4 (h_seq h) @ le_bytes 4 (h_destinationRank h) @ le_bytes 4 (h_id h) @
     le_bytes 4 (h_sourceRank h) @ le_bytes 4 (h_diagnosticSource h) @
     [of_nat (h_messageType h), if h_broadcast h then 1 else 0, 0, 0]"

definition word_at :: "nat \<Rightarrow> bytes \<Rightarrow> nat" where
  "word_at i b = le_nat (take 4 (drop i b))"

definition read_header :: "bytes \<Rightarrow> (MessageHeader \<times> bytes) result" where
  "read_header view =
     bind_result (deserializeBufferPart (Triv 28) view) (\<lambda>(v, rest).
       let b = (case v of VTriv b \<Rightarrow> b | _ \<Rightarrow> [])
       in Inr (\<lparr>h_ttl = word_at 0 b, h_seq = word_at 4 b, h_destinationRank = word_at 8 b, h_id = word_at 12 b,
                h_sourceRank = word_at 16 b, h_diagnosticSource = word_at 20 b, h_messageType = unat (b ! 24),
                h_broadcast = (b ! 25 \<noteq> 0)\<rparr>, rest))"

record frame =
  header :: MessageHeader
  payload :: bytes

definition frame_bytes :: "frame \<Rightarrow> bytes" where
  "frame_bytes f = le_bytes 8 signatureMessage @ header_bytes (header f) @ payload f"

text \<open>The patches of \<open>processMessage\<close>, \<open>sendMessage\<close> and \<open>forwardBroadcast\<close>.\<close>

definition patch_ttl :: "nat \<Rightarrow> bytes \<Rightarrow> bytes" where
  "patch_ttl t buf = overwrite_at 8 (le_bytes 4 t) buf"

definition patch_seq :: "nat \<Rightarrow> bytes \<Rightarrow> bytes" where
  "patch_seq s buf = overwrite_at 12 (le_bytes 4 s) buf"

definition patch_dest :: "nat \<Rightarrow> bytes \<Rightarrow> bytes" where
  "patch_dest d buf = overwrite_at 16 (le_bytes 4 d) buf"

definition read_frame :: "bytes \<Rightarrow> frame result" where
  "read_frame buf = bind_result (read_header (drop 8 buf)) (\<lambda>(h, rest). Inr \<lparr>header = h, payload = rest\<rparr>)"

section \<open>The TCP stream\<close>

text \<open>
  \<open>TMessage\<close> keeps what \<open>onreadtcp\<close> reads before it looks at the rest, the time to live and the sequence
  number, and the outcome of reading the whole header, which \<open>processMessage\<close> does later.
\<close>

datatype tcp_msg =
    TConnect TcpConnectMessage
  | TConnectAck TcpConnectMessage
  | TMessage nat nat "frame result"
  | TMessageAck nat
  | TKeepalive
  | TKeepaliveAck

definition tcp_connect_val :: "TcpConnectMessage \<Rightarrow> val" where
  "tcp_connect_val m = VStruct [VStr (tc_key m), u32v (tc_sourceRank m), VStr (tc_sourceId m), u32v (tc_destinationRank m),
     VStr (tc_destinationId m), VVec (map u32v (tc_broadcastForwardRanks m))]"

definition read_TcpConnect :: "val list \<Rightarrow> TcpConnectMessage" where
  "read_TcpConnect vs = \<lparr>tc_key = of_strv (vs ! 0), tc_sourceRank = of_u32v (vs ! 1), tc_sourceId = of_strv (vs ! 2),
     tc_destinationRank = of_u32v (vs ! 3), tc_destinationId = of_strv (vs ! 4),
     tc_broadcastForwardRanks = map of_u32v (of_vecv (vs ! 5))\<rparr>"

fun tcp_bytes :: "tcp_msg \<Rightarrow> bytes" where
  "tcp_bytes (TConnect m) = le_bytes 8 signatureConnect @ encode TcpConnect_ty (tcp_connect_val m)"
| "tcp_bytes (TConnectAck m) = le_bytes 8 signatureConnectAck @ encode TcpConnect_ty (tcp_connect_val m)"
| "tcp_bytes (TMessage t s f) = (case f of Inr f \<Rightarrow> frame_bytes f | Inl e \<Rightarrow> [])"
| "tcp_bytes (TMessageAck s) = le_bytes 8 signatureMessageAck @ le_bytes 4 s"
| "tcp_bytes TKeepalive = le_bytes 8 signatureKeepalive"
| "tcp_bytes TKeepaliveAck = le_bytes 8 signatureKeepaliveAck"

definition decode_tcp :: "bytes \<Rightarrow> tcp_msg option result" where
  "decode_tcp buf =
     (if length buf < 8 then Inr None
      else let signature = le_nat (take 8 buf); view = drop 8 buf
           in if signature = signatureConnect then read_message TcpConnect_ty (Some \<circ> TConnect \<circ> read_TcpConnect) view
              else if signature = signatureConnectAck then read_message TcpConnect_ty (Some \<circ> TConnectAck \<circ> read_TcpConnect) view
              else if signature = signatureMessage
                then read_message (Struct (tuple [u32_ty, u32_ty]))
                       (\<lambda>vs. Some (TMessage (of_u32v (vs ! 0)) (of_u32v (vs ! 1)) (read_frame buf))) view
              else if signature = signatureMessageAck then read_message (Struct (tuple [u32_ty])) (\<lambda>vs. Some (TMessageAck (of_u32v (vs ! 0)))) view
              else if signature = signatureKeepalive then Inr (Some TKeepalive)
              else if signature = signatureKeepaliveAck then Inr (Some TKeepaliveAck)
              else Inr None)"

section \<open>Reading back\<close>

definition fits32 :: "nat \<Rightarrow> bool" where
  "fits32 n \<longleftrightarrow> n < 2 ^ 32"

lemma of_u32v_u32v [simp]: "fits32 n \<Longrightarrow> of_u32v (u32v n) = n"
  by (simp add: u32v_def fits32_def le_nat_le_bytes)

lemma has_u32 [simp]: "has_type u32_ty (u32v n)" "has_type (Triv 4) (u32v n)"
  by (simp_all add: u32_ty_def u32v_def)

lemma deserializeBufferPart_encode:
  assumes "has_type t v" "length (encode t v) < 2 ^ 64"
  shows "deserializeBufferPart t (encode t v @ rest) = Inr (v, rest)"
  using reads_deserialize(1) [OF assms] by (simp add: reads_def ahead_def deserializeBufferPart_def)

lemma read_message_encode:
  assumes "has_type t v" "length (encode t v) < 2 ^ 64"
  shows "read_message t f (encode t v) = Inr (f (struct_fields v))"
  using deserializeBufferPart_encode [OF assms, of "[]"] by (simp add: read_message_def)

definition str_ok :: "bytes \<Rightarrow> bool" where
  "str_ok s \<longleftrightarrow> length s < 2 ^ 64"

definition addrs_ok :: "(nat \<times> bytes) list \<Rightarrow> bool" where
  "addrs_ok as \<longleftrightarrow> length as < 2 ^ 64 \<and> list_all (\<lambda>(i, a). fits32 i \<and> str_ok a) as"

definition ranks_ok :: "nat list \<Rightarrow> bool" where
  "ranks_ok rs \<longleftrightarrow> length rs < 2 ^ 64 \<and> list_all fits32 rs"

fun udp_ok :: "udp_msg \<Rightarrow> bool" where
  "udp_ok (UConnect m) = (str_ok (uc_key m) \<and> fits32 (uc_sourceRank m) \<and> str_ok (uc_uid m) \<and> str_ok (uc_networkKey m) \<and> addrs_ok (uc_addresses m))"
| "udp_ok (UConnectAck m) = (str_ok (ua_key m) \<and> fits32 (ua_sourceRank m) \<and> str_ok (ua_uid m) \<and> ranks_ok (ua_addresses m))"
| "udp_ok (UAddresses m) = (str_ok (am_key m) \<and> fits32 (am_sourceRank m) \<and> str_ok (am_sourceId m) \<and> str_ok (am_networkKey m) \<and> addrs_ok (am_addresses m))"
| "udp_ok (UAddressesAck m) = (str_ok (aa_key m) \<and> fits32 (aa_sourceRank m) \<and> fits32 (aa_edge m))"
| "udp_ok (UHello m) = (str_ok (dh_key m) \<and> fits32 (dh_sourceRank m))"
| "udp_ok (UHelloAck m) = (str_ok (dh_key m) \<and> fits32 (dh_sourceRank m))"
| "udp_ok (UDiagnostic m) = (str_ok (di_key m) \<and> fits32 (di_reportingRank m) \<and> fits32 (di_stuckEdge m) \<and> str_ok (di_reason m))"

lemma has_addrs: "addrs_ok as \<Longrightarrow> has_type addresses_ty (VVec (map addrv as))"
  by (auto simp: addresses_ty_def addrs_ok_def u64_count_def list_all_iff addrv_def str_ok_def)

lemma has_ranks: "ranks_ok rs \<Longrightarrow> has_type (VecT u32_ty) (VVec (map u32v rs))"
  by (simp add: ranks_ok_def u64_count_def list_all_iff)

lemma of_addrs: "addrs_ok as \<Longrightarrow> map of_addrv (map addrv as) = as"
  by (induction as) (auto simp: addrs_ok_def addrv_def)

lemma of_ranks: "ranks_ok rs \<Longrightarrow> map of_u32v (map u32v rs) = rs"
  by (induction rs) (auto simp: ranks_ok_def)

lemma udp_has_type: "udp_ok m \<Longrightarrow> has_type (udp_ty m) (udp_val m)"
  using has_addrs has_ranks
  by (cases m) (simp_all add: UdpConnect_ty_def UdpConnectAck_ty_def Addresses_ty_def AddressesAck_ty_def
    DiagnosticHello_ty_def DiagnosticInfo_ty_def str_ok_def u64_count_def)

lemma signature_read: "le_nat (take 8 (le_bytes 8 n @ b)) = n mod 2 ^ 64" "drop 8 (le_bytes 8 n @ b) = b"
  by (simp_all add: le_nat_le_bytes)

lemmas decode_simps = decode_udp_def decode_tcp_def Let_def le_nat_le_bytes signature_defs

lemma udp_decode:
  assumes "udp_ok m" "length (udp_bytes m) < 2 ^ 64"
  shows "decode_udp (udp_bytes m) = Inr (Some m)"
proof -
  have len: "length (encode (udp_ty m) (udp_val m)) < 2 ^ 64" using assms(2) by (simp add: udp_bytes_def)
  note rd = read_message_encode [OF udp_has_type [OF assms(1)] len]
  show ?thesis
  proof (cases m)
    case (UConnect x)
    then show ?thesis using rd [of "Some \<circ> read_UdpConnect"] assms(1) of_addrs [of "uc_addresses x"]
      by (simp add: decode_simps udp_bytes_def read_UdpConnect_def)
  next
    case (UConnectAck x)
    then show ?thesis using rd [of "Some \<circ> read_UdpConnectAck"] assms(1) of_ranks [of "ua_addresses x"]
      by (simp add: decode_simps udp_bytes_def read_UdpConnectAck_def)
  next
    case (UAddresses x)
    then show ?thesis using rd [of "Some \<circ> read_Addresses"] assms(1) of_addrs [of "am_addresses x"]
      by (simp add: decode_simps udp_bytes_def read_Addresses_def)
  next
    case (UAddressesAck x)
    then show ?thesis using rd [of "Some \<circ> read_AddressesAck"] assms(1)
      by (simp add: decode_simps udp_bytes_def read_AddressesAck_def)
  next
    case (UHello x)
    then show ?thesis using rd [of "Some \<circ> UHello \<circ> read_Hello"] assms(1)
      by (simp add: decode_simps udp_bytes_def read_Hello_def)
  next
    case (UHelloAck x)
    then show ?thesis using rd [of "Some \<circ> UHelloAck \<circ> read_Hello"] assms(1)
      by (simp add: decode_simps udp_bytes_def read_Hello_def)
  next
    case (UDiagnostic x)
    then show ?thesis using rd [of "Some \<circ> read_Diagnostic"] assms(1)
      by (simp add: decode_simps udp_bytes_def read_Diagnostic_def)
  qed
qed

section \<open>Headers\<close>

definition header_ok :: "MessageHeader \<Rightarrow> bool" where
  "header_ok h \<longleftrightarrow> list_all fits32 [h_ttl h, h_seq h, h_destinationRank h, h_id h, h_sourceRank h, h_diagnosticSource h] \<and>
     h_messageType h < 256"

lemma length_header_bytes [simp]: "length (header_bytes h) = 28"
  by (simp add: header_bytes_def)

lemma read_header_bytes:
  assumes "header_ok h"
  shows "read_header (header_bytes h @ rest) = Inr (h, rest)"
proof -
  have "deserializeBufferPart (Triv 28) (header_bytes h @ rest) = Inr (VTriv (header_bytes h), rest)"
    using deserializeBufferPart_encode [of "Triv 28" "VTriv (header_bytes h)"] by simp
  moreover have "word_at 0 (header_bytes h) = h_ttl h" "word_at 4 (header_bytes h) = h_seq h"
    "word_at 8 (header_bytes h) = h_destinationRank h" "word_at 12 (header_bytes h) = h_id h"
    "word_at 16 (header_bytes h) = h_sourceRank h" "word_at 20 (header_bytes h) = h_diagnosticSource h"
    using assms by (simp_all add: word_at_def header_bytes_def header_ok_def fits32_def le_nat_le_bytes)
  moreover have "header_bytes h ! 24 = of_nat (h_messageType h)" "header_bytes h ! 25 = (if h_broadcast h then 1 else 0)"
    by (simp_all add: header_bytes_def nth_append)
  moreover have "unat (of_nat (h_messageType h) :: u8) = h_messageType h"
    using assms by (simp add: header_ok_def unat_of_nat)
  ultimately show ?thesis by (simp add: read_header_def)
qed

lemma read_frame_bytes:
  assumes "header_ok (header f)"
  shows "read_frame (frame_bytes f) = Inr f"
  using read_header_bytes [OF assms] by (simp add: read_frame_def frame_bytes_def)

fun tcp_ok :: "tcp_msg \<Rightarrow> bool" where
  "tcp_ok (TConnect m) = (str_ok (tc_key m) \<and> fits32 (tc_sourceRank m) \<and> str_ok (tc_sourceId m) \<and> fits32 (tc_destinationRank m) \<and>
     str_ok (tc_destinationId m) \<and> ranks_ok (tc_broadcastForwardRanks m))"
| "tcp_ok (TConnectAck m) = (str_ok (tc_key m) \<and> fits32 (tc_sourceRank m) \<and> str_ok (tc_sourceId m) \<and> fits32 (tc_destinationRank m) \<and>
     str_ok (tc_destinationId m) \<and> ranks_ok (tc_broadcastForwardRanks m))"
| "tcp_ok (TMessage t s f) = (case f of Inl e \<Rightarrow> False | Inr f \<Rightarrow> header_ok (header f) \<and> t = h_ttl (header f) \<and> s = h_seq (header f))"
| "tcp_ok (TMessageAck s) = fits32 s"
| "tcp_ok TKeepalive = True"
| "tcp_ok TKeepaliveAck = True"

lemma tcp_connect_read:
  assumes "tcp_ok (TConnect m)" "length (encode TcpConnect_ty (tcp_connect_val m)) < 2 ^ 64"
  shows "read_message TcpConnect_ty (g \<circ> read_TcpConnect) (encode TcpConnect_ty (tcp_connect_val m)) = Inr (g m)"
proof -
  have "has_type TcpConnect_ty (tcp_connect_val m)"
    using assms(1) has_ranks by (simp add: TcpConnect_ty_def tcp_connect_val_def str_ok_def u64_count_def)
  from read_message_encode [OF this assms(2), of "g \<circ> read_TcpConnect"] show ?thesis
    using assms(1) of_ranks [of "tc_broadcastForwardRanks m"]
    by (cases m) (simp add: tcp_connect_val_def read_TcpConnect_def)
qed

lemma read_two_words:
  "deserializeBufferPart (Struct (tuple [u32_ty, u32_ty])) (le_bytes 4 a @ le_bytes 4 b @ rest) = Inr (VStruct [u32v a, u32v b], rest)"
  using deserializeBufferPart_encode [of "Struct (tuple [u32_ty, u32_ty])" "VStruct [u32v a, u32v b]" rest]
  by (simp add: u32_ty_def u32v_def)

lemma read_one_word:
  "deserializeBufferPart (Struct (tuple [u32_ty])) (le_bytes 4 a) = Inr (VStruct [u32v a], [])"
  using deserializeBufferPart_encode [of "Struct (tuple [u32_ty])" "VStruct [u32v a]" "[]"]
  by (simp add: u32_ty_def u32v_def)

lemma tcp_decode:
  assumes "tcp_ok m" "length (tcp_bytes m) < 2 ^ 64"
  shows "decode_tcp (tcp_bytes m) = Inr (Some m)"
proof (cases m)
  case (TConnect x)
  then show ?thesis using tcp_connect_read [of x "Some \<circ> TConnect"] assms
    by (simp add: decode_simps comp_assoc)
next
  case (TConnectAck x)
  then show ?thesis using tcp_connect_read [of x "Some \<circ> TConnectAck"] assms
    by (simp add: decode_simps comp_assoc)
next
  case (TMessage t s r)
  then obtain f where r: "r = Inr f" "header_ok (header f)" "t = h_ttl (header f)" "s = h_seq (header f)"
    using assms(1) by (cases r) auto
  obtain tl where tl: "header_bytes (header f) = le_bytes 4 t @ le_bytes 4 s @ tl"
    by (simp add: header_bytes_def r)
  then have "read_message (Struct (tuple [u32_ty, u32_ty])) g (header_bytes (header f) @ payload f) = Inr (g [u32v t, u32v s])" for g :: "val list \<Rightarrow> tcp_msg option"
    using read_two_words [of t s "tl @ payload f"] by (simp add: read_message_def)
  moreover have "fits32 t" "fits32 s" using r by (auto simp: header_ok_def)
  moreover have "decode_tcp (frame_bytes f) = read_message (Struct (tuple [u32_ty, u32_ty]))
      (\<lambda>vs. Some (TMessage (of_u32v (vs ! 0)) (of_u32v (vs ! 1)) (read_frame (frame_bytes f)))) (header_bytes (header f) @ payload f)"
    by (simp add: decode_simps frame_bytes_def)
  ultimately show ?thesis using r read_frame_bytes [OF r(2)] by (simp add: TMessage)
next
  case (TMessageAck s)
  then show ?thesis using assms read_one_word [of s] by (simp add: decode_simps read_message_def)
qed (simp_all add: decode_simps)

section \<open>Properties\<close>

text \<open>C16: Every datagram and every TCP message of the store whose numbers fit their fields is read back as
  it was written.\<close>

theorem messages_roundtrip:
  assumes "udp_ok u" "length (udp_bytes u) < 2 ^ 64" "tcp_ok t" "length (tcp_bytes t) < 2 ^ 64"
  shows "decode_udp (udp_bytes u) = Inr (Some u) \<and> decode_tcp (tcp_bytes t) = Inr (Some t)"
  using udp_decode [OF assms(1,2)] tcp_decode [OF assms(3,4)] by simp

definition sample_frame :: frame where
  "sample_frame = \<lparr>header = \<lparr>h_ttl = 8, h_seq = 300, h_destinationRank = 2, h_id = 70000, h_sourceRank = 1,
     h_diagnosticSource = 1, h_messageType = messageSet, h_broadcast = True\<rparr>, payload = [1, 2, 3]\<rparr>"

theorem messages_roundtrip_witness:
  "decode_udp (udp_bytes (UAddressesAck \<lparr>aa_key = [104, 105], aa_sourceRank = 3, aa_edge = 500\<rparr>))
     = Inr (Some (UAddressesAck \<lparr>aa_key = [104, 105], aa_sourceRank = 3, aa_edge = 500\<rparr>)) \<and>
   decode_tcp (tcp_bytes (TMessage 8 300 (Inr sample_frame))) = Inr (Some (TMessage 8 300 (Inr sample_frame)))"
  by (rule messages_roundtrip)
    (simp_all add: sample_frame_def udp_bytes_def AddressesAck_ty_def u32_ty_def u32v_def str_ok_def fits32_def header_ok_def
      frame_bytes_def message_defs)

text \<open>C36: Patching the time to live, the sequence number or the destination in the bytes of a message changes
  exactly that field.\<close>

theorem patches_change_one_field:
  "patch_ttl t (frame_bytes f) = frame_bytes (f\<lparr>header := (header f)\<lparr>h_ttl := t\<rparr>\<rparr>) \<and>
   patch_seq s (frame_bytes f) = frame_bytes (f\<lparr>header := (header f)\<lparr>h_seq := s\<rparr>\<rparr>) \<and>
   patch_dest d (frame_bytes f) = frame_bytes (f\<lparr>header := (header f)\<lparr>h_destinationRank := d\<rparr>\<rparr>)"
  by (simp add: patch_ttl_def patch_seq_def patch_dest_def overwrite_at_def frame_bytes_def header_bytes_def)

end
