(* ===== verification/Store_State.thy ===== *)
theory Store_State
  imports Store_Messages Store_Topology
begin

text \<open>
  The state of one rank of the store, \<open>StoreImpl\<close> in \<^verbatim>\<open>core/store.cc\<close>, and the small updates
  its handlers are made of. Connections and waits are shared objects: they are kept in lists and
  referred to by their position. Hash tables are association lists. Time is a number of
  milliseconds, read once per handler. What a handler does to the outside world is appended to \<open>outs\<close>:
  datagrams, messages on connections, name lookups and connection attempts; callbacks are
  queued as values of \<open>callback\<close>.
\<close>

section \<open>Plumbing\<close>

text \<open>A handler that throws leaves the state as it was at that point.\<close>

definition andthen :: "'e + 's \<Rightarrow> ('s \<Rightarrow> 'e + 't) \<Rightarrow> 'e + 't" where
  "andthen r f = (case r of Inl e \<Rightarrow> Inl e | Inr s \<Rightarrow> f s)"

fun each :: "('s \<Rightarrow> 'a \<Rightarrow> 'e + 's) \<Rightarrow> 's \<Rightarrow> 'a list \<Rightarrow> 'e + 's" where
  "each f s [] = Inr s"
| "each f s (x # xs) = andthen (f s x) (\<lambda>s. each f s xs)"

lemma andthen_simps [simp]: "andthen (Inl e) f = Inl e" "andthen (Inr s) f = f s"
  by (simp_all add: andthen_def)

text \<open>Hash tables: \<open>put\<close> is an assignment through \<open>operator[]\<close>, \<open>put_new\<close> an \<open>insert\<close>.\<close>

fun put :: "'k \<Rightarrow> 'v \<Rightarrow> ('k \<times> 'v) list \<Rightarrow> ('k \<times> 'v) list" where
  "put k v [] = [(k, v)]"
| "put k v ((k', v') # m) = (if k' = k then (k, v) # m else (k', v') # put k v m)"

definition put_new :: "'k \<times> 'v \<Rightarrow> ('k \<times> 'v) list \<Rightarrow> ('k \<times> 'v) list" where
  "put_new kv m = (if fst kv \<in> set (map fst m) then m else m @ [kv])"

definition drop_key :: "'k \<Rightarrow> ('k \<times> 'v) list \<Rightarrow> ('k \<times> 'v) list" where
  "drop_key k m = filter (\<lambda>kv. fst kv \<noteq> k) m"

definition set_add :: "'k \<Rightarrow> 'k list \<Rightarrow> 'k list" where
  "set_add k m = (if k \<in> set m then m else m @ [k])"

lemma map_of_put [simp]: "map_of (put k v m) = (map_of m)(k \<mapsto> v)"
  by (induction m) auto

lemma map_of_drop_key [simp]: "map_of (drop_key k m) = (map_of m)(k := None)"
  by (induction m) (auto simp: drop_key_def)

lemma keys_put: "fst ` set (put k v m) = insert k (fst ` set m)"
  by (simp flip: dom_map_of_conv_image_fst)

lemma keys_drop_key: "fst ` set (drop_key k m) = fst ` set m - {k}"
  by (auto simp: drop_key_def)

lemma set_put: "set (put k v m) \<subseteq> insert (k, v) (set m)"
  by (induction m) (auto split: if_splits)

section \<open>Components of the state\<close>

type_synonym addr = bytes

record shutdown_state =
  sh_shutdown :: bool
  sh_exited :: bool
  sh_exitAck :: bool

record connection_info =
  c_lastReceive :: nat
  c_sourceRank :: "nat option"
  c_closed :: bool

record outgoing_message =
  o_seq :: "32 word"
  o_frame :: frame
  o_queueTime :: nat
  o_diagnosticSource :: nat

record edge_info =
  e_uid :: bytes
  e_networkKey :: bytes
  e_addresses :: "(nat \<times> bytes) list"
  e_udpaddr :: addr
  e_udpSocket :: "nat option"
  e_lastConnectEdge :: nat
  e_tcpconnections :: "nat list"
  e_incomingSeq :: "32 word"
  e_outgoingSeq :: "32 word"
  e_outgoingQueue :: "outgoing_message list"
  e_incomingQueue :: "(32 word \<times> frame result) list"
  e_everConnected :: bool
  e_sentDiagnosticSourceFor :: "nat list"
  e_broadcastForwardFor :: "nat list"
  e_pendingBroadcasts :: "(nat \<times> frame) list"

record rank_info =
  r_uid :: bytes
  r_networkKey :: bytes
  r_addresses :: "(nat \<times> bytes) list"
  r_udpaddr :: addr
  r_udpSocket :: "nat option"
  r_connected :: "nat list"

record diagnostic_source =
  ds_addrStrings :: "bytes list"
  ds_resolvedAddrs :: "addr list"
  ds_verified :: bool
  ds_verifiedAddr :: addr
  ds_verifiedSocket :: "nat option"
  ds_lastAttempt :: nat
  ds_attemptCount :: nat

definition no_source :: diagnostic_source where
  "no_source = \<lparr>ds_addrStrings = [], ds_resolvedAddrs = [], ds_verified = False, ds_verifiedAddr = [],
     ds_verifiedSocket = None, ds_lastAttempt = 0, ds_attemptCount = 0\<rparr>"

record received_diagnostic =
  rd_reportingRank :: nat
  rd_stuckEdge :: nat
  rd_kind :: u8
  rd_reason :: bytes
  rd_receiveTime :: nat

text \<open>The texts of diagnostics; \<open>fmt::sprintf\<close> renders them.\<close>

datatype reason =
    WaitReconnect nat
  | WaitConnect nat
  | NoConnection nat
  | MessagePending nat nat
  | Established nat
  | ConnectionLost nat bytes

text \<open>\<open>Wait\<close>: \<open>w_shutdownRank\<close> is the rank named in the error message, if one is.\<close>

record wait_state =
  w_b :: bool
  w_data :: bytes
  w_futex :: bool
  w_error :: bool
  w_shutdownRank :: "nat option"
  w_end :: nat
  w_targetRank :: nat
  w_firstHopEdge :: nat

text \<open>The callback that \<open>processMessage\<close> leaves with \<open>internalStoreGetValue\<close>.\<close>

record waiter =
  wt_messageType :: nat
  wt_sourceRank :: nat
  wt_id :: nat
  wt_diagnosticSource :: nat

datatype close_state = NotStarted | WaitShutdownAck | WaitExit | WaitExitAck | CloseDone

datatype callback =
    CConnect
  | CTryPort nat
  | CUdpBurst addr
  | CUdpConnect addr
  | CKeepalive
  | CConnectTo bytes nat bytes
  | CConnectEdge nat
  | CSendAddresses nat nat
  | CTryHello nat
  | CRead nat bytes
  | CLost nat bytes
  | CClose

datatype action =
    OUdp "nat option" addr udp_msg
  | OTcp nat tcp_msg
  | OResolve nat
  | OConnect nat bytes

section \<open>Configuration and state\<close>

text \<open>
  What does not change after construction, and the functions outside the store: name resolution,
  reachability, shuffles, rendering of texts and the random delay.
\<close>

record config =
  worldSize :: nat
  rank :: nat
  storekey :: bytes
  myId :: bytes
  hops :: "nat list"
  edges :: "nat list list"
  myUdpAddresses :: "bytes list"
  udps :: nat
  port :: nat
  networkKey :: bytes
  resolve :: "bytes \<Rightarrow> addr list"
  isReachable :: "bytes \<Rightarrow> bytes \<Rightarrow> bool"
  mix_resolved :: "addr list \<Rightarrow> addr list"
  mix_addresses :: "(nat \<times> bytes) list \<Rightarrow> (nat \<times> bytes) list"
  render :: "reason \<Rightarrow> bytes"
  keepalive_delay :: nat

record store_state =
  closed :: bool
  anyQueued :: bool
  callbacks :: "(nat \<times> callback) list"
  queuedCallbacks :: "(nat \<times> callback) list"
  conns :: "connection_info list"
  floatingConnections :: "nat list"
  connectAcked :: bool
  connectCounter :: nat
  unackedAddresses :: "(nat \<times> bytes) list"
  shuttingDown :: bool
  exited :: bool
  exitTime :: nat
  exitSourceRank :: "nat option"
  closeState :: close_state
  shutdownDeadline :: nat
  shutdownBackoff :: nat
  rankInfos :: "rank_info option list"
  shutdownStates :: "shutdown_state list"
  edgePeers :: "(nat \<times> edge_info) list"
  diagnosticSources :: "(nat \<times> diagnostic_source) list"
  receivedDiagnostics :: "received_diagnostic list"
  prevConnectTime :: nat
  nextId :: nat
  waits :: "(nat \<times> nat) list"
  wait_objects :: "wait_state list"
  store :: "(bytes \<times> bytes) list"
  storeWaiters :: "(bytes \<times> waiter list) list"
  outs :: "action list"

type_synonym handled = "(error \<times> store_state) + store_state"

section \<open>Small updates\<close>

definition emit :: "action \<Rightarrow> store_state \<Rightarrow> store_state" where
  "emit x s = s\<lparr>outs := outs s @ [x]\<rparr>"

definition findEdge :: "store_state \<Rightarrow> nat \<Rightarrow> edge_info option" where
  "findEdge s r = map_of (edgePeers s) r"

definition getEdge :: "nat \<Rightarrow> store_state \<Rightarrow> (edge_info \<Rightarrow> handled) \<Rightarrow> handled" where
  "getEdge r s f = (case findEdge s r of None \<Rightarrow> Inl (CheckFailed, s) | Some e \<Rightarrow> f e)"

definition update_edge :: "nat \<Rightarrow> (edge_info \<Rightarrow> edge_info) \<Rightarrow> store_state \<Rightarrow> store_state" where
  "update_edge r f s = s\<lparr>edgePeers := map (\<lambda>(k, e). (k, if k = r then f e else e)) (edgePeers s)\<rparr>"

definition addCallback :: "nat \<Rightarrow> callback \<Rightarrow> store_state \<Rightarrow> store_state" where
  "addCallback time cb s =
     (if closed s then s else s\<lparr>queuedCallbacks := queuedCallbacks s @ [(time, cb)], anyQueued := True\<rparr>)"

definition update_conn :: "nat \<Rightarrow> (connection_info \<Rightarrow> connection_info) \<Rightarrow> store_state \<Rightarrow> store_state" where
  "update_conn i f s = s\<lparr>conns := (conns s)[i := f (conns s ! i)]\<rparr>"

definition close_conn :: "nat \<Rightarrow> store_state \<Rightarrow> store_state" where
  "close_conn i s = update_conn i (\<lambda>c. c\<lparr>c_closed := True\<rparr>) s"

definition write_conn :: "nat \<Rightarrow> tcp_msg \<Rightarrow> store_state \<Rightarrow> store_state" where
  "write_conn i m s = emit (OTcp i m) s"

end
