(* ===== verification/Store_Node.thy ===== *)
theory Store_Node
  imports Store_State
begin

text \<open>
  How a rank of the store handles messages: \<open>processMessage\<close>, \<open>sendMessage\<close> and what they call in
  \<^verbatim>\<open>core/store.cc\<close>. These functions call each other; every one is a definition over the calls it makes
  (\<open>rec\<close>), and \<open>run\<close> ties them together with a bound on the depth of the calls.
\<close>

section \<open>Diagnostics\<close>

definition same_edge :: "nat \<Rightarrow> nat \<Rightarrow> received_diagnostic \<Rightarrow> bool" where
  "same_edge reporting stuck d \<longleftrightarrow> rd_reportingRank d = reporting \<and> rd_stuckEdge d = stuck"

text \<open>Times before the clock's origin count as its origin, so that the cutoff never lies after a time received.\<close>

definition addDiagnosticIfNew ::
  "nat \<Rightarrow> received_diagnostic list \<Rightarrow> nat \<Rightarrow> nat \<Rightarrow> u8 \<Rightarrow> bytes \<Rightarrow> bool \<times> received_diagnostic list" where
  "addDiagnosticIfNew now ds reporting stuck kind text =
     (case find (same_edge reporting stuck) (rev ds) of
        Some d \<Rightarrow>
          if rd_reason d = text then (False, ds)
          else (True, dropWhile (\<lambda>d. rd_receiveTime d < now - 60000)
                 (ds @ [\<lparr>rd_reportingRank = reporting, rd_stuckEdge = stuck, rd_kind = kind, rd_reason = text, rd_receiveTime = now\<rparr>]))
      | None \<Rightarrow>
          (True, dropWhile (\<lambda>d. rd_receiveTime d < now - 60000)
             (ds @ [\<lparr>rd_reportingRank = reporting, rd_stuckEdge = stuck, rd_kind = kind, rd_reason = text, rd_receiveTime = now\<rparr>])))"

definition add_diagnostic :: "nat \<Rightarrow> nat \<Rightarrow> nat \<Rightarrow> u8 \<Rightarrow> bytes \<Rightarrow> store_state \<Rightarrow> store_state" where
  "add_diagnostic now reporting stuck kind text s =
     s\<lparr>receivedDiagnostics := snd (addDiagnosticIfNew now (receivedDiagnostics s) reporting stuck kind text)\<rparr>"

definition sendDiagnosticInfo ::
  "config \<Rightarrow> nat \<Rightarrow> nat \<Rightarrow> nat \<Rightarrow> DiagnosticKind \<Rightarrow> reason \<Rightarrow> store_state \<Rightarrow> store_state" where
  "sendDiagnosticInfo c now source stuck kind why s =
     (if source = rank c then add_diagnostic now (rank c) stuck (kind_code kind) (render c why) s
      else case map_of (diagnosticSources s) source of
        None \<Rightarrow> s
      | Some info \<Rightarrow>
          let msg = UDiagnostic \<lparr>di_key = storekey c, di_reportingRank = rank c, di_stuckEdge = stuck,
                      di_kind = kind_code kind, di_reason = render c why\<rparr>
          in if ds_verifiedAddr info \<noteq> [] then emit (OUdp (ds_verifiedSocket info) (ds_verifiedAddr info) msg) s
             else case ds_resolvedAddrs info of
               [] \<Rightarrow> s
             | a # _ \<Rightarrow> emit (OUdp None a msg) s)"

definition stuck_reason :: "nat \<Rightarrow> edge_info \<Rightarrow> reason" where
  "stuck_reason edge e =
     (if e_addresses e = [] then (if e_everConnected e then WaitReconnect edge else WaitConnect edge)
      else NoConnection edge)"

definition tryDiagnosticHello :: "config \<Rightarrow> nat \<Rightarrow> nat \<Rightarrow> store_state \<Rightarrow> store_state" where
  "tryDiagnosticHello c now source s =
     (case map_of (diagnosticSources s) source of
        None \<Rightarrow> s
      | Some info \<Rightarrow>
          if ds_verified info \<or> ds_resolvedAddrs info = [] then s
          else if 0 < ds_attemptCount info \<and> now - ds_lastAttempt info < 500 then s
          else let info = info\<lparr>ds_lastAttempt := now, ds_attemptCount := ds_attemptCount info + 1\<rparr>;
                   i = (ds_attemptCount info - 1) mod length (ds_resolvedAddrs info);
                   s = s\<lparr>diagnosticSources := put source info (diagnosticSources s)\<rparr>;
                   s = emit (OUdp None (ds_resolvedAddrs info ! i) (UHello \<lparr>dh_key = storekey c, dh_sourceRank = rank c\<rparr>)) s
               in if ds_attemptCount info < 10 then addCallback (now + 500 * ds_attemptCount info) (CTryHello source) s else s)"

section \<open>Updates of the handlers\<close>

text \<open>\<open>sendMessage\<close>: the message gets the next sequence number of the edge and is queued until it is acknowledged.\<close>

definition numbered :: "edge_info \<Rightarrow> frame \<Rightarrow> frame" where
  "numbered e f = f\<lparr>header := (header f)\<lparr>h_seq := unat (e_outgoingSeq e)\<rparr>\<rparr>"

definition queue_message :: "nat \<Rightarrow> nat \<Rightarrow> frame \<Rightarrow> nat \<Rightarrow> store_state \<Rightarrow> store_state" where
  "queue_message now edge f source =
     update_edge edge (\<lambda>e. e\<lparr>e_outgoingSeq := e_outgoingSeq e + 1,
       e_outgoingQueue := e_outgoingQueue e @
         [\<lparr>o_seq = e_outgoingSeq e, o_frame = numbered e f, o_queueTime = now, o_diagnosticSource = source\<rparr>]\<rparr>)"

definition mark_sent :: "nat \<Rightarrow> nat \<Rightarrow> store_state \<Rightarrow> store_state" where
  "mark_sent edge source =
     update_edge edge (\<lambda>e. e\<lparr>e_sentDiagnosticSourceFor := set_add source (e_sentDiagnosticSourceFor e)\<rparr>)"

definition add_pending :: "nat \<Rightarrow> nat \<Rightarrow> frame \<Rightarrow> store_state \<Rightarrow> store_state" where
  "add_pending edge source f =
     update_edge edge (\<lambda>e. e\<lparr>e_pendingBroadcasts := e_pendingBroadcasts e @ [(source, f)]\<rparr>)"

text \<open>\<open>internalStoreSetValue\<close>: the value is stored and the waiters are taken out before they are called.\<close>

definition set_value :: "bytes \<Rightarrow> bytes \<Rightarrow> store_state \<Rightarrow> store_state" where
  "set_value key v s = s\<lparr>store := put key v (store s), storeWaiters := drop_key key (storeWaiters s)\<rparr>"

definition waiters_of :: "bytes \<Rightarrow> store_state \<Rightarrow> waiter list" where
  "waiters_of key s = (case map_of (storeWaiters s) key of None \<Rightarrow> [] | Some ws \<Rightarrow> ws)"

definition add_waiter :: "bytes \<Rightarrow> waiter \<Rightarrow> store_state \<Rightarrow> store_state" where
  "add_waiter key w s = s\<lparr>storeWaiters := put key (waiters_of key s @ [w]) (storeWaiters s)\<rparr>"

definition update_wait :: "nat \<Rightarrow> (wait_state \<Rightarrow> wait_state) \<Rightarrow> store_state \<Rightarrow> store_state" where
  "update_wait h f s = s\<lparr>wait_objects := (wait_objects s)[h := f (wait_objects s ! h)]\<rparr>"

text \<open>\<open>messageDone\<close>: the wait is answered and forgotten; an answer nobody waits for is ignored.\<close>

definition finish_wait :: "nat \<Rightarrow> bool \<Rightarrow> bytes \<Rightarrow> store_state \<Rightarrow> store_state" where
  "finish_wait i b v s =
     (case map_of (waits s) i of
        None \<Rightarrow> s
      | Some h \<Rightarrow> (update_wait h (\<lambda>w. w\<lparr>w_b := b, w_data := v, w_futex := True\<rparr>) s)\<lparr>waits := drop_key i (waits s)\<rparr>)"

definition exit_wait :: "config \<Rightarrow> nat option \<Rightarrow> wait_state \<Rightarrow> wait_state" where
  "exit_wait c source w =
     w\<lparr>w_error := True, w_shutdownRank := (if source = Some (rank c) then None else source), w_futex := True\<rparr>"

definition exitWait :: "config \<Rightarrow> nat \<Rightarrow> store_state \<Rightarrow> store_state" where
  "exitWait c h s = update_wait h (exit_wait c (exitSourceRank s)) s"

definition update_shutdown :: "nat \<Rightarrow> (shutdown_state \<Rightarrow> shutdown_state) \<Rightarrow> store_state \<Rightarrow> store_state" where
  "update_shutdown r f s =
     (if r < length (shutdownStates s) then s\<lparr>shutdownStates := (shutdownStates s)[r := f (shutdownStates s ! r)]\<rparr> else s)"

definition note_origin :: "nat \<Rightarrow> store_state \<Rightarrow> store_state" where
  "note_origin origin s = (if exitSourceRank s = None then s\<lparr>exitSourceRank := Some origin\<rparr> else s)"

text \<open>The exit phase: every wait that is still open fails.\<close>

definition enter_exit :: "config \<Rightarrow> nat \<Rightarrow> store_state \<Rightarrow> store_state" where
  "enter_exit c now s = fold (\<lambda>(i, h) s. exitWait c h s) (waits s) (s\<lparr>exited := True, exitTime := now\<rparr>)"

definition learn_source :: "config \<Rightarrow> nat \<Rightarrow> bytes list \<Rightarrow> store_state \<Rightarrow> store_state" where
  "learn_source c source addrs s =
     (let info = (case map_of (diagnosticSources s) source of None \<Rightarrow> no_source | Some i \<Rightarrow> i);
          info = info\<lparr>ds_addrStrings := addrs,
                      ds_resolvedAddrs := mix_resolved c (ds_resolvedAddrs info @ concat (map (resolve c) addrs))\<rparr>
      in s\<lparr>diagnosticSources := put source info (diagnosticSources s)\<rparr>)"

section \<open>Messages\<close>

datatype call =
    Process "frame result" nat
  | Send nat frame nat
  | SendTo nat nat nat nat bytes
  | Ensure nat nat
  | Forward nat frame nat
  | Broadcast nat bytes

type_synonym handler = "call \<Rightarrow> store_state \<Rightarrow> handled"

definition make_frame :: "config \<Rightarrow> nat \<Rightarrow> nat \<Rightarrow> nat \<Rightarrow> nat \<Rightarrow> bool \<Rightarrow> bytes \<Rightarrow> frame" where
  "make_frame c dest i source type bc args =
     \<lparr>header = \<lparr>h_ttl = worldSize c, h_seq = 0, h_destinationRank = dest, h_id = i, h_sourceRank = rank c,
                h_diagnosticSource = source, h_messageType = type, h_broadcast = bc\<rparr>, payload = args\<rparr>"

definition frame_message :: "frame \<Rightarrow> tcp_msg" where
  "frame_message f = TMessage (h_ttl (header f)) (h_seq (header f)) (Inr f)"

text \<open>The arguments of messages.\<close>

definition bytesv :: "bytes \<Rightarrow> val" where
  "bytesv b = VVec (map (\<lambda>x. VTriv [x]) b)"

definition of_bytesv :: "val \<Rightarrow> bytes" where
  "of_bytesv v = map of_byte (of_vecv v)"

definition key_value_args :: "bytes \<Rightarrow> bytes \<Rightarrow> bytes" where
  "key_value_args key v = encode (Struct (tuple [Str, VecT (Triv 1)])) (VStruct [VStr key, bytesv v])"

definition key_args :: "bytes \<Rightarrow> bytes" where
  "key_args key = encode Str (VStr key)"

definition value_args :: "bytes \<Rightarrow> bytes" where
  "value_args v = encode (VecT (Triv 1)) (bytesv v)"

definition bool_args :: "bool \<Rightarrow> bytes" where
  "bool_args b = [if b then 1 else 0]"

definition rank_args :: "nat \<Rightarrow> bytes" where
  "rank_args r = le_bytes 4 r"

definition strings_args :: "bytes list \<Rightarrow> bytes" where
  "strings_args xs = encode (VecT Str) (VVec (map VStr xs))"

definition read_args :: "ty \<Rightarrow> frame \<Rightarrow> store_state \<Rightarrow> (val \<Rightarrow> handled) \<Rightarrow> handled" where
  "read_args t f s k = (case deserializeBufferPart t (payload f) of Inl e \<Rightarrow> Inl (e, s) | Inr (v, rest) \<Rightarrow> k v)"

section \<open>Sending\<close>

definition sendMessage :: "handler \<Rightarrow> config \<Rightarrow> nat \<Rightarrow> nat \<Rightarrow> frame \<Rightarrow> nat \<Rightarrow> store_state \<Rightarrow> handled" where
  "sendMessage rec c now edge f source s =
     (if edge = rank c then rec (Process (Inr f) edge) s
      else andthen (rec (Ensure edge source) s) (\<lambda>s.
        getEdge edge s (\<lambda>e.
          let s = queue_message now edge f source s
          in case e_tcpconnections e of
               i # _ \<Rightarrow> Inr (write_conn i (frame_message (numbered e f)) s)
             | [] \<Rightarrow> Inr (sendDiagnosticInfo c now source edge Transient (stuck_reason edge e) s))))"

definition ensureDiagnosticSourceSent :: "handler \<Rightarrow> config \<Rightarrow> nat \<Rightarrow> nat \<Rightarrow> store_state \<Rightarrow> handled" where
  "ensureDiagnosticSourceSent rec c edge source s =
     (if edge = rank c then Inr s
      else getEdge edge s (\<lambda>e.
        if source \<in> set (e_sentDiagnosticSourceFor e) then Inr s
        else let s = mark_sent edge source s;
                 addrs = (if source = rank c then myUdpAddresses c
                          else case map_of (diagnosticSources s) source of None \<Rightarrow> [] | Some info \<Rightarrow> ds_addrStrings info)
             in if addrs = [] then Inr s
                else rec (SendTo edge 0 source messageDiagnosticSource (strings_args addrs)) s))"

definition first_hop :: "config \<Rightarrow> nat \<Rightarrow> store_state \<Rightarrow> (nat \<Rightarrow> handled) \<Rightarrow> handled" where
  "first_hop c dest s k = (if dest < length (hops c) then k (hops c ! dest) else Inl (OutOfBounds, s))"

definition sendMessageTo ::
  "handler \<Rightarrow> config \<Rightarrow> nat \<Rightarrow> nat \<Rightarrow> nat \<Rightarrow> nat \<Rightarrow> bytes \<Rightarrow> store_state \<Rightarrow> handled" where
  "sendMessageTo rec c dest i source type args s =
     first_hop c dest s (\<lambda>edge.
       let f = make_frame c dest i source type False args
       in if edge = rank c then rec (Process (Inr f) edge) s
          else getEdge edge s (\<lambda>_. rec (Send edge f source) s))"

definition forward_to :: "handler \<Rightarrow> config \<Rightarrow> nat \<Rightarrow> frame \<Rightarrow> nat \<Rightarrow> store_state \<Rightarrow> nat \<Rightarrow> handled" where
  "forward_to rec c source f sender s edge =
     (if edge = sender then Inr s
      else getEdge edge s (\<lambda>e.
        if e_everConnected e \<and> source \<notin> set (e_broadcastForwardFor e) then Inr s
        else let f = f\<lparr>header := (header f)\<lparr>h_ttl := h_ttl (header f) - 1, h_destinationRank := edge\<rparr>\<rparr>
             in if \<not> e_everConnected e then Inr (add_pending edge source f s)
                else rec (Send edge f (rank c)) s))"

definition forwardBroadcast :: "handler \<Rightarrow> config \<Rightarrow> nat \<Rightarrow> frame \<Rightarrow> nat \<Rightarrow> store_state \<Rightarrow> handled" where
  "forwardBroadcast rec c source f sender s =
     (if h_ttl (header f) = 0 then Inl (CheckFailed, s)
      else each (forward_to rec c source f sender) s (map fst (edgePeers s)))"

definition broadcastMessage :: "handler \<Rightarrow> config \<Rightarrow> nat \<Rightarrow> bytes \<Rightarrow> store_state \<Rightarrow> handled" where
  "broadcastMessage rec c type args s =
     each (\<lambda>s edge. rec (Send edge (make_frame c edge 0 (rank c) type True args) (rank c)) s) s (map fst (edgePeers s))"

section \<open>Handling\<close>

text \<open>\<open>internalStoreGetValue\<close> and \<open>internalStoreSetValue\<close>, with the callback of \<open>processMessage\<close>.\<close>

definition answer :: "handler \<Rightarrow> bytes \<Rightarrow> store_state \<Rightarrow> waiter \<Rightarrow> handled" where
  "answer rec v s w =
     rec (SendTo (wt_sourceRank w) (wt_id w) (wt_diagnosticSource w) messageDone
       (if wt_messageType w = messageGet then value_args v else [])) s"

definition internalStoreSetValue :: "handler \<Rightarrow> bytes \<Rightarrow> bytes \<Rightarrow> store_state \<Rightarrow> handled" where
  "internalStoreSetValue rec key v s = each (answer rec v) (set_value key v s) (waiters_of key s)"

definition internalStoreGetValue :: "handler \<Rightarrow> bytes \<Rightarrow> waiter \<Rightarrow> store_state \<Rightarrow> handled" where
  "internalStoreGetValue rec key w s =
     (case map_of (store s) key of Some v \<Rightarrow> answer rec v s w | None \<Rightarrow> Inr (add_waiter key w s))"

definition handle_set :: "handler \<Rightarrow> frame \<Rightarrow> store_state \<Rightarrow> handled" where
  "handle_set rec f s =
     read_args (Struct (tuple [Str, VecT (Triv 1)])) f s (\<lambda>v.
       andthen (internalStoreSetValue rec (of_strv (struct_fields v ! 0)) (of_bytesv (struct_fields v ! 1)) s) (\<lambda>s.
         rec (SendTo (h_sourceRank (header f)) (h_id (header f)) (h_diagnosticSource (header f)) messageDone []) s))"

definition handle_done :: "frame \<Rightarrow> store_state \<Rightarrow> handled" where
  "handle_done f s =
     (if payload f = [] then Inr (finish_wait (h_id (header f)) False [] s)
      else if length (payload f) = 1
      then read_args (Triv 1) f s (\<lambda>v. Inr (finish_wait (h_id (header f)) (of_byte v \<noteq> 0) [] s))
      else read_args (VecT (Triv 1)) f s (\<lambda>v. Inr (finish_wait (h_id (header f)) False (of_bytesv v) s)))"

definition handle_get :: "handler \<Rightarrow> frame \<Rightarrow> store_state \<Rightarrow> handled" where
  "handle_get rec f s =
     read_args Str f s (\<lambda>v.
       internalStoreGetValue rec (of_strv v) \<lparr>wt_messageType = h_messageType (header f),
         wt_sourceRank = h_sourceRank (header f), wt_id = h_id (header f),
         wt_diagnosticSource = h_diagnosticSource (header f)\<rparr> s)"

definition handle_check :: "handler \<Rightarrow> frame \<Rightarrow> store_state \<Rightarrow> handled" where
  "handle_check rec f s =
     read_args Str f s (\<lambda>v.
       rec (SendTo (h_sourceRank (header f)) (h_id (header f)) (h_diagnosticSource (header f)) messageDone
         (bool_args (map_of (store s) (of_strv v) \<noteq> None))) s)"

definition handle_shutdown :: "frame \<Rightarrow> store_state \<Rightarrow> handled" where
  "handle_shutdown f s =
     read_args (Triv 4) f s (\<lambda>v.
       Inr (note_origin (of_u32v v) (update_shutdown (h_sourceRank (header f)) (\<lambda>x. x\<lparr>sh_shutdown := True\<rparr>) s)))"

definition handle_exit :: "handler \<Rightarrow> config \<Rightarrow> nat \<Rightarrow> frame \<Rightarrow> store_state \<Rightarrow> handled" where
  "handle_exit rec c now f s =
     read_args (Triv 4) f s (\<lambda>v.
       let s = update_shutdown (h_sourceRank (header f)) (\<lambda>x. x\<lparr>sh_exited := True\<rparr>) s
       in if exited s then Inr s
          else let s = (if \<not> shuttingDown s then note_origin (of_u32v v) s else s)
               in rec (Broadcast messageExit (rank_args (of_u32v v))) (enter_exit c now s))"

definition handle_exit_ack :: "frame \<Rightarrow> store_state \<Rightarrow> handled" where
  "handle_exit_ack f s = Inr (update_shutdown (h_sourceRank (header f)) (\<lambda>x. x\<lparr>sh_exitAck := True\<rparr>) s)"

definition handle_diagnostic_source :: "config \<Rightarrow> nat \<Rightarrow> frame \<Rightarrow> store_state \<Rightarrow> handled" where
  "handle_diagnostic_source c now f s =
     read_args (VecT Str) f s (\<lambda>v.
       let source = h_diagnosticSource (header f);
           s = learn_source c source (map of_strv (of_vecv v)) s
       in Inr (tryDiagnosticHello c now source s))"

definition forward_message :: "handler \<Rightarrow> config \<Rightarrow> frame \<Rightarrow> store_state \<Rightarrow> handled" where
  "forward_message rec c f s =
     (let h = header f
      in if h_ttl h = 0 then Inl (CheckFailed, s)
         else first_hop c (h_destinationRank h) s (\<lambda>edge.
           if edge = 2 ^ 32 - 1 \<or> edge = worldSize c then Inl (CheckFailed, s)
           else getEdge edge s (\<lambda>_. rec (Send edge (f\<lparr>header := h\<lparr>h_ttl := h_ttl h - 1\<rparr>\<rparr>) (h_diagnosticSource h)) s)))"

definition dispatch :: "handler \<Rightarrow> config \<Rightarrow> nat \<Rightarrow> frame \<Rightarrow> store_state \<Rightarrow> handled" where
  "dispatch rec c now f s =
     (let type = h_messageType (header f)
      in if type = messageSet then handle_set rec f s
         else if type = messageDone then handle_done f s
         else if type = messageGet \<or> type = messageWait then handle_get rec f s
         else if type = messageCheck then handle_check rec f s
         else if type = messageShutdown then handle_shutdown f s
         else if type = messageExit then handle_exit rec c now f s
         else if type = messageExitAck then handle_exit_ack f s
         else if type = messageDiagnosticSource then handle_diagnostic_source c now f s
         else Inr s)"

definition processMessage :: "handler \<Rightarrow> config \<Rightarrow> nat \<Rightarrow> frame result \<Rightarrow> nat \<Rightarrow> store_state \<Rightarrow> handled" where
  "processMessage rec c now data edgeRank s =
     (case data of
        Inl e \<Rightarrow> Inl (e, s)
      | Inr f \<Rightarrow>
          if h_destinationRank (header f) \<noteq> rank c then forward_message rec c f s
          else andthen (if h_broadcast (header f) then rec (Forward (h_sourceRank (header f)) f edgeRank) s else Inr s)
                 (dispatch rec c now f))"

text \<open>The calls tied together.\<close>

primrec run :: "nat \<Rightarrow> config \<Rightarrow> nat \<Rightarrow> handler" where
  "run 0 c now x s = Inl (OutOfFuel, s)"
| "run (Suc n) c now x s =
     (case x of
        Process data edge \<Rightarrow> processMessage (run n c now) c now data edge s
      | Send edge f source \<Rightarrow> sendMessage (run n c now) c now edge f source s
      | SendTo dest i source type args \<Rightarrow> sendMessageTo (run n c now) c dest i source type args s
      | Ensure edge source \<Rightarrow> ensureDiagnosticSourceSent (run n c now) c edge source s
      | Forward source f sender \<Rightarrow> forwardBroadcast (run n c now) c source f sender s
      | Broadcast type args \<Rightarrow> broadcastMessage (run n c now) c type args s)"

end
