(* ===== verification/Store_Handlers.thy ===== *)
theory Store_Handlers
  imports Store_Node
begin

text \<open>
  The handlers of the store's thread in \<^verbatim>\<open>core/store.cc\<close>: what arrives on TCP connections and UDP
  sockets, the connection management, the shutdown and the calls of the user. \<open>depth\<close> bounds the
  nesting of the message functions; eight levels are enough.
\<close>

definition depth :: nat where
  "depth = 8"

definition exec :: "config \<Rightarrow> nat \<Rightarrow> handler" where
  "exec c now = run depth c now"

section \<open>Connections\<close>

definition reaptcpconnections :: "nat \<Rightarrow> store_state \<Rightarrow> store_state" where
  "reaptcpconnections edge s =
     update_edge edge (\<lambda>e. e\<lparr>e_tcpconnections := filter (\<lambda>i. \<not> c_closed (conns s ! i)) (e_tcpconnections e)\<rparr>) s"

definition connect_message :: "config \<Rightarrow> nat \<Rightarrow> bytes \<Rightarrow> TcpConnectMessage" where
  "connect_message c edge uid =
     \<lparr>tc_key = storekey c, tc_sourceRank = rank c, tc_sourceId = myId c, tc_destinationRank = edge,
      tc_destinationId = uid, tc_broadcastForwardRanks = getBroadcastForwardRanks (hops c) edge\<rparr>"

text \<open>\<open>addConnection\<close>: the new connection is not assigned to a rank yet; its data arrives as \<open>CRead\<close>.\<close>

definition addConnection :: "nat \<Rightarrow> store_state \<Rightarrow> handled" where
  "addConnection now s =
     (if closed s then Inl (CheckFailed, s)
      else Inr (s\<lparr>conns := conns s @ [\<lparr>c_lastReceive = now, c_sourceRank = None, c_closed = False\<rparr>],
                 floatingConnections := floatingConnections s @ [length (conns s)]\<rparr>))"

fun schedule_connects :: "config \<Rightarrow> nat \<Rightarrow> nat \<Rightarrow> bytes \<Rightarrow> bytes \<Rightarrow> (nat \<times> bytes) list \<Rightarrow> nat \<Rightarrow> store_state \<Rightarrow> store_state" where
  "schedule_connects c now edge net uid [] n s = s"
| "schedule_connects c now edge net uid ((i, a) # as) n s =
     (if isReachable c net a
      then schedule_connects c now edge net uid as (n + 1) (addCallback (now + 250 * n) (CConnectTo a edge uid) s)
      else schedule_connects c now edge net uid as n s)"

definition connectEdge :: "config \<Rightarrow> nat \<Rightarrow> nat \<Rightarrow> store_state \<Rightarrow> handled" where
  "connectEdge c now edge s =
     (if closed s then Inr s
      else getEdge edge s (\<lambda>_.
        let s = reaptcpconnections edge s
        in getEdge edge s (\<lambda>e.
             if e_tcpconnections e \<noteq> [] then Inr s
             else if now - e_lastConnectEdge e \<le> 1000 then Inr s
             else Inr (schedule_connects c now edge (e_networkKey e) (e_uid e) (e_addresses e) 0
                    (update_edge edge (\<lambda>e. e\<lparr>e_lastConnectEdge := now\<rparr>) s)))))"

text \<open>The callback that \<open>connectEdge\<close> schedules.\<close>

definition connect_to :: "config \<Rightarrow> nat \<Rightarrow> bytes \<Rightarrow> nat \<Rightarrow> bytes \<Rightarrow> store_state \<Rightarrow> handled" where
  "connect_to c now a edge uid s =
     getEdge edge s (\<lambda>e.
       if closed s \<or> e_tcpconnections e \<noteq> [] \<or> sh_exited (shutdownStates s ! edge) \<or> exited s then Inr s
       else let i = length (conns s);
                s = emit (OConnect i a) s
            in addConnection now (write_conn i (TConnect (connect_message c edge uid)) s))"

definition sendAddresses :: "config \<Rightarrow> nat \<Rightarrow> bool \<Rightarrow> nat \<Rightarrow> nat \<Rightarrow> store_state \<Rightarrow> handled" where
  "sendAddresses c now failed source edge s =
     (case rankInfos s ! source of
        None \<Rightarrow> Inl (CheckFailed, s)
      | Some ri \<Rightarrow>
          case rankInfos s ! edge of
            None \<Rightarrow> Inr s
          | Some ri2 \<Rightarrow>
              if source \<in> set (r_connected ri2) then Inr s
              else let addrs = (if 8 < length (r_addresses ri) then take 8 (mix_addresses c (r_addresses ri)) else r_addresses ri);
                       m = UAddresses \<lparr>am_key = storekey c, am_sourceRank = source, am_sourceId = r_uid ri,
                             am_networkKey = r_networkKey ri, am_addresses = addrs\<rparr>;
                       s = emit (OUdp (r_udpSocket ri2) (r_udpaddr ri2) m) s
                   in Inr (addCallback (now + (if failed then 250 else 2000)) (CSendAddresses source edge) s))"

definition replayPendingBroadcasts :: "config \<Rightarrow> nat \<Rightarrow> nat \<Rightarrow> store_state \<Rightarrow> handled" where
  "replayPendingBroadcasts c now edge s =
     getEdge edge s (\<lambda>e.
       andthen (each (\<lambda>s p. if fst p \<in> set (e_broadcastForwardFor e) then exec c now (Send edge (snd p) (rank c)) s else Inr s)
                  s (e_pendingBroadcasts e))
         (\<lambda>s. Inr (update_edge edge (\<lambda>e. e\<lparr>e_pendingBroadcasts := []\<rparr>) s)))"

section \<open>Reading from connections\<close>

text \<open>A connection is accepted for an edge: at most one per edge, a further one is closed.\<close>

definition assign_conn :: "nat \<Rightarrow> nat \<Rightarrow> TcpConnectMessage \<Rightarrow> store_state \<Rightarrow> store_state" where
  "assign_conn now i m s =
     update_edge (tc_sourceRank m)
       (\<lambda>e. e\<lparr>e_tcpconnections := e_tcpconnections e @ [i], e_everConnected := True,
              e_broadcastForwardFor := fold set_add (tc_broadcastForwardRanks m) (e_broadcastForwardFor e)\<rparr>)
       (update_conn i (\<lambda>x. x\<lparr>c_sourceRank := Some (tc_sourceRank m), c_lastReceive := now\<rparr>) s)"

definition queued_sources :: "edge_info \<Rightarrow> nat list" where
  "queued_sources e = filter (\<lambda>d. d \<noteq> 2 ^ 32 - 1) (map o_diagnosticSource (e_outgoingQueue e))"

definition tell_sources :: "config \<Rightarrow> nat \<Rightarrow> nat \<Rightarrow> DiagnosticKind \<Rightarrow> reason \<Rightarrow> nat list \<Rightarrow> store_state \<Rightarrow> store_state" where
  "tell_sources c now edge kind why ds s = fold (\<lambda>d s. sendDiagnosticInfo c now d edge kind why s) ds s"

definition resend_queue :: "nat \<Rightarrow> edge_info \<Rightarrow> store_state \<Rightarrow> store_state" where
  "resend_queue i e s = fold (\<lambda>v s. write_conn i (frame_message (o_frame v)) s) (e_outgoingQueue e) s"

definition read_connect :: "config \<Rightarrow> nat \<Rightarrow> nat \<Rightarrow> bool \<Rightarrow> TcpConnectMessage \<Rightarrow> store_state \<Rightarrow> handled" where
  "read_connect c now i is_ack m s =
     (if \<not> (tc_key m = storekey c \<and> tc_destinationRank m = rank c \<and> tc_destinationId m = myId c) then Inr s
      else if tc_sourceRank m \<notin> set (edges c ! rank c) then Inr s
      else let r = tc_sourceRank m
        in getEdge r s (\<lambda>e.
          if closed s \<or> e_tcpconnections e \<noteq> [] then Inr (close_conn i s)
          else andthen (replayPendingBroadcasts c now r (assign_conn now i m s)) (\<lambda>s.
            getEdge r s (\<lambda>e.
              let s = emit (OUdp (e_udpSocket e) (e_udpaddr e)
                        (UAddressesAck \<lparr>aa_key = tc_key m, aa_sourceRank = rank c, aa_edge = r\<rparr>)) s;
                  s = (if is_ack then s else write_conn i (TConnectAck (connect_message c r (tc_sourceId m))) s);
                  s = tell_sources c now r Success (Established r) (queued_sources e) s
              in Inr (resend_queue i e s)))))"

text \<open>
  In order, without gaps and without repetition: the message that is due is processed, then what
  waits in the queue, as long as it is due. The difference of sequence numbers is taken in 32
  bits, so that they may wrap around.
\<close>

definition behind :: "32 word \<Rightarrow> 32 word \<Rightarrow> bool" where
  "behind a b \<longleftrightarrow> sint (a - b) < 0"

definition advance :: "nat \<Rightarrow> store_state \<Rightarrow> store_state" where
  "advance edge s = update_edge edge (\<lambda>e. e\<lparr>e_incomingSeq := e_incomingSeq e + 1\<rparr>) s"

definition sort_queue :: "nat \<Rightarrow> store_state \<Rightarrow> store_state" where
  "sort_queue edge = update_edge edge (\<lambda>e.
     e\<lparr>e_incomingQueue := sort_key (\<lambda>(q, f). sint (q - e_incomingSeq e)) (e_incomingQueue e)\<rparr>)"

definition pop_incoming :: "nat \<Rightarrow> store_state \<Rightarrow> store_state" where
  "pop_incoming edge = update_edge edge (\<lambda>e. e\<lparr>e_incomingQueue := tl (e_incomingQueue e)\<rparr>)"

text \<open>The loop over the queue. Every round takes an entry, and \<open>processMessage\<close> adds none: the length of
  the queue bounds the rounds.\<close>

fun drain :: "config \<Rightarrow> nat \<Rightarrow> nat \<Rightarrow> nat \<Rightarrow> store_state \<Rightarrow> handled" where
  "drain c now edge 0 s =
     getEdge edge s (\<lambda>e. if e_incomingQueue e = [] then Inr s else Inl (OutOfFuel, s))"
| "drain c now edge (Suc n) s =
     getEdge edge s (\<lambda>e.
       case e_incomingQueue e of
         [] \<Rightarrow> Inr s
       | (q, f) # _ \<Rightarrow>
           if behind q (e_incomingSeq e) then drain c now edge n (pop_incoming edge s)
           else if q \<noteq> e_incomingSeq e then Inr s
           else andthen (exec c now (Process f edge) (pop_incoming edge s)) (\<lambda>s. drain c now edge n (advance edge s)))"

definition receive :: "config \<Rightarrow> nat \<Rightarrow> nat \<Rightarrow> 32 word \<Rightarrow> frame result \<Rightarrow> store_state \<Rightarrow> handled" where
  "receive c now edge q f s =
     getEdge edge s (\<lambda>e.
       if behind q (e_incomingSeq e) then Inr s
       else if q = e_incomingSeq e
       then andthen (exec c now (Process f edge) s) (\<lambda>s.
              let s = sort_queue edge (advance edge s)
              in getEdge edge s (\<lambda>e. drain c now edge (length (e_incomingQueue e)) s))
       else Inr (update_edge edge (\<lambda>e. e\<lparr>e_incomingQueue := e_incomingQueue e @ [(q, f)]\<rparr>) s))"

definition touch :: "nat \<Rightarrow> nat \<Rightarrow> store_state \<Rightarrow> store_state" where
  "touch now i s = update_conn i (\<lambda>x. x\<lparr>c_lastReceive := now\<rparr>) s"

definition read_routed :: "config \<Rightarrow> nat \<Rightarrow> nat \<Rightarrow> nat \<Rightarrow> nat \<Rightarrow> frame result \<Rightarrow> store_state \<Rightarrow> handled" where
  "read_routed c now i t q f s =
     (case c_sourceRank (conns s ! i) of
        None \<Rightarrow> Inr s
      | Some r \<Rightarrow>
          if worldSize c \<le> r then Inr s
          else if t = 0 then Inl (CheckFailed, s)
          else getEdge r s (\<lambda>_. receive c now r (of_nat q) f (write_conn i (TMessageAck q) (touch now i s))))"

fun remove_acked :: "32 word \<Rightarrow> outgoing_message list \<Rightarrow> outgoing_message list" where
  "remove_acked q [] = []"
| "remove_acked q (v # vs) = (if o_seq v = q then vs else v # remove_acked q vs)"

definition read_ack :: "nat \<Rightarrow> nat \<Rightarrow> nat \<Rightarrow> store_state \<Rightarrow> handled" where
  "read_ack now i q s =
     (let s = touch now i s
      in case c_sourceRank (conns s ! i) of
           None \<Rightarrow> Inl (CheckFailed, s)
         | Some r \<Rightarrow> getEdge r s (\<lambda>_.
             Inr (update_edge r (\<lambda>e. e\<lparr>e_outgoingQueue := remove_acked (of_nat q) (e_outgoingQueue e)\<rparr>) s)))"

text \<open>A \<open>SerializationError\<close> is caught and logged, wherever in the handler it was thrown.\<close>

definition is_serialization_error :: "error \<Rightarrow> bool" where
  "is_serialization_error e = (case e of EndOfData \<Rightarrow> True | TrailingBytes n \<Rightarrow> True | DoesNotFit \<Rightarrow> True | _ \<Rightarrow> False)"

definition catch :: "handled \<Rightarrow> handled" where
  "catch r = (case r of Inl (e, s) \<Rightarrow> if is_serialization_error e then Inr s else r | Inr s \<Rightarrow> r)"

definition handle_tcp :: "config \<Rightarrow> nat \<Rightarrow> nat \<Rightarrow> tcp_msg \<Rightarrow> store_state \<Rightarrow> handled" where
  "handle_tcp c now i m s =
     (case m of
        TConnect m \<Rightarrow> read_connect c now i False m s
      | TConnectAck m \<Rightarrow> read_connect c now i True m s
      | TMessage t q f \<Rightarrow> read_routed c now i t q f s
      | TMessageAck q \<Rightarrow> read_ack now i q s
      | TKeepalive \<Rightarrow> Inr (write_conn i TKeepaliveAck (touch now i s))
      | TKeepaliveAck \<Rightarrow> Inr (touch now i s))"

definition onreadtcp :: "config \<Rightarrow> nat \<Rightarrow> nat \<Rightarrow> bytes \<Rightarrow> store_state \<Rightarrow> handled" where
  "onreadtcp c now i data s =
     (case decode_tcp data of
        Inl e \<Rightarrow> catch (Inl (e, s))
      | Inr None \<Rightarrow> Inr s
      | Inr (Some m) \<Rightarrow> catch (handle_tcp c now i m s))"

text \<open>The error branch of the read callback of \<open>addConnection\<close>.\<close>

definition connection_lost :: "config \<Rightarrow> nat \<Rightarrow> nat \<Rightarrow> bytes \<Rightarrow> store_state \<Rightarrow> handled" where
  "connection_lost c now i msg s =
     (case c_sourceRank (conns s ! i) of
        None \<Rightarrow> Inr s
      | Some r \<Rightarrow>
          getEdge r s (\<lambda>_.
            let s = reaptcpconnections r s
            in getEdge r s (\<lambda>e.
                 let s = tell_sources c now r ErrorKind (ConnectionLost r msg) (queued_sources e) s
                 in Inr (if e_addresses e \<noteq> [] then addCallback (now + 1000) (CConnectEdge r) s else s))))"

end
