(* ===== verification/Store_Events.thy ===== *)
theory Store_Events
  imports Store_Handlers
begin

text \<open>
  The rest of the handlers of \<^verbatim>\<open>core/store.cc\<close>: datagrams, keepalive, the search for rank 0, shutdown,
  the calls of the user, the callback thread, and the steps a rank takes.
\<close>

section \<open>Datagrams\<close>

text \<open>\<open>sock\<close> is the socket the datagram came in on and \<open>from\<close> its sender.\<close>

definition update_rank_info :: "nat \<Rightarrow> addr \<Rightarrow> UdpConnectMessage \<Rightarrow> store_state \<Rightarrow> store_state" where
  "update_rank_info sock from m s =
     (let old = (case rankInfos s ! uc_sourceRank m of
                   None \<Rightarrow> \<lparr>r_uid = [], r_networkKey = [], r_addresses = [], r_udpaddr = [], r_udpSocket = None, r_connected = []\<rparr>
                 | Some r \<Rightarrow> r);
          new = old\<lparr>r_uid := uc_uid m, r_networkKey := uc_networkKey m,
                    r_addresses := fold put_new (uc_addresses m) (r_addresses old), r_udpaddr := from, r_udpSocket := Some sock\<rparr>
      in s\<lparr>rankInfos := (rankInfos s)[uc_sourceRank m := Some new]\<rparr>)"

definition udp_connected :: "config \<Rightarrow> nat \<Rightarrow> (nat \<Rightarrow> nat \<Rightarrow> bool) \<Rightarrow> nat \<Rightarrow> addr \<Rightarrow> UdpConnectMessage \<Rightarrow> store_state \<Rightarrow> handled" where
  "udp_connected c now failed sock from m s =
     (let s = update_rank_info sock from m s;
          s = emit (OUdp (Some sock) from (UConnectAck \<lparr>ua_key = uc_key m, ua_sourceRank = uc_sourceRank m, ua_uid = uc_uid m,
                      ua_addresses = map fst (uc_addresses m)\<rparr>)) s
      in each (\<lambda>s e. sendAddresses c now (failed (uc_sourceRank m) e) (uc_sourceRank m) e s) s (edges c ! uc_sourceRank m))"

definition udp_connect :: "config \<Rightarrow> nat \<Rightarrow> (nat \<Rightarrow> nat \<Rightarrow> bool) \<Rightarrow> nat \<Rightarrow> addr \<Rightarrow> UdpConnectMessage \<Rightarrow> store_state \<Rightarrow> handled" where
  "udp_connect c now failed sock from m s =
     (if \<not> (uc_key m = storekey c \<and> uc_sourceRank m < worldSize c \<and> rank c = 0) then Inr s
      else case rankInfos s ! uc_sourceRank m of
        Some r \<Rightarrow>
          if r_uid r \<noteq> uc_uid m then Inr s
          else udp_connected c now failed sock from m s
      | None \<Rightarrow> udp_connected c now failed sock from m s)"

definition udp_connect_ack :: "config \<Rightarrow> UdpConnectAckMessage \<Rightarrow> store_state \<Rightarrow> handled" where
  "udp_connect_ack c m s =
     (if ua_key m = storekey c \<and> ua_sourceRank m = rank c \<and> ua_uid m = myId c
      then let left = fold drop_key (ua_addresses m) (unackedAddresses s)
           in Inr (s\<lparr>unackedAddresses := left, connectAcked := (connectAcked s \<or> left = [])\<rparr>)
      else Inr s)"

definition udp_addresses :: "config \<Rightarrow> nat \<Rightarrow> nat \<Rightarrow> addr \<Rightarrow> AddressesMessage \<Rightarrow> store_state \<Rightarrow> handled" where
  "udp_addresses c now sock from m s =
     (if am_key m = storekey c \<and> am_sourceRank m < worldSize c
      then getEdge (am_sourceRank m) s (\<lambda>e.
        let s = update_edge (am_sourceRank m) (\<lambda>e. e\<lparr>e_uid := am_sourceId m, e_networkKey := am_networkKey m,
                  e_addresses := fold put_new (am_addresses m) (e_addresses e), e_udpaddr := from, e_udpSocket := Some sock\<rparr>) s;
            s = (if e_tcpconnections e \<noteq> []
                 then emit (OUdp (Some sock) from (UAddressesAck \<lparr>aa_key = storekey c, aa_sourceRank = rank c, aa_edge = am_sourceRank m\<rparr>)) s
                 else s)
        in connectEdge c now (am_sourceRank m) s)
      else Inr s)"

definition udp_addresses_ack :: "config \<Rightarrow> AddressesAckMessage \<Rightarrow> store_state \<Rightarrow> handled" where
  "udp_addresses_ack c m s =
     (if aa_key m = storekey c \<and> aa_sourceRank m < worldSize c
      then case rankInfos s ! aa_sourceRank m of
             None \<Rightarrow> Inr s
           | Some r \<Rightarrow> Inr (s\<lparr>rankInfos := (rankInfos s)[aa_sourceRank m := Some (r\<lparr>r_connected := set_add (aa_edge m) (r_connected r)\<rparr>)]\<rparr>)
      else Inr s)"

definition udp_hello :: "config \<Rightarrow> nat \<Rightarrow> addr \<Rightarrow> bool \<Rightarrow> DiagnosticHelloMessage \<Rightarrow> store_state \<Rightarrow> handled" where
  "udp_hello c sock from is_ack m s =
     (if dh_key m = storekey c \<and> dh_sourceRank m < worldSize c
      then let info = (case map_of (diagnosticSources s) (dh_sourceRank m) of None \<Rightarrow> no_source | Some i \<Rightarrow> i);
               info = (if ds_verified info then info
                       else info\<lparr>ds_verified := True, ds_verifiedAddr := from, ds_verifiedSocket := Some sock\<rparr>);
               s = s\<lparr>diagnosticSources := put (dh_sourceRank m) info (diagnosticSources s)\<rparr>
           in Inr (if is_ack then s
                   else emit (OUdp (Some sock) from (UHelloAck \<lparr>dh_key = dh_key m, dh_sourceRank = rank c\<rparr>)) s)
      else Inr s)"

definition udp_diagnostic :: "config \<Rightarrow> nat \<Rightarrow> DiagnosticInfoMessage \<Rightarrow> store_state \<Rightarrow> handled" where
  "udp_diagnostic c now m s =
     (if di_key m = storekey c \<and> di_reportingRank m < worldSize c
      then Inr (add_diagnostic now (di_reportingRank m) (di_stuckEdge m) (di_kind m) (di_reason m) s)
      else Inr s)"

definition handle_udp :: "config \<Rightarrow> nat \<Rightarrow> (nat \<Rightarrow> nat \<Rightarrow> bool) \<Rightarrow> nat \<Rightarrow> addr \<Rightarrow> udp_msg \<Rightarrow> store_state \<Rightarrow> handled" where
  "handle_udp c now failed sock from m s =
     (case m of
        UConnect m \<Rightarrow> udp_connect c now failed sock from m s
      | UConnectAck m \<Rightarrow> udp_connect_ack c m s
      | UAddresses m \<Rightarrow> udp_addresses c now sock from m s
      | UAddressesAck m \<Rightarrow> udp_addresses_ack c m s
      | UHello m \<Rightarrow> udp_hello c sock from False m s
      | UHelloAck m \<Rightarrow> udp_hello c sock from True m s
      | UDiagnostic m \<Rightarrow> udp_diagnostic c now m s)"

definition onreadudp :: "config \<Rightarrow> nat \<Rightarrow> (nat \<Rightarrow> nat \<Rightarrow> bool) \<Rightarrow> nat \<Rightarrow> addr \<Rightarrow> bytes \<Rightarrow> store_state \<Rightarrow> handled" where
  "onreadudp c now failed sock from buf s =
     (case decode_udp buf of
        Inl e \<Rightarrow> catch (Inl (e, s))
      | Inr None \<Rightarrow> Inr s
      | Inr (Some m) \<Rightarrow> catch (handle_udp c now failed sock from m s))"

section \<open>Keeping connections alive\<close>

definition check_message :: "config \<Rightarrow> nat \<Rightarrow> nat \<Rightarrow> edge_info \<Rightarrow> outgoing_message \<Rightarrow> store_state \<Rightarrow> store_state" where
  "check_message c now edge e v s =
     (if o_diagnosticSource v = 2 ^ 32 - 1 then s
      else if now - o_queueTime v < 5000 then s
      else sendDiagnosticInfo c now (o_diagnosticSource v) edge Transient
             (if e_tcpconnections e = [] then stuck_reason edge e else MessagePending edge (now - o_queueTime v)) s)"

definition checkStuckMessages :: "config \<Rightarrow> nat \<Rightarrow> store_state \<Rightarrow> store_state" where
  "checkStuckMessages c now s =
     fold (\<lambda>(edge, e) s. fold (check_message c now edge e) (e_outgoingQueue e) s) (edgePeers s) s"

text \<open>One connection of an edge: closed when silent for 40 seconds, asked for a sign of life after 20.\<close>

definition check_conn :: "nat \<Rightarrow> edge_info \<Rightarrow> nat \<Rightarrow> store_state \<times> nat list \<Rightarrow> store_state \<times> nat list" where
  "check_conn now e i = (\<lambda>(s, reconnect).
     let x = conns s ! i
     in if 40000 \<le> now - c_lastReceive x \<or> c_closed x
        then (close_conn i s, if e_addresses e \<noteq> [] then reconnect @ (case c_sourceRank x of None \<Rightarrow> [2 ^ 32 - 1] | Some r \<Rightarrow> [r]) else reconnect)
        else if 20000 \<le> now - c_lastReceive x then (write_conn i TKeepalive s, reconnect)
        else (s, reconnect))"

definition check_edge :: "nat \<Rightarrow> nat \<times> edge_info \<Rightarrow> store_state \<times> nat list \<Rightarrow> store_state \<times> nat list" where
  "check_edge now = (\<lambda>(edge, e) (s, reconnect).
     let reconnect = (if e_tcpconnections e = [] \<and> e_addresses e \<noteq> [] then reconnect @ [edge] else reconnect);
         (s, reconnect) = fold (check_conn now e) (e_tcpconnections e) (s, reconnect)
     in (reaptcpconnections edge s, reconnect))"

definition check_floating :: "nat \<Rightarrow> nat \<Rightarrow> store_state \<times> nat list \<Rightarrow> store_state \<times> nat list" where
  "check_floating now i = (\<lambda>(s, kept).
     if c_sourceRank (conns s ! i) \<noteq> None then (s, kept)
     else if 20000 \<le> now - c_lastReceive (conns s ! i) then (close_conn i s, kept)
     else (s, kept @ [i]))"

definition keepalive :: "config \<Rightarrow> nat \<Rightarrow> store_state \<Rightarrow> handled" where
  "keepalive c now s =
     (let (s, reconnect) = fold (check_edge now) (edgePeers s) (s, []);
          (s, kept) = fold (check_floating now) (floatingConnections s) (s, []);
          s = s\<lparr>floatingConnections := kept\<rparr>
      in andthen (each (\<lambda>s r. connectEdge c now r s) s reconnect) (\<lambda>s.
           Inr (addCallback (now + keepalive_delay c) CKeepalive (checkStuckMessages c now s))))"

section \<open>Finding rank 0\<close>

definition try_port :: "nat \<Rightarrow> store_state \<Rightarrow> store_state" where
  "try_port p s = (if connectAcked s then s else emit (OResolve p) s)"

fun schedule_ports :: "nat \<Rightarrow> nat list \<Rightarrow> store_state \<Rightarrow> store_state" where
  "schedule_ports now [] s = s"
| "schedule_ports now (i # is) s = schedule_ports now is (addCallback (now + 1000 * i) (CTryPort (57360 + i)) s)"

definition connect :: "config \<Rightarrow> nat \<Rightarrow> store_state \<Rightarrow> store_state" where
  "connect c now s =
     (if connectAcked s then s
      else let s = schedule_ports now [0..<16] (try_port (port c) s);
               delay = 1000 * min (1 + connectCounter s) 30
           in addCallback (now + delay) CConnect (s\<lparr>connectCounter := connectCounter s + 1\<rparr>))"

text \<open>The callback of a resolved address: one datagram per socket, spread over time.\<close>

fun udp_burst :: "nat \<Rightarrow> addr \<Rightarrow> nat \<Rightarrow> store_state \<Rightarrow> store_state" where
  "udp_burst now a 0 s = s"
| "udp_burst now a (Suc n) s =
     (let t = min (max (prevConnectTime s + 250) now) (now + 2000)
      in udp_burst now a n (addCallback t (CUdpConnect a) (s\<lparr>prevConnectTime := t\<rparr>)))"

definition send_udp_connect :: "config \<Rightarrow> addr \<Rightarrow> store_state \<Rightarrow> store_state" where
  "send_udp_connect c a s =
     (if connectAcked s then s
      else let as = (if 8 < length (unackedAddresses s) then take 8 (mix_addresses c (unackedAddresses s)) else unackedAddresses s)
           in emit (OUdp None a (UConnect \<lparr>uc_key = storekey c, uc_sourceRank = rank c, uc_uid = myId c,
                uc_networkKey = networkKey c, uc_addresses = as\<rparr>)) s)"

section \<open>Shutdown\<close>

definition all_peers :: "config \<Rightarrow> (shutdown_state \<Rightarrow> bool) \<Rightarrow> store_state \<Rightarrow> bool" where
  "all_peers c p s = list_all (\<lambda>r. r = rank c \<or> p (shutdownStates s ! r)) [0..<worldSize c]"

definition allPeersShutdown :: "config \<Rightarrow> store_state \<Rightarrow> bool" where
  "allPeersShutdown c = all_peers c sh_shutdown"

definition allPeersExited :: "config \<Rightarrow> store_state \<Rightarrow> bool" where
  "allPeersExited c = all_peers c sh_exited"

definition allPeersExitAcked :: "config \<Rightarrow> store_state \<Rightarrow> bool" where
  "allPeersExitAcked c = all_peers c sh_exitAck"

definition closeResources :: "store_state \<Rightarrow> store_state" where
  "closeResources s =
     s\<lparr>conns := fold (\<lambda>i cs. cs[i := (cs ! i)\<lparr>c_closed := True\<rparr>])
                (floatingConnections s @ concat (map (e_tcpconnections \<circ> snd) (edgePeers s))) (conns s),
       floatingConnections := [],
       edgePeers := map (\<lambda>(k, e). (k, e\<lparr>e_tcpconnections := []\<rparr>)) (edgePeers s),
       queuedCallbacks := []\<rparr>"

definition phase :: "nat \<Rightarrow> close_state \<Rightarrow> nat \<Rightarrow> store_state \<Rightarrow> store_state" where
  "phase now st timeout s = s\<lparr>closeState := st, shutdownDeadline := now + timeout, shutdownBackoff := 1\<rparr>"

text \<open>The break of the loop: the machine runs again later.\<close>

definition close_later :: "nat \<Rightarrow> store_state \<Rightarrow> handled" where
  "close_later now s =
     Inr (addCallback (now + shutdownBackoff s) CClose (s\<lparr>shutdownBackoff := min (shutdownBackoff s * 2) 64\<rparr>))"

definition close_exit_ack :: "config \<Rightarrow> nat \<Rightarrow> store_state \<Rightarrow> handled" where
  "close_exit_ack c now s =
     (if allPeersExitAcked c s \<or> shutdownDeadline s \<le> now
      then Inr (closeResources (s\<lparr>closeState := CloseDone, closed := True, anyQueued := True\<rparr>))
      else close_later now s)"

definition close_exit :: "config \<Rightarrow> nat \<Rightarrow> store_state \<Rightarrow> handled" where
  "close_exit c now s =
     (if allPeersExited c s \<or> shutdownDeadline s \<le> now
      then andthen (exec c now (Broadcast messageExitAck []) s) (\<lambda>s. close_exit_ack c now (phase now WaitExitAck 50 s))
      else close_later now s)"

definition close_shutdown_ack :: "config \<Rightarrow> nat \<Rightarrow> store_state \<Rightarrow> handled" where
  "close_shutdown_ack c now s =
     (if allPeersShutdown c s \<or> shutdownDeadline s \<le> now
      then andthen (if exited s then Inr s
                    else exec c now (Broadcast messageExit (rank_args (the (exitSourceRank s)))) (enter_exit c now s))
             (\<lambda>s. close_exit c now (phase now WaitExit 1000 s))
      else close_later now s)"

definition runCloseStateMachine :: "config \<Rightarrow> nat \<Rightarrow> store_state \<Rightarrow> handled" where
  "runCloseStateMachine c now s =
     (case closeState s of
        NotStarted \<Rightarrow>
          andthen (exec c now (Broadcast messageShutdown (rank_args (rank c))) (note_origin (rank c) (s\<lparr>shuttingDown := True\<rparr>)))
            (\<lambda>s. close_shutdown_ack c now (phase now WaitShutdownAck 2000 s))
      | WaitShutdownAck \<Rightarrow> close_shutdown_ack c now s
      | WaitExit \<Rightarrow> close_exit c now s
      | WaitExitAck \<Rightarrow> close_exit_ack c now s
      | CloseDone \<Rightarrow> Inr s)"

definition close :: "nat \<Rightarrow> store_state \<Rightarrow> store_state" where
  "close now s = (if shuttingDown s then s else addCallback now CClose (s\<lparr>shuttingDown := True\<rparr>))"

section \<open>Calls of the user\<close>

definition doWaitOp :: "config \<Rightarrow> nat \<Rightarrow> nat \<Rightarrow> nat \<Rightarrow> bytes \<Rightarrow> bytes \<Rightarrow> store_state \<Rightarrow> (error \<times> store_state) + nat \<times> store_state" where
  "doWaitOp c now timeout type key args s =
     (let i = nextId s;
          s = s\<lparr>nextId := (nextId s + 1) mod 2 ^ 32\<rparr>;
          r = unat (storeRank (of_nat (worldSize c)) key);
          edge = hops c ! r
      in if edge = worldSize c \<or> edge = 2 ^ 32 - 1 then Inl (CheckFailed, s)
         else let h = length (wait_objects s);
                  w = \<lparr>w_b = False, w_data = [], w_futex = False, w_error = False, w_shutdownRank = None,
                       w_end = now + timeout, w_targetRank = r, w_firstHopEdge = edge\<rparr>;
                  s = s\<lparr>wait_objects := wait_objects s @ [w]\<rparr>
              in if exited s then Inr (h, exitWait c h s)
                 else andthen (exec c now (SendTo r i (rank c) type args) (s\<lparr>waits := put i h (waits s)\<rparr>)) (\<lambda>s. Inr (h, s)))"

text \<open>The loop of \<open>Wait::wait\<close> at one point in time.\<close>

datatype wait_result = Waiting | Finished | TimedOut | ShutDown "nat option"

definition wait_poll :: "nat \<Rightarrow> wait_state \<Rightarrow> wait_result" where
  "wait_poll now w =
     (if w_futex w then (if w_error w then ShutDown (w_shutdownRank w) else Finished)
      else if w_end w \<le> now then (if w_error w then ShutDown (w_shutdownRank w) else TimedOut)
      else Waiting)"

definition set_op :: "config \<Rightarrow> nat \<Rightarrow> nat \<Rightarrow> bytes \<Rightarrow> bytes \<Rightarrow> store_state \<Rightarrow> (error \<times> store_state) + nat \<times> store_state" where
  "set_op c now timeout key v s = doWaitOp c now timeout messageSet key (key_value_args key v) s"

definition get_op :: "config \<Rightarrow> nat \<Rightarrow> nat \<Rightarrow> bytes \<Rightarrow> store_state \<Rightarrow> (error \<times> store_state) + nat \<times> store_state" where
  "get_op c now timeout key s = doWaitOp c now timeout messageGet key (key_args key) s"

definition check_op :: "config \<Rightarrow> nat \<Rightarrow> nat \<Rightarrow> bytes \<Rightarrow> store_state \<Rightarrow> (error \<times> store_state) + nat \<times> store_state" where
  "check_op c now timeout key s = doWaitOp c now timeout messageCheck key (key_args key) s"

text \<open>\<open>check\<close> and \<open>wait\<close> over several keys: all requests are sent before the first is waited for.\<close>

fun request_all :: "config \<Rightarrow> nat \<Rightarrow> nat \<Rightarrow> nat \<Rightarrow> bytes list \<Rightarrow> store_state \<Rightarrow> (error \<times> store_state) + nat list \<times> store_state" where
  "request_all c now timeout type [] s = Inr ([], s)"
| "request_all c now timeout type (k # ks) s =
     andthen (doWaitOp c now timeout type k (key_args k) s) (\<lambda>(h, s).
       andthen (request_all c now timeout type ks s) (\<lambda>(hs, s). Inr (h # hs, s)))"

definition check_keys :: "config \<Rightarrow> nat \<Rightarrow> nat \<Rightarrow> bytes list \<Rightarrow> store_state \<Rightarrow> (error \<times> store_state) + nat list \<times> store_state" where
  "check_keys c now timeout keys s = request_all c now timeout messageCheck keys s"

definition wait_keys :: "config \<Rightarrow> nat \<Rightarrow> nat \<Rightarrow> bytes list \<Rightarrow> store_state \<Rightarrow> (error \<times> store_state) + nat list \<times> store_state" where
  "wait_keys c now timeout keys s = request_all c now timeout messageWait keys s"

text \<open>The keys an error names: the first few, and how many there are if that is not all.\<close>

definition formatKeyList :: "nat \<Rightarrow> bytes list \<Rightarrow> bytes list \<times> nat option" where
  "formatKeyList maxKeys keys =
     (if length keys \<le> maxKeys then (keys, None) else (take maxKeys keys, Some (length keys)))"

text \<open>The second loop: the first wait that has not finished decides.\<close>

fun collect :: "nat \<Rightarrow> wait_state list \<Rightarrow> bool \<Rightarrow> wait_result \<times> bool" where
  "collect now [] b = (Finished, b)"
| "collect now (w # ws) b =
     (case wait_poll now w of Finished \<Rightarrow> collect now ws (b \<and> w_b w) | r \<Rightarrow> (r, b))"

section \<open>The text of a timeout\<close>

text \<open>\<open>getConnectionDiagnostics\<close>: the lines of the text, before they are rendered.\<close>

datatype diagnostic_line =
    ShutDownBy nat
  | WasShutDown
  | NoAckFromZero
  | NeverConnected "nat list" bool
  | FirstHopExited nat nat
  | NoTcpConnection nat nat bool
  | NoResponse nat nat nat
  | NoEdgeInfo nat
  | TargetNeverConnected nat
  | TargetExited nat
  | Reported nat nat nat bytes

definition missing_ranks :: "config \<Rightarrow> store_state \<Rightarrow> nat list" where
  "missing_ranks c s = filter (\<lambda>r. r \<noteq> rank c \<and> rankInfos s ! r = None) [0..<worldSize c]"

definition hop_lines :: "config \<Rightarrow> nat \<Rightarrow> nat \<Rightarrow> store_state \<Rightarrow> diagnostic_line list" where
  "hop_lines c target hop s =
     (if hop = 2 ^ 32 - 1 \<or> hop = rank c then []
      else if hop < length (shutdownStates s) \<and> sh_exited (shutdownStates s ! hop) then [FirstHopExited hop target]
      else case findEdge s hop of
        None \<Rightarrow> [NoEdgeInfo hop]
      | Some e \<Rightarrow> if e_tcpconnections e = [] then [NoTcpConnection hop target (e_addresses e = [])]
                  else [NoResponse hop target (length (e_outgoingQueue e))])"

definition target_lines :: "config \<Rightarrow> nat \<Rightarrow> nat \<Rightarrow> store_state \<Rightarrow> diagnostic_line list" where
  "target_lines c target hop s =
     (if rank c = 0 \<and> target \<noteq> hop \<and> target \<noteq> rank c \<and> target \<noteq> 2 ^ 32 - 1
      then if rankInfos s ! target = None then [TargetNeverConnected target]
           else if sh_exited (shutdownStates s ! target) then [TargetExited target] else []
      else [])"

fun last_success :: "nat \<Rightarrow> received_diagnostic list \<Rightarrow> ((nat \<times> nat) \<times> nat) list \<Rightarrow> ((nat \<times> nat) \<times> nat) list" where
  "last_success i [] m = m"
| "last_success i (d # ds) m =
     last_success (i + 1) ds
       (if rd_kind d = kind_code Success then put (rd_reportingRank d, rd_stuckEdge d) i m else m)"

definition superseded :: "((nat \<times> nat) \<times> nat) list \<Rightarrow> nat \<Rightarrow> received_diagnostic \<Rightarrow> bool" where
  "superseded m i d \<longleftrightarrow>
     rd_kind d = kind_code Transient \<and>
     (case map_of m (rd_reportingRank d, rd_stuckEdge d) of None \<Rightarrow> False | Some j \<Rightarrow> i < j)"

definition shown_diagnostics :: "received_diagnostic list \<Rightarrow> received_diagnostic list" where
  "shown_diagnostics ds =
     (let m = last_success 0 ds [] in map snd (filter (\<lambda>(i, d). \<not> superseded m i d) (zip [0..<length ds] ds)))"

definition getConnectionDiagnostics :: "config \<Rightarrow> nat \<Rightarrow> nat \<Rightarrow> nat \<Rightarrow> nat \<Rightarrow> store_state \<Rightarrow> diagnostic_line list" where
  "getConnectionDiagnostics c now startTime target hop s =
     (if exited s then [case exitSourceRank s of Some r \<Rightarrow> ShutDownBy r | None \<Rightarrow> WasShutDown]
      else (if rank c \<noteq> 0 \<and> \<not> connectAcked s then [NoAckFromZero] else []) @
           (if rank c = 0 \<and> missing_ranks c s \<noteq> []
            then [NeverConnected (missing_ranks c s) (length (missing_ranks c s) = worldSize c - 1)] else []) @
           hop_lines c target hop s @ target_lines c target hop s @
           map (\<lambda>d. Reported (rd_receiveTime d - startTime) (now - rd_receiveTime d) (rd_reportingRank d) (rd_reason d))
             (shown_diagnostics (receivedDiagnostics s)))"

section \<open>The callback thread\<close>

fun move_queued :: "(nat \<times> callback) list \<Rightarrow> (nat \<times> callback) list \<Rightarrow> bool \<Rightarrow> (nat \<times> callback) list \<times> bool" where
  "move_queued [] cbs b = (cbs, b)"
| "move_queued (v # vs) cbs b = move_queued vs (cbs @ [v]) (b \<or> (cbs \<noteq> [] \<and> fst v < fst (last cbs)))"

definition take_queued :: "store_state \<Rightarrow> store_state" where
  "take_queued s =
     (if anyQueued s
      then let (cbs, unsorted) = move_queued (queuedCallbacks s) (callbacks s) False
           in s\<lparr>anyQueued := False, queuedCallbacks := [], callbacks := (if unsorted then sort_key fst cbs else cbs)\<rparr>
      else s)"

definition run_callback :: "config \<Rightarrow> nat \<Rightarrow> bool \<Rightarrow> callback \<Rightarrow> store_state \<Rightarrow> handled" where
  "run_callback c now failed cb s =
     (case cb of
        CConnect \<Rightarrow> Inr (connect c now s)
      | CTryPort p \<Rightarrow> Inr (try_port p s)
      | CUdpBurst a \<Rightarrow> Inr (udp_burst now a (udps c) s)
      | CUdpConnect a \<Rightarrow> Inr (send_udp_connect c a s)
      | CKeepalive \<Rightarrow> keepalive c now s
      | CConnectTo a edge uid \<Rightarrow> connect_to c now a edge uid s
      | CConnectEdge r \<Rightarrow> connectEdge c now r s
      | CSendAddresses r e \<Rightarrow> sendAddresses c now failed r e s
      | CTryHello d \<Rightarrow> Inr (tryDiagnosticHello c now d s)
      | CRead i data \<Rightarrow> onreadtcp c now i data s
      | CLost i msg \<Rightarrow> connection_lost c now i msg s
      | CClose \<Rightarrow> runCloseStateMachine c now s)"

text \<open>One round of \<open>threadEntry\<close>, after the wait for its next callback.\<close>

definition threadEntry :: "config \<Rightarrow> nat \<Rightarrow> bool \<Rightarrow> store_state \<Rightarrow> handled" where
  "threadEntry c now failed s =
     (if closed s then Inr (s\<lparr>callbacks := []\<rparr>)
      else let s = take_queued s
           in case callbacks s of
                [] \<Rightarrow> Inr s
              | (t, cb) # cbs \<Rightarrow> if t \<le> now then run_callback c now failed cb (s\<lparr>callbacks := cbs\<rparr>) else Inr s)"

text \<open>The read callback of a connection: an error message or data. It only queues a callback.\<close>

definition read_callback :: "nat \<Rightarrow> nat \<Rightarrow> bytes + bytes \<Rightarrow> store_state \<Rightarrow> store_state" where
  "read_callback now i r s =
     (case r of Inr data \<Rightarrow> addCallback now (CRead i data) s
      | Inl msg \<Rightarrow> addCallback now (CLost i msg) (close_conn i s))"

text \<open>The callback of a name lookup.\<close>

definition resolve_callback :: "nat \<Rightarrow> addr \<Rightarrow> store_state \<Rightarrow> store_state" where
  "resolve_callback now a s = addCallback now (CUdpBurst a) s"

section \<open>Construction\<close>

text \<open>The accept callback of the listeners.\<close>

definition accept_connection :: "nat \<Rightarrow> store_state \<Rightarrow> handled" where
  "accept_connection now s = (if closed s then Inr s else addConnection now s)"


definition new_edge :: edge_info where
  "new_edge = \<lparr>e_uid = [], e_networkKey = [], e_addresses = [], e_udpaddr = [], e_udpSocket = None, e_lastConnectEdge = 0,
     e_tcpconnections = [], e_incomingSeq = 0, e_outgoingSeq = 0, e_outgoingQueue = [], e_incomingQueue = [],
     e_everConnected = False, e_sentDiagnosticSourceFor = [], e_broadcastForwardFor = [], e_pendingBroadcasts = []\<rparr>"

definition maxEdgePeers :: nat where
  "maxEdgePeers = 4"

text \<open>\<open>local\<close> holds the addresses of the listeners.\<close>

definition StoreImpl :: "config \<Rightarrow> nat \<Rightarrow> bytes list \<Rightarrow> store_state result" where
  "StoreImpl c now local =
     (if \<not> (0 < worldSize c \<and> rank c < worldSize c) then Inl CheckFailed
      else if maxEdgePeers < length (edges c ! rank c) then Inl CheckFailed
      else Inr (addCallback (now + 8000) CKeepalive (addCallback now CConnect
        \<lparr>closed = False, anyQueued = False, callbacks = [], queuedCallbacks = [], conns = [], floatingConnections = [],
         connectAcked = False, connectCounter = 0, unackedAddresses = zip [0..<length local] local, shuttingDown = False,
         exited = False, exitTime = 0, exitSourceRank = None, closeState = NotStarted, shutdownDeadline = 0,
         shutdownBackoff = 1, rankInfos = replicate (worldSize c) None,
         shutdownStates = replicate (worldSize c) \<lparr>sh_shutdown = False, sh_exited = False, sh_exitAck = False\<rparr>,
         edgePeers = map (\<lambda>e. (e, new_edge)) (edges c ! rank c), diagnosticSources = [], receivedDiagnostics = [],
         prevConnectTime = 0, nextId = 1, waits = [], wait_objects = [], store = [], storeWaiters = [], outs = []\<rparr>)))"

section \<open>Steps of a rank\<close>

text \<open>
  What can happen to a rank: a round of the thread, a datagram, data or an error on a connection, a new
  connection, an answer of the resolver, a call of the user. A handler that throws ends the
  process, so only handlers that return make a step.
\<close>

inductive store_step :: "config \<Rightarrow> store_state \<Rightarrow> store_state \<Rightarrow> bool" for c where
  thread: "threadEntry c now failed s = Inr t \<Longrightarrow> store_step c s t"
| datagram: "onreadudp c now sendto_failed sock from buf s = Inr t \<Longrightarrow> store_step c s t"
| data: "i < length (conns s) \<Longrightarrow> store_step c s (read_callback now i r s)"
| accept: "accept_connection now s = Inr t \<Longrightarrow> store_step c s t"
| resolved: "store_step c s (resolve_callback now a s)"
| request: "doWaitOp c now timeout type key args s = Inr (h, t) \<Longrightarrow> store_step c s t"
| close: "store_step c s (Store_Events.close now s)"

inductive reachable :: "config \<Rightarrow> store_state \<Rightarrow> bool" for c where
  init: "StoreImpl c now local = Inr s \<Longrightarrow> reachable c s"
| step: "reachable c s \<Longrightarrow> store_step c s t \<Longrightarrow> reachable c t"

end
