(* ===== verification/Store_Step.thy ===== *)
theory Store_Step
  imports Store_Events
begin

text \<open>
  What the message functions may change. A relation between the state before and after that is
  respected by every update they are made of is respected by \<open>run\<close>, whether it returns or fails.
\<close>

definition leads :: "(store_state \<Rightarrow> store_state \<Rightarrow> bool) \<Rightarrow> store_state \<Rightarrow> handled \<Rightarrow> bool" where
  "leads R s r \<longleftrightarrow> (case r of Inl (e, t) \<Rightarrow> R s t | Inr t \<Rightarrow> R s t)"

lemma leads_simps [simp]: "leads R s (Inl (e, t)) = R s t" "leads R s (Inr t) = R s t"
  by (simp_all add: leads_def)

lemma findEdge_update_edge: "findEdge (update_edge r f s) k = (if k = r then map_option f (findEdge s k) else findEdge s k)"
proof -
  have "map_of (map (\<lambda>(k, e). (k, if k = r then f e else e)) m) k = (if k = r then map_option f (map_of m k) else map_of m k)" for m
    by (induction m) auto
  then show ?thesis unfolding findEdge_def update_edge_def by simp
qed

lemma set_set_add [simp]: "set (set_add k m) = insert k (set m)"
  by (auto simp: set_add_def)

locale message_relation =
  fixes R :: "config \<Rightarrow> store_state \<Rightarrow> store_state \<Rightarrow> bool"
  assumes refl: "R c s s"
    and trans: "R c s t \<Longrightarrow> R c t u \<Longrightarrow> R c s u"
    and emit: "R c s (emit x s)"
    and hello: "R c s (addCallback time (CTryHello d) s)"
    and queue: "R c s (queue_message now k f d s)"
    and sent: "R c s (mark_sent k d s)"
    and pending: "R c s (add_pending k d f s)"
    and set_value: "R c s (set_value key v s)"
    and waiter: "map_of (store s) key = None \<Longrightarrow> R c s (add_waiter key w s)"
    and finish: "R c s (finish_wait i b v s)"
    and shutdown: "R c s (update_shutdown r g s)"
    and origin: "R c s (note_origin r s)"
    and exit: "\<not> exited s \<Longrightarrow> R c s (enter_exit c now s)"
    and sources: "R c s (s\<lparr>diagnosticSources := ds\<rparr>)"
    and received: "R c s (s\<lparr>receivedDiagnostics := rs\<rparr>)"
begin

lemma step: "R c s t \<Longrightarrow> leads (R c) t r \<Longrightarrow> leads (R c) s r"
  by (cases r) (auto intro: trans)

lemma andthen: "leads (R c) s r \<Longrightarrow> (\<And>t. R c s t \<Longrightarrow> leads (R c) t (f t)) \<Longrightarrow> leads (R c) s (andthen r f)"
  by (cases r) (auto intro: step)

lemma getEdge: "(\<And>e. findEdge s r = Some e \<Longrightarrow> leads (R c) s (f e)) \<Longrightarrow> leads (R c) s (getEdge r s f)"
  by (simp add: getEdge_def refl split: option.split)

lemma read_args: "(\<And>v. leads (R c) s (k v)) \<Longrightarrow> leads (R c) s (read_args t f s k)"
  by (auto simp: read_args_def refl split: sum.split)

lemma first_hop: "(d < length (hops c) \<Longrightarrow> leads (R c) s (k (hops c ! d))) \<Longrightarrow> leads (R c) s (first_hop c d s k)"
  by (simp add: first_hop_def refl)

lemma each: "(\<And>s x. leads (R c) s (f s x)) \<Longrightarrow> leads (R c) s (each f s xs)"
  by (induction xs arbitrary: s) (auto intro: refl andthen)

lemma written: "R c s (write_conn i m s)"
  by (simp add: write_conn_def emit)

lemma diagnostic: "R c s (sendDiagnosticInfo c now d k kind why s)"
  by (auto simp: sendDiagnosticInfo_def add_diagnostic_def Let_def refl emit received split: option.split list.split)

lemma try_hello: "R c s (tryDiagnosticHello c now d s)"
proof -
  have sent: "R c s (emit x (s\<lparr>diagnosticSources := ds\<rparr>))" for x ds
    by (rule trans [OF sources emit])
  then have "R c s (addCallback time (CTryHello d) (emit x (s\<lparr>diagnosticSources := ds\<rparr>)))" for x ds time
    using hello trans by blast
  with sent show ?thesis
    by (simp add: tryDiagnosticHello_def Let_def refl split: option.split)
qed

lemma learn: "R c s (learn_source c d as s)"
  by (simp add: learn_source_def Let_def sources)

end

context message_relation
begin

lemma sendMessage:
  assumes rec: "\<And>x s. leads (R c) s (rec x s)"
  shows "leads (R c) s (sendMessage rec c now edge f d s)"
  unfolding sendMessage_def Let_def
  by (auto intro!: rec andthen getEdge refl trans [OF queue written] trans [OF queue diagnostic] split: list.split)

lemma ensure:
  assumes rec: "\<And>x s. leads (R c) s (rec x s)"
  shows "leads (R c) s (ensureDiagnosticSourceSent rec c edge d s)"
  unfolding ensureDiagnosticSourceSent_def Let_def
  by (auto intro!: getEdge refl sent step [OF sent rec])

lemma sendMessageTo:
  assumes rec: "\<And>x s. leads (R c) s (rec x s)"
  shows "leads (R c) s (sendMessageTo rec c dest i d type args s)"
  unfolding sendMessageTo_def Let_def
  by (auto intro!: first_hop getEdge refl rec)

lemma forwardBroadcast:
  assumes rec: "\<And>x s. leads (R c) s (rec x s)"
  shows "leads (R c) s (forwardBroadcast rec c d f sender s)"
  unfolding forwardBroadcast_def forward_to_def Let_def
  by (auto intro!: each getEdge refl rec pending)

lemma broadcastMessage:
  assumes rec: "\<And>x s. leads (R c) s (rec x s)"
  shows "leads (R c) s (broadcastMessage rec c type args s)"
  unfolding broadcastMessage_def by (intro each rec)

lemma answers:
  assumes rec: "\<And>x s. leads (R c) s (rec x s)"
  shows "leads (R c) s (handle_set rec f s)" "leads (R c) s (handle_get rec f s)" "leads (R c) s (handle_check rec f s)"
proof -
  have "leads (R c) s (internalStoreSetValue rec key v s)" for key v s
    unfolding internalStoreSetValue_def answer_def by (intro step [OF set_value [of c s key v]] each rec)
  then show "leads (R c) s (handle_set rec f s)"
    unfolding handle_set_def by (intro read_args andthen rec)
  show "leads (R c) s (handle_get rec f s)"
    unfolding handle_get_def internalStoreGetValue_def answer_def
    by (intro read_args) (simp add: rec waiter split: option.split)
  show "leads (R c) s (handle_check rec f s)"
    unfolding handle_check_def by (intro read_args rec)
qed

lemma marks:
  assumes rec: "\<And>x s. leads (R c) s (rec x s)"
  shows "leads (R c) s (handle_done f s)" "leads (R c) s (handle_shutdown f s)" "leads (R c) s (handle_exit_ack f s)"
    "leads (R c) s (handle_diagnostic_source c now f s)"
  unfolding handle_done_def handle_shutdown_def handle_exit_ack_def handle_diagnostic_source_def Let_def
  by (auto intro!: read_args refl finish trans [OF shutdown origin] shutdown trans [OF learn try_hello])

lemma handle_exit:
  assumes rec: "\<And>x s. leads (R c) s (rec x s)"
  shows "leads (R c) s (handle_exit rec c now f s)"
proof -
  have "R c s t \<Longrightarrow> \<not> exited t \<Longrightarrow> leads (R c) s (rec x (enter_exit c now t))" for x t
    by (rule step [OF trans [OF _ exit] rec])
  moreover have "R c s (note_origin r (update_shutdown q g s))" for r q g
    by (rule trans [OF shutdown origin])
  moreover have "R c s (update_shutdown q g s)" for q g
    by (rule shutdown)
  moreover have "exited (note_origin r t) = exited t" for r t
    by (simp add: note_origin_def)
  ultimately show ?thesis
    unfolding handle_exit_def Let_def by (auto intro!: read_args refl shutdown)
qed

lemma forward_message:
  assumes rec: "\<And>x s. leads (R c) s (rec x s)"
  shows "leads (R c) s (forward_message rec c f s)"
proof -
  have "leads (R c) s (getEdge k s (\<lambda>_. rec x s))" for k x
    by (intro getEdge rec)
  then show ?thesis
    unfolding forward_message_def Let_def by (simp add: refl first_hop)
qed

lemma dispatch:
  assumes rec: "\<And>x s. leads (R c) s (rec x s)"
  shows "leads (R c) s (dispatch rec c now f s)"
  unfolding dispatch_def Let_def
  using answers [where rec = rec, OF rec] marks [where rec = rec, OF rec] handle_exit [where rec = rec, OF rec]
  by (simp add: refl)

lemma processMessage:
  assumes rec: "\<And>x s. leads (R c) s (rec x s)"
  shows "leads (R c) s (processMessage rec c now data edge s)"
proof (cases data)
  case (Inr f)
  have "leads (R c) s (if b then rec x s else Inr s)" for b x
    by (simp add: rec refl)
  with Inr show ?thesis
    unfolding processMessage_def by (simp add: forward_message dispatch andthen rec)
qed (simp add: processMessage_def refl)

lemma run: "leads (R c) s (run n c now x s)"
proof (induction n arbitrary: x s)
  case (Suc n)
  note rec = Suc.IH
  show ?case
    by (cases x) (simp_all add: processMessage sendMessage sendMessageTo ensure forwardBroadcast broadcastMessage rec)
qed (simp add: refl)

lemma exec: "leads (R c) s (exec c now x s)"
  by (simp add: exec_def run)

end

section \<open>What messages leave alone\<close>

text \<open>
  Of an edge, messages change what is to be sent; connections, addresses, the incoming queue and the forwarding
  table stay. The connections, the callbacks that are due and the state of the shutdown stay as well.
\<close>

definition link_view :: "edge_info \<Rightarrow> edge_info" where
  "link_view e = e\<lparr>e_outgoingSeq := 0, e_outgoingQueue := [], e_sentDiagnosticSourceFor := [], e_pendingBroadcasts := []\<rparr>"

definition links :: "store_state \<Rightarrow> (nat \<times> edge_info) list" where
  "links s = map (\<lambda>(k, e). (k, link_view e)) (edgePeers s)"

definition static :: "store_state \<Rightarrow>
    bool \<times> (nat \<times> callback) list \<times> connection_info list \<times> nat list \<times> close_state \<times> nat \<times> nat \<times> rank_info option list \<times> nat \<times> bool" where
  "static s = (closed s, callbacks s, conns s, floatingConnections s, closeState s, shutdownDeadline s, shutdownBackoff s,
     rankInfos s, length (shutdownStates s), shuttingDown s)"

definition hellos :: "store_state \<Rightarrow> store_state \<Rightarrow> bool" where
  "hellos s t \<longleftrightarrow> (\<exists>hs. queuedCallbacks t = queuedCallbacks s @ hs \<and> (\<forall>h \<in> set hs. \<exists>d. snd h = CTryHello d) \<and>
     (anyQueued t = (anyQueued s \<or> hs \<noteq> [])))"

definition messages_only :: "store_state \<Rightarrow> store_state \<Rightarrow> bool" where
  "messages_only s t \<longleftrightarrow> links t = links s \<and> static t = static s \<and> hellos s t \<and>
     (exitSourceRank s \<noteq> None \<longrightarrow> exitSourceRank t = exitSourceRank s)"

lemma links_update_edge: "(\<And>e. link_view (f e) = link_view e) \<Longrightarrow> links (update_edge k f s) = links s"
  by (auto simp: links_def update_edge_def)

lemma static_update_edge: "static (update_edge k f s) = static s"
  by (simp add: static_def update_edge_def)

lemma hellos_same: "queuedCallbacks t = queuedCallbacks s \<Longrightarrow> anyQueued t = anyQueued s \<Longrightarrow> hellos s t"
  by (simp add: hellos_def)

lemma hellos_trans: "hellos s t \<Longrightarrow> hellos t u \<Longrightarrow> hellos s u"
  unfolding hellos_def by (elim exE conjE) (rule exI, rule conjI, simp, auto)

lemma messages_only_same:
  "edgePeers t = edgePeers s \<Longrightarrow> static t = static s \<Longrightarrow> queuedCallbacks t = queuedCallbacks s \<Longrightarrow> anyQueued t = anyQueued s \<Longrightarrow>
    (exitSourceRank s \<noteq> None \<Longrightarrow> exitSourceRank t = exitSourceRank s) \<Longrightarrow> messages_only s t"
  by (simp add: messages_only_def links_def hellos_same)

lemma messages_only_edge: "(\<And>e. link_view (f e) = link_view e) \<Longrightarrow> messages_only s (update_edge k f s)"
  by (simp add: messages_only_def links_update_edge static_update_edge) (simp add: hellos_def update_edge_def)

lemma fold_same: "(\<And>x s. g (f x s) = g s) \<Longrightarrow> g (fold f xs s) = g s"
  by (induction xs arbitrary: s) simp_all

lemma messages_only_exit: "messages_only s (enter_exit c now s)"
proof -
  have "static (exitWait c h t) = static t" "edgePeers (exitWait c h t) = edgePeers t"
    "queuedCallbacks (exitWait c h t) = queuedCallbacks t" "anyQueued (exitWait c h t) = anyQueued t"
    "exitSourceRank (exitWait c h t) = exitSourceRank t" for h t
    by (simp_all add: exitWait_def update_wait_def static_def)
  then have "static (enter_exit c now s) = static (s\<lparr>exited := True, exitTime := now\<rparr>)" "edgePeers (enter_exit c now s) = edgePeers s"
    "queuedCallbacks (enter_exit c now s) = queuedCallbacks s" "anyQueued (enter_exit c now s) = anyQueued s"
    "exitSourceRank (enter_exit c now s) = exitSourceRank s"
    by (auto simp: enter_exit_def fold_same [where g = static] fold_same [where g = edgePeers]
        fold_same [where g = queuedCallbacks] fold_same [where g = anyQueued] fold_same [where g = exitSourceRank] split: prod.split)
  then show ?thesis by (intro messages_only_same) (simp_all add: static_def)
qed

interpretation messages: message_relation "\<lambda>c. messages_only"
proof unfold_locales
  fix c :: config and s t u :: store_state
  show "messages_only s t \<Longrightarrow> messages_only t u \<Longrightarrow> messages_only s u"
    by (auto simp: messages_only_def intro: hellos_trans)
next
  fix c :: config and time d s
  show "messages_only s (addCallback time (CTryHello d) s)"
    by (simp add: messages_only_def links_def static_def addCallback_def hellos_def)
qed (auto simp: messages_only_exit queue_message_def mark_sent_def add_pending_def link_view_def emit_def set_value_def add_waiter_def
      finish_wait_def update_wait_def update_shutdown_def note_origin_def static_def
      intro!: messages_only_edge messages_only_same split: option.split)

lemma links_edges: "links t = links s \<Longrightarrow> map fst (edgePeers t) = map fst (edgePeers s)"
proof -
  assume same: "links t = links s"
  have "map fst (links s) = map fst (edgePeers s)" for s by (auto simp: links_def)
  then show ?thesis using same by metis
qed

lemma links_findEdge: "links t = links s \<Longrightarrow> map_option link_view (findEdge t k) = map_option link_view (findEdge s k)"
proof -
  assume same: "links t = links s"
  have "map_of (links s) k = map_option link_view (findEdge s k)" for s
    by (simp add: links_def findEdge_def map_of_map)
  then show ?thesis using same by metis
qed

end
