(* ===== verification/Store_Core.thy ===== *)
theory Store_Core
  imports Store_Step
begin

text \<open>
  The store proper and the waits of the user, apart from the network around them. A relation that
  holds between states with the same core, and is respected by the few updates of the core, holds
  between the states before and after every step of a rank.
\<close>

definition core :: "store_state \<Rightarrow>
    (bytes \<times> bytes) list \<times> (bytes \<times> waiter list) list \<times> (nat \<times> nat) list \<times> wait_state list \<times> bool \<times> nat" where
  "core s = (store s, storeWaiters s, waits s, wait_objects s, exited s, nextId s)"

named_theorems core_simps

lemma core_updates [core_simps]:
  "core (s\<lparr>closed := b\<rparr>) = core s" "core (s\<lparr>anyQueued := b\<rparr>) = core s" "core (s\<lparr>callbacks := cs\<rparr>) = core s"
  "core (s\<lparr>queuedCallbacks := cs\<rparr>) = core s" "core (s\<lparr>conns := ks\<rparr>) = core s" "core (s\<lparr>floatingConnections := is\<rparr>) = core s"
  "core (s\<lparr>connectAcked := b\<rparr>) = core s" "core (s\<lparr>connectCounter := n\<rparr>) = core s" "core (s\<lparr>unackedAddresses := as\<rparr>) = core s"
  "core (s\<lparr>shuttingDown := b\<rparr>) = core s" "core (s\<lparr>exitTime := n\<rparr>) = core s" "core (s\<lparr>exitSourceRank := r\<rparr>) = core s"
  "core (s\<lparr>closeState := st\<rparr>) = core s" "core (s\<lparr>shutdownDeadline := n\<rparr>) = core s" "core (s\<lparr>shutdownBackoff := n\<rparr>) = core s"
  "core (s\<lparr>rankInfos := ri\<rparr>) = core s" "core (s\<lparr>shutdownStates := ss\<rparr>) = core s" "core (s\<lparr>edgePeers := es\<rparr>) = core s"
  "core (s\<lparr>diagnosticSources := ds\<rparr>) = core s" "core (s\<lparr>receivedDiagnostics := rs\<rparr>) = core s"
  "core (s\<lparr>prevConnectTime := n\<rparr>) = core s" "core (s\<lparr>outs := os\<rparr>) = core s"
  by (simp_all add: core_def)

lemma core_primitives [core_simps]:
  "core (emit x s) = core s" "core (addCallback time cb s) = core s" "core (update_edge r g s) = core s"
  "core (update_conn i h s) = core s" "core (close_conn i s) = core s" "core (write_conn i m s) = core s"
  "core (queue_message now k f d s) = core s" "core (mark_sent k d s) = core s" "core (add_pending k d f s) = core s"
  "core (update_shutdown r u s) = core s" "core (note_origin r s) = core s" "core (reaptcpconnections r s) = core s"
  by (simp_all add: core_def emit_def addCallback_def update_edge_def update_conn_def close_conn_def write_conn_def
      queue_message_def mark_sent_def add_pending_def update_shutdown_def note_origin_def reaptcpconnections_def)

text \<open>Updates over lists.\<close>

lemmas core_fold = fold_same [where g = core]

lemma core_fold_pair: "(\<And>x p. core (fst (f x p)) = core (fst p)) \<Longrightarrow> core (fst (fold f xs p)) = core (fst p)"
  by (induction xs arbitrary: p) simp_all

lemma core_diagnostics [core_simps]:
  "core (sendDiagnosticInfo c now d k kind why s) = core s" "core (add_diagnostic now r st kd tx s) = core s"
  "core (tryDiagnosticHello c now d s) = core s"
  by (simp_all add: sendDiagnosticInfo_def add_diagnostic_def tryDiagnosticHello_def Let_def core_simps
      split: option.split list.split)

lemma core_lists [core_simps]:
  "core (tell_sources c now k kind why ds s) = core s" "core (resend_queue i e s) = core s"
  "core (checkStuckMessages c now s) = core s"
  by (auto simp: tell_sources_def resend_queue_def checkStuckMessages_def check_message_def core_simps
      intro!: core_fold split: prod.split)

lemma core_schedule_connects [core_simps]: "core (schedule_connects c now k net uid as n s) = core s"
  by (induction as arbitrary: n s) (auto simp: core_simps)

lemma core_schedule_ports [core_simps]: "core (schedule_ports now ps s) = core s"
  by (induction ps arbitrary: s) (auto simp: core_simps)

lemma core_udp_burst [core_simps]: "core (udp_burst now a m s) = core s"
  by (induction m arbitrary: s) (auto simp: Let_def core_simps)

lemma core_callbacks [core_simps]:
  "core (assign_conn now i m s) = core s" "core (advance k s) = core s" "core (sort_queue k s) = core s" "core (pop_incoming k s) = core s"
  "core (touch now i s) = core s" "core (connect c now s) = core s" "core (try_port p s) = core s" "core (send_udp_connect c a s) = core s"
  "core (update_rank_info sock from um s) = core s" "core (closeResources s) = core s" "core (phase now st timeout s) = core s"
  "core (take_queued s) = core s" "core (Store_Events.close now s) = core s" "core (read_callback now i r s) = core s"
  "core (resolve_callback now a s) = core s"
  by (simp_all add: assign_conn_def advance_def sort_queue_def pop_incoming_def touch_def connect_def try_port_def send_udp_connect_def
      update_rank_info_def closeResources_def phase_def take_queued_def Store_Events.close_def read_callback_def resolve_callback_def
      Let_def core_simps split: prod.split sum.split)

text \<open>Handlers that leave the core alone.\<close>

abbreviation keeps :: "store_state \<Rightarrow> handled \<Rightarrow> bool" where
  "keeps \<equiv> leads (\<lambda>s t. core t = core s)"

lemma keeps_getEdge: "(\<And>e. findEdge s r = Some e \<Longrightarrow> keeps s (f e)) \<Longrightarrow> keeps s (getEdge r s f)"
  by (simp add: getEdge_def split: option.split)

lemma keeps_from: "core t = core s \<Longrightarrow> keeps t r \<Longrightarrow> keeps s r"
  by (auto simp: leads_def split: sum.splits)

lemma keeps_andthen: "keeps s r \<Longrightarrow> (\<And>t. core t = core s \<Longrightarrow> keeps t (f t)) \<Longrightarrow> keeps s (andthen r f)"
  by (cases r) (auto intro: keeps_from)

lemma keeps_each: "(\<And>s x. keeps s (f s x)) \<Longrightarrow> keeps s (each f s xs)"
  by (induction xs arbitrary: s) (auto intro: keeps_andthen)

lemma keeps_connections:
  "keeps s (addConnection now s)" "keeps s (connectEdge c now k s)" "keeps s (connect_to c now a k uid s)"
  "keeps s (sendAddresses c now failed r k s)" "keeps s (connection_lost c now i msg s)"
proof -
  show add: "keeps s (addConnection now s)" for s
    by (simp add: addConnection_def core_simps)
  show "keeps s (connectEdge c now k s)"
    unfolding connectEdge_def Let_def getEdge_def by (simp add: core_simps split: option.split)
  show "keeps s (connect_to c now a k uid s)"
    unfolding connect_to_def Let_def getEdge_def
    by (auto simp: core_simps split: option.split intro!: keeps_from [OF _ add])
  show "keeps s (sendAddresses c now failed r k s)"
    unfolding sendAddresses_def Let_def by (simp add: core_simps split: option.split)
  show "keeps s (connection_lost c now i msg s)"
    unfolding connection_lost_def Let_def getEdge_def by (simp add: core_simps split: option.split)
qed

lemma core_check_edge: "core (fst (check_edge now x p)) = core (fst p)"
proof -
  have "core (fst (check_conn now e i p)) = core (fst p)" for e i p
    by (simp add: check_conn_def Let_def core_simps split: prod.split)
  then have "core (fst (fold (check_conn now e) js p)) = core (fst p)" for e js p
    by (rule core_fold_pair)
  then show ?thesis
    by (simp add: check_edge_def Let_def core_simps split: prod.split) (metis fst_conv)
qed

lemma core_check_floating: "core (fst (check_floating now i p)) = core (fst p)"
  by (simp add: check_floating_def core_simps split: prod.split)

lemma keeps_keepalive: "keeps s (keepalive c now s)"
proof -
  obtain t rs where edges: "fold (check_edge now) (edgePeers s) (s, []) = (t, rs)" by fastforce
  obtain u ks where floating: "fold (check_floating now) (floatingConnections t) (t, []) = (u, ks)" by fastforce
  have "core t = core s"
    using core_fold_pair [of "check_edge now", OF core_check_edge, of "edgePeers s" "(s, [])"] edges by simp
  moreover have "core u = core t"
    using core_fold_pair [of "check_floating now", OF core_check_floating, of "floatingConnections t" "(t, [])"] floating by simp
  ultimately have "core (u\<lparr>floatingConnections := ks\<rparr>) = core s"
    by (simp add: core_simps)
  moreover have "keeps v (andthen (each (\<lambda>s r. connectEdge c now r s) v rs) (\<lambda>s.
      Inr (addCallback (now + keepalive_delay c) CKeepalive (checkStuckMessages c now s))))" for v
    by (intro keeps_andthen keeps_each keeps_connections) (simp add: core_simps)
  ultimately show ?thesis
    unfolding keepalive_def edges Let_def prod.case floating by (rule keeps_from)
qed

lemma keeps_catch: "keeps s r \<Longrightarrow> keeps s (catch r)"
  by (auto simp: catch_def leads_def split: sum.splits)

lemma keeps_handle_udp: "keeps s (handle_udp c now failed sock from m s)"
proof -
  have connected: "keeps s (udp_connected c now failed sock from m s)" for m
    unfolding udp_connected_def Let_def
    by (intro keeps_from [OF _ keeps_each [OF keeps_connections(4)]]) (simp add: core_simps)
  have connect: "keeps s (udp_connect c now failed sock from m s)" for m
    unfolding udp_connect_def using connected by (simp split: option.split)
  have addresses: "keeps s (udp_addresses c now sock from m s)" for m
  proof -
    have "keeps s (connectEdge c now k t)" if "core t = core s" for k t
      by (rule keeps_from [OF that keeps_connections(2)])
    then show ?thesis
      unfolding udp_addresses_def Let_def getEdge_def by (simp add: core_simps split: option.split)
  qed
  show ?thesis
    using connect addresses
    by (cases m) (simp_all add: handle_udp_def udp_connect_ack_def udp_addresses_ack_def udp_hello_def udp_diagnostic_def
        Let_def core_simps split: option.split)
qed

lemma keeps_onreadudp: "keeps s (onreadudp c now failed sock from buf s)"
  by (auto simp: onreadudp_def intro: keeps_catch keeps_handle_udp split: sum.split option.split)

section \<open>Updates of the core\<close>

text \<open>A call of the user registers a wait and sends a message, or fails at once.\<close>

lemma doWaitOp_cases:
  assumes "doWaitOp c now timeout type key args s = Inr (h, t)"
  obtains x where "exited s" "t = exitWait c (length (wait_objects s)) (s\<lparr>nextId := (nextId s + 1) mod 2 ^ 32, wait_objects := wait_objects s @ [x]\<rparr>)"
    | x y where "\<not> exited s" "exec c now y (s\<lparr>nextId := (nextId s + 1) mod 2 ^ 32, wait_objects := wait_objects s @ [x],
        waits := put (nextId s) (length (wait_objects s)) (waits s)\<rparr>) = Inr t"
proof (cases "exited s")
  case True
  then show ?thesis using assms that(1) by (auto simp: doWaitOp_def Let_def split: if_splits)
next
  case False
  then show ?thesis using assms that(2) by (auto simp: doWaitOp_def Let_def andthen_def split: if_splits sum.splits)
qed

locale core_relation =
  fixes R :: "config \<Rightarrow> store_state \<Rightarrow> store_state \<Rightarrow> bool"
  assumes frame: "core t = core s \<Longrightarrow> R c s t"
    and trans: "R c s t \<Longrightarrow> R c t u \<Longrightarrow> R c s u"
    and set_value: "R c s (set_value key v s)"
    and waiter: "map_of (store s) key = None \<Longrightarrow> R c s (add_waiter key w s)"
    and finish: "R c s (finish_wait i b v s)"
    and exit: "\<not> exited s \<Longrightarrow> R c s (enter_exit c now s)"
    and request: "\<not> exited s \<Longrightarrow> R c s (s\<lparr>nextId := (nextId s + 1) mod 2 ^ 32, wait_objects := wait_objects s @ [x],
          waits := put (nextId s) (length (wait_objects s)) (waits s)\<rparr>)"
    and refuse: "exited s \<Longrightarrow> R c s (exitWait c (length (wait_objects s))
          (s\<lparr>nextId := (nextId s + 1) mod 2 ^ 32, wait_objects := wait_objects s @ [x]\<rparr>))"

sublocale core_relation \<subseteq> msg: message_relation R
  by unfold_locales (auto intro: trans set_value waiter finish exit frame simp: core_simps)

context core_relation
begin

lemma kept: "keeps s r \<Longrightarrow> leads (R c) s r"
  by (cases r) (auto intro: frame)

lemma framed: "core t = core s \<Longrightarrow> leads (R c) t r \<Longrightarrow> leads (R c) s r"
  by (rule msg.step [OF frame])

lemma catching: "leads (R c) s r \<Longrightarrow> leads (R c) s (catch r)"
  by (auto simp: catch_def leads_def split: sum.splits)

lemma replay: "leads (R c) s (replayPendingBroadcasts c now k s)"
proof -
  have "leads (R c) s (each (\<lambda>s p. if fst p \<in> A then exec c now (Send k (snd p) (rank c)) s else Inr s) s ps)" for A ps
    by (rule msg.each) (simp add: msg.exec msg.refl)
  moreover have "leads (R c) t (Inr (update_edge k g t))" for g t
    by (simp add: frame core_simps)
  ultimately show ?thesis
    unfolding replayPendingBroadcasts_def by (intro msg.getEdge msg.andthen)
qed

lemma read_connect: "leads (R c) s (read_connect c now i b m s)"
proof -
  have connected: "leads (R c) s (andthen (replayPendingBroadcasts c now k (assign_conn now i m s)) f)"
    if "\<And>t. leads (R c) t (f t)" for k f
    by (intro framed [OF _ msg.andthen [OF replay that]]) (simp add: core_simps)
  have "leads (R c) s (andthen (replayPendingBroadcasts c now k (assign_conn now i m s)) (\<lambda>s. getEdge k s (\<lambda>e. Inr (g e s))))"
    if "\<And>e s. core (g e s) = core s" for g k
    using that by (intro connected msg.getEdge) (simp add: frame)
  then show ?thesis
    unfolding read_connect_def Let_def
    by (simp add: msg.refl) (intro conjI impI msg.getEdge, simp add: core_simps frame)
qed

lemma drain: "leads (R c) s (drain c now k n s)"
proof (induction n arbitrary: s)
  case (Suc n)
  have "leads (R c) s (andthen (exec c now x (pop_incoming k s)) (\<lambda>s. drain c now k n (advance k s)))" for x
    by (intro framed [OF _ msg.andthen [OF msg.exec framed [OF _ Suc.IH]]]) (simp_all add: core_simps)
  moreover have "leads (R c) s (drain c now k n (pop_incoming k s))"
    by (intro framed [OF _ Suc.IH]) (simp add: core_simps)
  ultimately show ?case
    by (auto intro!: msg.getEdge msg.refl split: list.split)
qed (auto intro!: msg.getEdge msg.refl)

lemma receive: "leads (R c) s (receive c now k q f s)"
proof -
  have "leads (R c) s (getEdge k t (\<lambda>e. drain c now k (g e) t))" if "core t = core s" for t g
    by (intro framed [OF that msg.getEdge] drain)
  then have "leads (R c) s (andthen (exec c now x s) (\<lambda>s. let s = sort_queue k (advance k s) in getEdge k s (\<lambda>e. drain c now k (g e) s)))" for x g
    unfolding Let_def by (intro msg.andthen [OF msg.exec] framed [OF _ msg.getEdge [OF drain]]) (simp add: core_simps)
  then show ?thesis
    unfolding receive_def by (auto intro!: msg.getEdge msg.refl frame simp: core_simps)
qed

lemma handle_tcp: "leads (R c) s (handle_tcp c now i m s)"
proof -
  have "leads (R c) s (receive c now k q f t)" if "core t = core s" for k q f t
    by (rule framed [OF that receive])
  then have "leads (R c) s (read_routed c now i t q f s)" for t q f
    unfolding read_routed_def by (auto intro!: msg.getEdge msg.refl simp: core_simps split: option.split)
  moreover have "leads (R c) s (read_ack now i q s)" for q
    unfolding read_ack_def Let_def by (auto intro!: frame simp: getEdge_def core_simps split: option.split)
  ultimately show ?thesis
    by (auto simp: handle_tcp_def read_connect core_simps intro: frame split: tcp_msg.split)
qed

lemma onreadtcp: "leads (R c) s (onreadtcp c now i data s)"
  by (auto simp: onreadtcp_def msg.refl intro: catching handle_tcp split: sum.split option.split)

lemma close_later: "leads (R c) s (close_later now s)"
  by (simp add: close_later_def frame core_simps)

lemma close_exit_ack: "leads (R c) s (close_exit_ack c now s)"
  by (simp add: close_exit_ack_def close_later frame core_simps)

lemma close_exit: "leads (R c) s (close_exit c now s)"
proof -
  have "leads (R c) t (close_exit_ack c now (phase now st n t))" for st n t
    by (rule framed [OF _ close_exit_ack]) (simp add: core_simps)
  then show ?thesis
    unfolding close_exit_def by (simp add: close_later msg.andthen [OF msg.exec])
qed

lemma close_shutdown_ack: "leads (R c) s (close_shutdown_ack c now s)"
proof -
  have "leads (R c) s (if exited s then Inr s else exec c now x (enter_exit c now s))" for x
    by (simp add: msg.refl msg.step [OF exit msg.exec])
  moreover have "leads (R c) t (close_exit c now (phase now st n t))" for st n t
    by (rule framed [OF _ close_exit]) (simp add: core_simps)
  ultimately show ?thesis
    unfolding close_shutdown_ack_def by (simp only: close_later msg.andthen split: if_split) simp
qed

lemma runCloseStateMachine: "leads (R c) s (runCloseStateMachine c now s)"
proof -
  have "leads (R c) t (close_shutdown_ack c now (phase now st n t))" for st n t
    by (rule framed [OF _ close_shutdown_ack]) (simp add: core_simps)
  then have "leads (R c) t (andthen (exec c now x t) (\<lambda>s. close_shutdown_ack c now (phase now st n s)))" for st n t x
    by (intro msg.andthen msg.exec)
  then have "leads (R c) s (andthen (exec c now x t) (\<lambda>s. close_shutdown_ack c now (phase now st n s)))" if "core t = core s" for st n t x
    using framed [OF that] by blast
  then show ?thesis
    by (simp add: runCloseStateMachine_def close_shutdown_ack close_exit close_exit_ack msg.refl core_simps split: close_state.split)
qed

lemma run_callback: "leads (R c) s (run_callback c now failed cb s)"
  by (cases cb) (simp_all add: run_callback_def frame core_simps kept keeps_keepalive keeps_connections onreadtcp runCloseStateMachine)

lemma threadEntry: "leads (R c) s (threadEntry c now failed s)"
proof -
  have "leads (R c) s (run_callback c now failed cb (t\<lparr>callbacks := cbs\<rparr>))" if "core t = core s" for cb cbs t
    by (rule framed [OF _ run_callback]) (simp add: that core_simps)
  then show ?thesis
    by (simp add: threadEntry_def Let_def frame core_simps split: list.split prod.split)
qed

lemma doWaitOp: "doWaitOp c now timeout type key args s = Inr (h, t) \<Longrightarrow> R c s t"
proof (erule doWaitOp_cases)
  fix x
  assume "exited s" "t = exitWait c (length (wait_objects s)) (s\<lparr>nextId := (nextId s + 1) mod 2 ^ 32, wait_objects := wait_objects s @ [x]\<rparr>)"
  then show ?thesis by (simp only: refuse)
next
  fix x y
  let ?t = "s\<lparr>nextId := (nextId s + 1) mod 2 ^ 32, wait_objects := wait_objects s @ [x], waits := put (nextId s) (length (wait_objects s)) (waits s)\<rparr>"
  assume "\<not> exited s" and "exec c now y ?t = Inr t"
  moreover from this have "R c ?t t" using msg.exec [of c ?t now y] by simp
  ultimately show ?thesis by (blast intro: trans request)
qed

lemma store_step: "store_step c s t \<Longrightarrow> R c s t"
proof (induction rule: store_step.induct)
  case (thread now failed s t)
  then show ?case using threadEntry [of c s now failed] by simp
next
  case (datagram now f sock a buf s t)
  then show ?case using kept [OF keeps_onreadudp [of s c now f sock a buf], of c] by simp
next
  case (accept now s t)
  then show ?case using kept [OF keeps_connections(1) [of s now], of c] by (auto simp: accept_connection_def msg.refl split: if_splits)
qed (auto simp: frame core_simps intro: doWaitOp)

end

section \<open>Waiters\<close>

text \<open>Nobody waits for a key that has a value, and the tables have one entry per key.\<close>

definition waiters_ok :: "store_state \<Rightarrow> bool" where
  "waiters_ok s \<longleftrightarrow> (\<forall>key ws. map_of (storeWaiters s) key = Some ws \<longrightarrow> map_of (store s) key = None \<and> ws \<noteq> [])"

lemma waiters_ok_core: "core t = core s \<Longrightarrow> waiters_ok s \<Longrightarrow> waiters_ok t"
  by (simp add: core_def waiters_ok_def)

lemma core_enter_exit:
  "store (enter_exit c now s) = store s" "storeWaiters (enter_exit c now s) = storeWaiters s"
  "waits (enter_exit c now s) = waits s" "nextId (enter_exit c now s) = nextId s" "exited (enter_exit c now s)"
  by (auto simp: enter_exit_def exitWait_def update_wait_def fold_same [where g = store] fold_same [where g = storeWaiters]
      fold_same [where g = waits] fold_same [where g = nextId] fold_same [where g = exited] split: prod.split)

lemma waiters_ok_same:
  "waiters_ok (finish_wait i b v s) = waiters_ok s" "waiters_ok (enter_exit c now s) = waiters_ok s" "waiters_ok (exitWait c h s) = waiters_ok s"
  "waiters_ok (s\<lparr>nextId := n, wait_objects := os\<rparr>) = waiters_ok s" "waiters_ok (s\<lparr>nextId := n, wait_objects := os, waits := ws\<rparr>) = waiters_ok s"
  by (simp_all add: waiters_ok_def finish_wait_def exitWait_def update_wait_def core_enter_exit split: option.split)

lemma waiters_ok_change:
  "waiters_ok s \<Longrightarrow> waiters_ok (set_value key v s)"
  "waiters_ok s \<Longrightarrow> map_of (store s) key = None \<Longrightarrow> waiters_ok (add_waiter key w s)"
  by (auto simp: waiters_ok_def set_value_def add_waiter_def split: if_splits)

interpretation waiters: core_relation "\<lambda>c s t. waiters_ok s \<longrightarrow> waiters_ok t"
  by unfold_locales (auto simp only: waiters_ok_same intro: waiters_ok_change waiters_ok_core)

lemma waiters_reachable: "reachable c s \<Longrightarrow> waiters_ok s"
proof (induction rule: reachable.induct)
  case (init now local s)
  then show ?case by (auto simp: StoreImpl_def addCallback_def waiters_ok_def split: if_splits)
next
  case (step s t)
  then show ?case using waiters.store_step by blast
qed

section \<open>Waits\<close>

text \<open>
  Every wait that is not answered is registered under its number, as long as the numbers have not
  wrapped around; after the exit every registered wait has failed.
\<close>

definition waits_ok :: "store_state \<Rightarrow> bool" where
  "waits_ok s \<longleftrightarrow>
     nextId s = (length (wait_objects s) + 1) mod 2 ^ 32 \<and>
     (\<forall>i h. map_of (waits s) i = Some h \<longrightarrow>
        h < length (wait_objects s) \<and> i = (h + 1) mod 2 ^ 32 \<and>
        (exited s \<longrightarrow> w_futex (wait_objects s ! h) \<and> w_error (wait_objects s ! h))) \<and>
     (length (wait_objects s) < 2 ^ 32 - 1 \<longrightarrow>
        (\<forall>h < length (wait_objects s). w_futex (wait_objects s ! h) \<or> map_of (waits s) (h + 1) = Some h))"

lemma waits_ok_core: "core t = core s \<Longrightarrow> waits_ok s \<Longrightarrow> waits_ok t"
  by (simp add: core_def waits_ok_def)

lemma exit_wait_simps [simp]: "w_futex (exit_wait c r w)" "w_error (exit_wait c r w)" "exit_wait c r (exit_wait c r w) = exit_wait c r w"
  by (simp_all add: exit_wait_def)

lemma exitWait_simps [simp]:
  "wait_objects (exitWait c h s) = (wait_objects s)[h := exit_wait c (exitSourceRank s) (wait_objects s ! h)]"
  "exitSourceRank (exitWait c h s) = exitSourceRank s" "waits (exitWait c h s) = waits s" "exited (exitWait c h s) = exited s"
  "nextId (exitWait c h s) = nextId s"
  by (simp_all add: exitWait_def update_wait_def)

lemma exit_wait_update: "h < length ws \<Longrightarrow> exit_wait c r (ws[k := exit_wait c r (ws ! k)] ! h) = exit_wait c r (ws ! h)"
  by (cases "k = h") auto

lemma exit_objects:
  assumes "h < length (wait_objects s)"
  shows "wait_objects (fold (\<lambda>(i, h) s. exitWait c h s) xs s) ! h =
    (if h \<in> snd ` set xs then exit_wait c (exitSourceRank s) (wait_objects s ! h) else wait_objects s ! h)"
  using assms by (induction xs arbitrary: s) (auto simp: exit_wait_update split: prod.split)

lemma length_exit_objects: "length (wait_objects (fold (\<lambda>(i, h) s. exitWait c h s) xs s)) = length (wait_objects s)"
  by (rule fold_same) (simp split: prod.split)

lemma waits_ok_exit: "waits_ok s \<Longrightarrow> waits_ok (enter_exit c now s)"
proof -
  assume ok: "waits_ok s"
  have obj: "wait_objects (enter_exit c now s) ! h =
      (if h \<in> snd ` set (waits s) then exit_wait c (exitSourceRank s) (wait_objects s ! h) else wait_objects s ! h)"
    if "h < length (wait_objects s)" for h
    using exit_objects [of h "s\<lparr>exited := True, exitTime := now\<rparr>" c "waits s"] that by (simp add: enter_exit_def)
  have len: "length (wait_objects (enter_exit c now s)) = length (wait_objects s)"
    by (simp add: enter_exit_def length_exit_objects)
  have "map_of (waits s) i = Some h \<Longrightarrow> h \<in> snd ` set (waits s)" for i h
    by (force dest: map_of_SomeD)
  with ok show ?thesis
    unfolding waits_ok_def core_enter_exit len by (auto simp: obj)
qed

lemma waits_ok_finish: "waits_ok s \<Longrightarrow> waits_ok (finish_wait i b v s)"
proof -
  assume ok: "waits_ok s"
  show ?thesis
  proof (cases "map_of (waits s) i")
    case (Some h)
    then have h: "h < length (wait_objects s)" "i = (h + 1) mod 2 ^ 32"
      using ok by (auto simp: waits_ok_def)
    have "i \<noteq> Suc k" if "k \<noteq> h" "k < length (wait_objects s)" "length (wait_objects s) < 2 ^ 32 - 1" for k
      using that h by simp
    with ok h Some show ?thesis
      by (auto simp: waits_ok_def finish_wait_def update_wait_def nth_list_update)
  qed (use ok in \<open>simp add: finish_wait_def\<close>)
qed

lemma waits_ok_request:
  assumes "waits_ok s" "\<not> exited s"
  shows "waits_ok (s\<lparr>nextId := (nextId s + 1) mod 2 ^ 32, wait_objects := wait_objects s @ [x],
    waits := put (nextId s) (length (wait_objects s)) (waits s)\<rparr>)"
  using assms by (auto simp: waits_ok_def nth_append less_Suc_eq mod_Suc_eq)

lemma waits_ok_refuse:
  assumes "waits_ok s" "exited s"
  shows "waits_ok (exitWait c (length (wait_objects s)) (s\<lparr>nextId := (nextId s + 1) mod 2 ^ 32, wait_objects := wait_objects s @ [x]\<rparr>))"
  using assms by (auto simp: waits_ok_def nth_append nth_list_update less_Suc_eq mod_Suc_eq)

lemma waits_ok_same: "waits_ok (set_value key v s) = waits_ok s" "waits_ok (add_waiter key w s) = waits_ok s"
  by (simp_all add: waits_ok_def set_value_def add_waiter_def)

interpretation waits: core_relation "\<lambda>c s t. waits_ok s \<longrightarrow> waits_ok t"
  by unfold_locales (auto simp only: waits_ok_same intro: waits_ok_core waits_ok_exit waits_ok_finish waits_ok_request waits_ok_refuse)

lemma waits_reachable: "reachable c s \<Longrightarrow> waits_ok s"
proof (induction rule: reachable.induct)
  case (init now local s)
  then show ?case by (auto simp: StoreImpl_def addCallback_def waits_ok_def split: if_splits)
next
  case (step s t)
  then show ?case using waits.store_step by blast
qed

end
