(* ===== verification/Store_Fuel.thy ===== *)
theory Store_Fuel
  imports Store_Core Store_Routing Serialization_Safety
begin

text \<open>
  The message functions call each other to a bounded depth: with first hops as \<open>findPaths\<close> finds
  them, \<open>depth\<close> levels are never used up. The longest chain is a call of the user for a key that is
  stored here, which answers a rank that waits for it, over an edge that has to learn about the source first.
\<close>

section \<open>Configurations\<close>

definition config_ok :: "config \<Rightarrow> bool" where
  "config_ok c \<longleftrightarrow>
     rank c < worldSize c \<and> worldSize c < 2 ^ 31 \<and> length (hops c) = worldSize c \<and> length (edges c) = worldSize c \<and>
     hops c ! rank c = rank c \<and> rank c \<notin> set (edges c ! rank c) \<and> distinct (edges c ! rank c) \<and> length (edges c ! rank c) \<le> 4 \<and>
     (\<forall>d<worldSize c. d \<noteq> rank c \<longrightarrow> hops c ! d \<in> set (edges c ! rank c)) \<and>
     (\<forall>e \<in> set (edges c ! rank c). e < worldSize c \<and> hops c ! e = e) \<and>
     (\<forall>row \<in> set (edges c). \<forall>e \<in> set row. e < worldSize c)"

lemma config_ok_findPaths:
  assumes "rank c < worldSize c" "worldSize c < 2 ^ 31" "shuffles mix" "\<And>i. shuffles (mixrow i)" "list_all (\<lambda>x. x < worldSize c) draws"
    and paths: "findPaths mix mixrow draws (worldSize c) (rank c) = Inr (edges c, hops c)"
  shows "config_ok c"
proof -
  let ?n = "worldSize c" and ?r = "rank c" and ?R = "edge_set (edges c)"
  have good: "good_mesh ?n (edges c)" and routes: "routes ?n ?R ?r (hops c)"
    using findPaths_correct [of ?n ?r mix mixrow draws, OF _ assms(1,3,4,5)] assms(1) paths by auto
  note g = good_mesh_graph [OF good assms(1)]
  have row: "set (edges c ! ?r) = ?R `` {?r}" by (rule g(3) [OF assms(1)])
  have "e < ?n \<and> hops c ! e = e" if e: "e \<in> set (edges c ! ?r)" for e
  proof -
    have edge: "(?r, e) \<in> ?R" using e row by simp
    then have "e < ?n" "e \<noteq> ?r" using good mesh_ok_edge unfolding good_mesh_def by blast+
    then have hop: "(?r, hops c ! e) \<in> ?R" "dist ?R ?r e = Suc (dist ?R (hops c ! e) e)"
      using routes unfolding routes_def by blast+
    have "dist ?R ?r e \<le> 1" using edge by (intro dist_le) simp
    then have zero: "dist ?R (hops c ! e) e = 0" using hop(2) by simp
    have "(hops c ! e, e) \<in> ?R\<^sup>*"
      using good mesh_ok_edge [OF _ hop(1)] \<open>e < ?n\<close> unfolding good_mesh_def connected_def by blast
    then have "hops c ! e = e" by (rule dist_zero [OF _ zero])
    with \<open>e < ?n\<close> show ?thesis by simp
  qed
  moreover have "hops c ! d \<in> set (edges c ! ?r)" if "d < ?n" "d \<noteq> ?r" for d
    using routes that unfolding row routes_def by blast
  moreover have "length (edges c ! ?r) \<le> 4" using good assms(1) by (simp add: good_mesh_def)
  moreover have "\<forall>row \<in> set (edges c). \<forall>e \<in> set row. e < ?n"
    using good unfolding good_mesh_def mesh_ok_def by (metis in_set_conv_nth lessThan_iff subsetD)
  ultimately show ?thesis
    using assms(1,2) routes g(2,4,5) unfolding config_ok_def routes_def by simp
qed

text \<open>A rank that found its paths.\<close>

definition configured :: "config \<Rightarrow> bool" where
  "configured c \<longleftrightarrow> rank c < worldSize c \<and> worldSize c < 2 ^ 31 \<and>
     (\<exists>mix mixrow draws. shuffles mix \<and> (\<forall>i. shuffles (mixrow i)) \<and> list_all (\<lambda>x. x < worldSize c) draws \<and>
        findPaths mix mixrow draws (worldSize c) (rank c) = Inr (edges c, hops c))"

lemma configured_ok: "configured c \<Longrightarrow> config_ok c"
  unfolding configured_def using config_ok_findPaths by blast

section \<open>Depth\<close>

definition fuelled :: "handled \<Rightarrow> bool" where
  "fuelled r \<longleftrightarrow> (case r of Inl (e, s) \<Rightarrow> e \<noteq> OutOfFuel | Inr s \<Rightarrow> True)"

lemma fuelled_simps [simp]: "fuelled (Inr s)" "fuelled (Inl (e, s)) = (e \<noteq> OutOfFuel)"
  by (simp_all add: fuelled_def)

text \<open>The edges of a state never change.\<close>

definition peers_ok :: "config \<Rightarrow> store_state \<Rightarrow> bool" where
  "peers_ok c s \<longleftrightarrow> map fst (edgePeers s) = edges c ! rank c"

lemma peers_update_edge [simp]: "map fst (edgePeers (update_edge r f s)) = map fst (edgePeers s)"
  by (auto simp: update_edge_def)

lemma peers_primitives [simp]:
  "edgePeers (emit x s) = edgePeers s" "edgePeers (addCallback time cb s) = edgePeers s" "edgePeers (set_value key v s) = edgePeers s"
  "edgePeers (add_waiter key w s) = edgePeers s" "edgePeers (finish_wait i b v s) = edgePeers s"
  "edgePeers (update_shutdown r u s) = edgePeers s" "edgePeers (note_origin r s) = edgePeers s" "edgePeers (update_wait h g s) = edgePeers s"
  by (simp_all add: emit_def addCallback_def set_value_def add_waiter_def finish_wait_def update_wait_def update_shutdown_def note_origin_def
      split: option.split)

lemma peers_run: "leads (\<lambda>s t. map fst (edgePeers t) = map fst (edgePeers s)) s (run n c now x s)"
  using messages.run [of s n c now x] by (auto simp: leads_def messages_only_def intro: links_edges split: sum.splits)

lemma fuelled_andthen: "fuelled r \<Longrightarrow> (\<And>s. r = Inr s \<Longrightarrow> fuelled (f s)) \<Longrightarrow> fuelled (andthen r f)"
  by (cases r) auto

lemma fuelled_getEdge: "(\<And>e. findEdge s k = Some e \<Longrightarrow> fuelled (f e)) \<Longrightarrow> fuelled (getEdge k s f)"
  by (simp add: getEdge_def split: option.split)

lemma fuelled_first_hop: "(d < length (hops c) \<Longrightarrow> fuelled (f (hops c ! d))) \<Longrightarrow> fuelled (first_hop c d s f)"
  by (simp add: first_hop_def)

lemma deserialize_fuel: "narrow t \<Longrightarrow> deserializeBufferPart t data = Inl e \<Longrightarrow> e = EndOfData"
  using advances_deserialize(1) [of "\<lparr>dbase = data, doffset = 0\<rparr>" t False]
  by (auto simp: deserializeBufferPart_def bind_result_def advances_def valid_des_def split: sum.splits)

lemma fuelled_read_args: "narrow t \<Longrightarrow> (\<And>v. fuelled (k v)) \<Longrightarrow> fuelled (read_args t f s k)"
  by (auto simp: read_args_def dest: deserialize_fuel split: sum.split)

lemma fuelled_each:
  assumes "P s" "\<And>s x. P s \<Longrightarrow> x \<in> set xs \<Longrightarrow> fuelled (f s x)" "\<And>s x t. P s \<Longrightarrow> f s x = Inr t \<Longrightarrow> P t"
  shows "fuelled (each f s xs)"
  using assms(1,2)
proof (induction xs arbitrary: s)
  case (Cons x xs)
  have "fuelled (each f t xs)" if "f s x = Inr t" for t
    using Cons.prems(2) assms(3) [OF Cons.prems(1) that] by (intro Cons.IH) simp_all
  then show ?case using Cons.prems by (simp add: fuelled_andthen)
qed simp

lemma peers_ok_run: "peers_ok c s \<Longrightarrow> run n c now x s = Inr t \<Longrightarrow> peers_ok c t"
  using peers_run [of s n c now x] by (simp add: peers_ok_def)

lemma peers_ok_same: "peers_ok c (mark_sent k d s) = peers_ok c s" "peers_ok c (set_value key v s) = peers_ok c s"
  "peers_ok c (enter_exit c now s) = peers_ok c s" "peers_ok c (note_origin r s) = peers_ok c s" "peers_ok c (update_shutdown r u s) = peers_ok c s"
  "peers_ok c (add_pending k d f s) = peers_ok c s"
  using messages_only_exit [of s c now] by (simp_all add: peers_ok_def mark_sent_def add_pending_def messages_only_def links_edges [of "enter_exit c now s" s])

lemma findEdge_peer: "config_ok c \<Longrightarrow> peers_ok c s \<Longrightarrow> findEdge s k = Some e \<Longrightarrow> hops c ! k = k \<and> k \<noteq> rank c"
proof -
  assume ok: "config_ok c" "peers_ok c s" "findEdge s k = Some e"
  then have "k \<in> set (map fst (edgePeers s))" by (force simp: findEdge_def dest: map_of_SomeD)
  then have "k \<in> set (edges c ! rank c)" using ok(2) by (simp only: peers_ok_def)
  then show ?thesis using ok(1) unfolding config_ok_def by blast
qed

lemma hops_self: "config_ok c \<Longrightarrow> d < length (hops c) \<Longrightarrow> hops c ! d = rank c \<longleftrightarrow> d = rank c"
  unfolding config_ok_def by metis

text \<open>Once the source is marked, an edge is not told again.\<close>

definition marked :: "nat \<Rightarrow> nat \<Rightarrow> store_state \<Rightarrow> bool" where
  "marked k d s \<longleftrightarrow> (\<forall>e. findEdge s k = Some e \<longrightarrow> d \<in> set (e_sentDiagnosticSourceFor e))"

lemma marked_mark_sent: "marked k d (mark_sent k d s)"
  by (auto simp: marked_def mark_sent_def findEdge_update_edge)

lemma fuel_ensure_marked: "1 \<le> n \<Longrightarrow> marked k d s \<Longrightarrow> fuelled (run n c now (Ensure k d) s)"
  by (cases n) (auto simp: ensureDiagnosticSourceSent_def marked_def intro!: fuelled_getEdge)

lemma fuel_send_ensured: "fuelled (run n c now (Ensure k d) s) \<Longrightarrow> k \<noteq> rank c \<Longrightarrow> fuelled (run (Suc n) c now (Send k f d) s)"
  by (auto simp: sendMessage_def Let_def intro!: fuelled_andthen fuelled_getEdge split: list.split)

lemma fuel_send_marked: "2 \<le> n \<Longrightarrow> k \<noteq> rank c \<Longrightarrow> marked k d s \<Longrightarrow> fuelled (run n c now (Send k f d) s)"
  by (cases n) (auto intro!: fuel_send_ensured fuel_ensure_marked simp del: run.simps)

lemma fuel_send_to_remote:
  assumes "hops c ! dest \<noteq> rank c" "\<And>f. fuelled (run n c now (Send (hops c ! dest) f d) s)"
  shows "fuelled (run (Suc n) c now (SendTo dest i d type args) s)"
  using assms by (auto simp: sendMessageTo_def Let_def intro!: fuelled_first_hop fuelled_getEdge)

lemma fuel_ensure: "config_ok c \<Longrightarrow> peers_ok c s \<Longrightarrow> 4 \<le> n \<Longrightarrow> fuelled (run n c now (Ensure k d) s)"
proof -
  assume ok: "config_ok c" "peers_ok c s" "4 \<le> n"
  then obtain m where n: "n = Suc (Suc m)" "2 \<le> m" by (cases n; cases "n - 1") auto
  have "fuelled (run (Suc m) c now (SendTo k 0 d messageDiagnosticSource args) (mark_sent k d s))"
    if "findEdge s k = Some e" for e args
    using findEdge_peer [OF ok(1,2) that] n(2)
    by (intro fuel_send_to_remote fuel_send_marked) (simp_all add: marked_mark_sent)
  then show ?thesis
    unfolding n by (auto simp: run.simps(2) [of "Suc m"] ensureDiagnosticSourceSent_def Let_def intro!: fuelled_getEdge simp del: run.simps)
qed

lemma fuel_send: "config_ok c \<Longrightarrow> peers_ok c s \<Longrightarrow> 5 \<le> n \<Longrightarrow> k \<noteq> rank c \<Longrightarrow> fuelled (run n c now (Send k f d) s)"
  by (cases n) (auto intro!: fuel_send_ensured fuel_ensure simp del: run.simps)

lemma fuel_peer: "config_ok c \<Longrightarrow> peers_ok c s \<Longrightarrow> k \<in> set (map fst (edgePeers s)) \<Longrightarrow> k \<noteq> rank c"
  unfolding peers_ok_def config_ok_def by metis

lemma fuel_broadcast: "config_ok c \<Longrightarrow> peers_ok c s \<Longrightarrow> 6 \<le> n \<Longrightarrow> fuelled (run n c now (Broadcast type args) s)"
proof -
  assume ok: "config_ok c" "peers_ok c s" "6 \<le> n"
  then obtain m where n: "n = Suc m" "5 \<le> m" by (cases n) auto
  have "fuelled (broadcastMessage (run m c now) c type args s)"
    unfolding broadcastMessage_def
    by (rule fuelled_each [where P = "peers_ok c"])
      (use fuel_send [OF ok(1) _ n(2)] fuel_peer [OF ok(1,2)] ok(2) peers_ok_run in blast)+
  then show ?thesis by (simp add: n)
qed

lemma fuel_forward: "config_ok c \<Longrightarrow> peers_ok c s \<Longrightarrow> 6 \<le> n \<Longrightarrow> fuelled (run n c now (Forward d f sender) s)"
proof -
  assume ok: "config_ok c" "peers_ok c s" "6 \<le> n"
  then obtain m where n: "n = Suc m" "5 \<le> m" by (cases n) auto
  have send: "fuelled (run m c now (Send k g (rank c)) t)" if "peers_ok c t" "findEdge t k = Some e" for k g t e
    using fuel_send [OF ok(1) that(1) n(2)] findEdge_peer [OF ok(1) that] by blast
  have "fuelled (forward_to (run m c now) c d f sender t k)" if "peers_ok c t" for t k
    unfolding forward_to_def Let_def using send [OF that] by (auto intro!: fuelled_getEdge)
  moreover have "peers_ok c u" if "forward_to (run m c now) c d f sender t k = Inr u" "peers_ok c t" for t u k
    using that by (auto simp: forward_to_def Let_def getEdge_def peers_ok_same dest: peers_ok_run split: if_splits option.splits)
  ultimately have "fuelled (forwardBroadcast (run m c now) c d f sender s)"
    unfolding forwardBroadcast_def using ok(2) by (auto intro!: fuelled_each [where P = "peers_ok c"])
  then show ?thesis by (simp add: n)
qed

lemma fuel_done: "1 \<le> n \<Longrightarrow> h_destinationRank (header f) = rank c \<Longrightarrow> \<not> h_broadcast (header f) \<Longrightarrow> h_messageType (header f) = messageDone \<Longrightarrow>
    fuelled (run n c now (Process (Inr f) k) s)"
  by (cases n) (auto simp: processMessage_def dispatch_def handle_done_def messageDone_def messageSet_def intro!: fuelled_read_args)

lemma fuel_send_done: "config_ok c \<Longrightarrow> peers_ok c s \<Longrightarrow> 6 \<le> n \<Longrightarrow> fuelled (run n c now (SendTo dest i d messageDone args) s)"
proof -
  assume ok: "config_ok c" "peers_ok c s" "6 \<le> n"
  then obtain m where n: "n = Suc m" "5 \<le> m" by (cases n) auto
  have "fuelled (run m c now (Process (Inr (make_frame c (rank c) i d messageDone False args)) k) s)" for k
    using n(2) by (intro fuel_done) (simp_all add: make_frame_def)
  then have "fuelled (sendMessageTo (run m c now) c dest i d messageDone args s)"
    unfolding sendMessageTo_def Let_def using fuel_send [OF ok(1,2) n(2)] hops_self [OF ok(1)]
    by (auto intro!: fuelled_first_hop fuelled_getEdge)
  then show ?thesis by (simp add: n)
qed

lemma fuel_answers:
  assumes ok: "config_ok c" "peers_ok c s" "6 \<le> n"
  shows "fuelled (handle_set (run n c now) f s)" "fuelled (handle_get (run n c now) f s)" "fuelled (handle_check (run n c now) f s)"
proof -
  note finished = fuel_send_done [OF ok(1) _ ok(3)]
  have kept: "peers_ok c t" if "each (answer (run n c now) v) u ws = Inr t" "peers_ok c u" for v t u ws
    using that by (induction ws arbitrary: u) (auto simp: answer_def andthen_def dest: peers_ok_run split: sum.splits)
  have "fuelled (each (answer (run n c now) v) (set_value key v s) ws)" for key v ws
    by (rule fuelled_each [where P = "peers_ok c"]) (auto simp: ok(2) peers_ok_same answer_def intro: finished dest: peers_ok_run)
  moreover have "peers_ok c t" if "each (answer (run n c now) v) (set_value key v s) ws = Inr t" for key v t ws
    using kept [OF that] ok(2) by (simp add: peers_ok_same)
  ultimately show "fuelled (handle_set (run n c now) f s)"
    unfolding handle_set_def internalStoreSetValue_def
    by (intro fuelled_read_args fuelled_andthen finished) auto
  show "fuelled (handle_get (run n c now) f s)"
    unfolding handle_get_def internalStoreGetValue_def answer_def
    by (intro fuelled_read_args) (auto intro: finished ok(2) split: option.split)
  show "fuelled (handle_check (run n c now) f s)"
    unfolding handle_check_def by (intro fuelled_read_args finished ok(2)) simp
qed

lemma fuel_dispatch:
  assumes ok: "config_ok c" "peers_ok c s" "6 \<le> n"
  shows "fuelled (dispatch (run n c now) c now f s)"
proof -
  have "fuelled (handle_exit (run n c now) c now f s)"
    unfolding handle_exit_def Let_def
    by (intro fuelled_read_args) (auto intro!: fuel_broadcast [OF ok(1) _ ok(3)] simp: peers_ok_same ok(2))
  moreover have "fuelled (handle_done f s)" "fuelled (handle_shutdown f s)" "fuelled (handle_exit_ack f s)"
    "fuelled (handle_diagnostic_source c now f s)"
    by (auto simp: handle_done_def handle_shutdown_def handle_exit_ack_def handle_diagnostic_source_def Let_def intro!: fuelled_read_args)
  ultimately show ?thesis
    unfolding dispatch_def Let_def using fuel_answers [OF ok] by simp
qed

lemma fuel_process:
  assumes ok: "config_ok c" "peers_ok c s" "7 \<le> n" and data: "\<And>e. data = Inl e \<Longrightarrow> e \<noteq> OutOfFuel"
  shows "fuelled (run n c now (Process data k) s)"
proof (cases data)
  case (Inr f)
  obtain m where n: "n = Suc m" "6 \<le> m" using ok(3) by (cases n) auto
  have "fuelled (getEdge e s (\<lambda>_. run m c now (Send e g d) s))" for e g d
    using findEdge_peer [OF ok(1,2)] n(2) by (intro fuelled_getEdge fuel_send [OF ok(1,2)]) auto
  then have "fuelled (forward_message (run m c now) c f s)"
    unfolding forward_message_def Let_def by (auto intro!: fuelled_first_hop)
  moreover have "fuelled (andthen (if b then run m c now (Forward d f k) s else Inr s) (dispatch (run m c now) c now f))" for b d
    using fuel_forward [OF ok(1,2) n(2)] fuel_dispatch [OF ok(1) _ n(2)] ok(2)
    by (auto intro!: fuelled_andthen dest: peers_ok_run)
  ultimately show ?thesis by (simp add: n(1) processMessage_def Inr)
qed (cases n, use ok data in \<open>auto simp: processMessage_def\<close>)

lemma fuel_exec:
  assumes ok: "config_ok c" "peers_ok c s" and data: "\<And>e k. x = Process (Inl e) k \<Longrightarrow> e \<noteq> OutOfFuel"
  shows "fuelled (exec c now x s)"
proof -
  have local: "fuelled (run 7 c now (Process (Inr f) k) s)" for f k
    by (rule fuel_process [OF ok]) simp_all
  have depth: "depth = Suc 7" by (simp add: depth_def)
  show ?thesis
  proof (cases x)
    case (Process data k)
    then show ?thesis
      unfolding exec_def using assms(3) by (intro fuel_process [OF ok] | simp add: depth_def)+
  next
    case (Send k f d)
    show ?thesis
    proof (cases "k = rank c")
      case True
      then show ?thesis using local unfolding exec_def depth run.simps by (simp add: Send sendMessage_def)
    next
      case False
      then show ?thesis using fuel_send [OF ok, of depth k] by (simp add: exec_def Send depth_def)
    qed
  next
    case (SendTo dest i d type args)
    have "fuelled (sendMessageTo (run 7 c now) c dest i d type args s)"
      unfolding sendMessageTo_def Let_def using fuel_send [OF ok, of 7] local
      by (auto intro!: fuelled_first_hop fuelled_getEdge)
    then show ?thesis unfolding exec_def depth run.simps by (simp add: SendTo)
  qed (use fuel_ensure [OF ok] fuel_forward [OF ok] fuel_broadcast [OF ok] in \<open>simp_all add: exec_def depth_def\<close>)
qed

end
