(* ===== verification/Store_Wf.thy ===== *)
theory Store_Wf
  imports Store_Fuel
begin

text \<open>
  The shape of a rank's state: tables of the right length, the edges of the mesh, connections that
  exist and belong to an edge, at most one connection per edge, callbacks that refer to something. It holds
  from the construction on, and in such a state the timers never fail.
\<close>

section \<open>Well-formed states\<close>

definition cb_ok :: "config \<Rightarrow> store_state \<Rightarrow> callback \<Rightarrow> bool" where
  "cb_ok c s cb \<longleftrightarrow> (case cb of
       CRead i data \<Rightarrow> i < length (conns s)
     | CLost i msg \<Rightarrow> i < length (conns s)
     | CConnectTo a k uid \<Rightarrow> k \<in> set (edges c ! rank c)
     | CConnectEdge k \<Rightarrow> k \<in> set (edges c ! rank c)
     | CSendAddresses r k \<Rightarrow> r < worldSize c \<and> k < worldSize c \<and> rankInfos s ! r \<noteq> None
     | _ \<Rightarrow> True)"

definition tcps :: "store_state \<Rightarrow> nat list list" where
  "tcps s = map (e_tcpconnections \<circ> snd) (edgePeers s)"

definition one_conn :: "connection_info list \<Rightarrow> nat list \<Rightarrow> bool" where
  "one_conn cs js \<longleftrightarrow> length js \<le> 1 \<and> (\<forall>i \<in> set js. i < length cs \<and> c_sourceRank (cs ! i) \<noteq> None)"

definition conns_ok :: "config \<Rightarrow> store_state \<Rightarrow> bool" where
  "conns_ok c s \<longleftrightarrow>
     (\<forall>x \<in> set (conns s). \<forall>r. c_sourceRank x = Some r \<longrightarrow> r \<in> set (edges c ! rank c)) \<and>
     (\<forall>i \<in> set (floatingConnections s). i < length (conns s)) \<and>
     (\<forall>js \<in> set (tcps s). one_conn (conns s) js)"

definition wf_state :: "config \<Rightarrow> store_state \<Rightarrow> bool" where
  "wf_state c s \<longleftrightarrow> peers_ok c s \<and> length (rankInfos s) = worldSize c \<and> length (shutdownStates s) = worldSize c \<and> conns_ok c s \<and>
     (\<forall>p \<in> set (callbacks s) \<union> set (queuedCallbacks s). cb_ok c s (snd p)) \<and>
     (closeState s \<noteq> NotStarted \<longrightarrow> exitSourceRank s \<noteq> None)"

lemma cb_ok_mono:
  "cb_ok c s cb \<Longrightarrow> length (conns s) \<le> length (conns t) \<Longrightarrow> (\<And>r. r < worldSize c \<Longrightarrow> rankInfos s ! r \<noteq> None \<Longrightarrow> rankInfos t ! r \<noteq> None) \<Longrightarrow>
    cb_ok c t cb"
  by (cases cb) (auto simp: cb_ok_def)

lemma cb_ok_cong: "conns t = conns s \<Longrightarrow> rankInfos t = rankInfos s \<Longrightarrow> cb_ok c t = cb_ok c s"
  by (intro ext) (simp add: cb_ok_def split: callback.split)

text \<open>It depends on a part of the state only.\<close>

lemma wf_messages: "wf_state c s \<Longrightarrow> messages_only s t \<Longrightarrow> wf_state c t"
proof -
  assume wf: "wf_state c s" and m: "messages_only s t"
  then have links: "links t = links s" and same: "static t = static s" by (simp_all add: messages_only_def)
  have "tcps u = map (e_tcpconnections \<circ> snd) (links u)" for u
    by (auto simp: tcps_def links_def link_view_def)
  then have "tcps t = tcps s" using links by simp
  then have "conns_ok c t"
    using wf same by (simp add: wf_state_def conns_ok_def static_def)
  moreover have cb: "cb_ok c t cb" if "cb_ok c s cb" for cb
    using that same by (rule_tac cb_ok_mono) (simp_all add: static_def)
  moreover obtain hs where hs: "queuedCallbacks t = queuedCallbacks s @ hs" "\<forall>h \<in> set hs. \<exists>d. snd h = CTryHello d"
    using m unfolding messages_only_def hellos_def by blast
  moreover have "\<forall>h \<in> set hs. cb_ok c t (snd h)"
    using hs(2) by (auto simp: cb_ok_def)
  moreover have "callbacks t = callbacks s" using same by (simp add: static_def)
  ultimately have "\<forall>p \<in> set (callbacks t) \<union> set (queuedCallbacks t). cb_ok c t (snd p)" "conns_ok c t"
    using wf by (auto simp: wf_state_def)
  then show ?thesis
    using wf same m links_edges [OF links] by (auto simp: wf_state_def static_def peers_ok_def messages_only_def)
qed

abbreviation keeps_wf :: "config \<Rightarrow> store_state \<Rightarrow> store_state \<Rightarrow> bool" where
  "keeps_wf c s t \<equiv> wf_state c s \<longrightarrow> wf_state c t"

interpretation wf: message_relation keeps_wf
  by unfold_locales (auto intro: wf_messages messages.emit messages.hello messages.queue messages.sent messages.pending
      messages.set_value messages.waiter messages.finish messages.shutdown messages.origin messages.exit messages.sources messages.received)

section \<open>Updates outside the messages\<close>

definition wf_part :: "store_state \<Rightarrow> nat list \<times> nat list list \<times> connection_info list \<times> nat list \<times> rank_info option list \<times> nat \<times>
    (nat \<times> callback) list \<times> (nat \<times> callback) list \<times> close_state \<times> nat option" where
  "wf_part s = (map fst (edgePeers s), tcps s, conns s, floatingConnections s, rankInfos s, length (shutdownStates s), callbacks s,
     queuedCallbacks s, closeState s, exitSourceRank s)"

lemma wf_part_wf: "wf_part t = wf_part s \<Longrightarrow> wf_state c s \<Longrightarrow> wf_state c t"
  using cb_ok_cong [of t s c] by (simp add: wf_state_def wf_part_def peers_ok_def conns_ok_def)

named_theorems wf_part_simps

lemma wf_part_updates [wf_part_simps]:
  "wf_part (s\<lparr>closed := b\<rparr>) = wf_part s" "wf_part (s\<lparr>anyQueued := b\<rparr>) = wf_part s" "wf_part (s\<lparr>connectAcked := b\<rparr>) = wf_part s"
  "wf_part (s\<lparr>connectCounter := n\<rparr>) = wf_part s" "wf_part (s\<lparr>unackedAddresses := as\<rparr>) = wf_part s" "wf_part (s\<lparr>shuttingDown := b\<rparr>) = wf_part s"
  "wf_part (s\<lparr>shutdownDeadline := n\<rparr>) = wf_part s" "wf_part (s\<lparr>shutdownBackoff := n\<rparr>) = wf_part s"
  "wf_part (s\<lparr>diagnosticSources := ds\<rparr>) = wf_part s" "wf_part (s\<lparr>receivedDiagnostics := rs\<rparr>) = wf_part s"
  "wf_part (s\<lparr>prevConnectTime := n\<rparr>) = wf_part s" "wf_part (s\<lparr>outs := os\<rparr>) = wf_part s" "wf_part (s\<lparr>nextId := n\<rparr>) = wf_part s"
  "wf_part (s\<lparr>waits := ws\<rparr>) = wf_part s" "wf_part (s\<lparr>wait_objects := os'\<rparr>) = wf_part s"
  by (simp_all add: wf_part_def tcps_def)

lemma wf_part_primitives [wf_part_simps]:
  "wf_part (emit x s) = wf_part s" "wf_part (write_conn i m s) = wf_part s" "wf_part (exitWait c h s) = wf_part s"
  "wf_part (sendDiagnosticInfo c now d k kind why s) = wf_part s" "wf_part (add_diagnostic now r st kd tx s) = wf_part s"
  "wf_part (try_port p s) = wf_part s" "wf_part (send_udp_connect c a s) = wf_part s"
  by (simp_all add: emit_def write_conn_def exitWait_def update_wait_def sendDiagnosticInfo_def add_diagnostic_def try_port_def
      send_udp_connect_def Let_def wf_part_updates split: option.split list.split)

lemma wf_part_lists [wf_part_simps]:
  "wf_part (tell_sources c now k kind why ds s) = wf_part s" "wf_part (resend_queue i e s) = wf_part s"
  "wf_part (checkStuckMessages c now s) = wf_part s"
  by (auto simp: tell_sources_def resend_queue_def checkStuckMessages_def check_message_def wf_part_simps
      intro!: fold_same [where g = wf_part] split: prod.split)

lemma wf_part_edge: "(\<And>e. e_tcpconnections (f e) = e_tcpconnections e) \<Longrightarrow> wf_part (update_edge k f s) = wf_part s"
  by (auto simp: wf_part_def tcps_def update_edge_def)

lemma wf_part_edges [wf_part_simps]:
  "wf_part (advance k s) = wf_part s" "wf_part (sort_queue k s) = wf_part s" "wf_part (pop_incoming k s) = wf_part s"
  by (simp_all add: advance_def sort_queue_def pop_incoming_def wf_part_edge)

lemma wf_addCallback: "wf_state c s \<Longrightarrow> cb_ok c s cb \<Longrightarrow> wf_state c (addCallback time cb s)"
proof -
  assume wf: "wf_state c s" and cb: "cb_ok c s cb"
  have "cb_ok c (addCallback time cb s) x = cb_ok c s x" for x
    by (simp add: cb_ok_def addCallback_def split: callback.splits)
  with wf cb show ?thesis
    by (auto simp: wf_state_def peers_ok_def conns_ok_def tcps_def addCallback_def)
qed

text \<open>The callbacks that need nothing.\<close>

lemma cb_ok_simps [simp]:
  "cb_ok c s CConnect" "cb_ok c s (CTryPort p)" "cb_ok c s (CUdpBurst a)" "cb_ok c s (CUdpConnect a)" "cb_ok c s CKeepalive"
  "cb_ok c s (CTryHello d)" "cb_ok c s CClose" "cb_ok c s (CRead i data) = (i < length (conns s))" "cb_ok c s (CLost i msg) = (i < length (conns s))"
  "cb_ok c s (CConnectTo a k uid) = (k \<in> set (edges c ! rank c))" "cb_ok c s (CConnectEdge k) = (k \<in> set (edges c ! rank c))"
  "cb_ok c s (CSendAddresses r k) = (r < worldSize c \<and> k < worldSize c \<and> rankInfos s ! r \<noteq> None)"
  by (simp_all add: cb_ok_def)

lemma one_conn_mono:
  "one_conn cs js \<Longrightarrow> length cs \<le> length cs' \<Longrightarrow> (\<And>i. i < length cs \<Longrightarrow> c_sourceRank (cs ! i) \<noteq> None \<Longrightarrow> c_sourceRank (cs' ! i) \<noteq> None) \<Longrightarrow>
    one_conn cs' js"
  unfolding one_conn_def by (meson order_less_le_trans)

lemma wf_conns:
  assumes "wf_state c s" "length (conns s) \<le> length cs"
    and "\<And>i. i < length (conns s) \<Longrightarrow> c_sourceRank (conns s ! i) \<noteq> None \<Longrightarrow> c_sourceRank (cs ! i) \<noteq> None"
    and "\<And>i r. i < length cs \<Longrightarrow> c_sourceRank (cs ! i) = Some r \<Longrightarrow> r \<in> set (edges c ! rank c)"
  shows "wf_state c (s\<lparr>conns := cs\<rparr>)"
proof -
  have "one_conn cs js" if "one_conn (conns s) js" for js
    using that assms(2,3) by (rule one_conn_mono)
  moreover have "\<forall>x \<in> set cs. \<forall>r. c_sourceRank x = Some r \<longrightarrow> r \<in> set (edges c ! rank c)"
    using assms(4) by (auto simp: in_set_conv_nth)
  moreover have "cb_ok c (s\<lparr>conns := cs\<rparr>) cb" if "cb_ok c s cb" for cb
    using that assms(2) by (rule_tac cb_ok_mono) simp_all
  ultimately show ?thesis
    using assms(1,2) by (auto simp: wf_state_def peers_ok_def conns_ok_def tcps_def)
qed

lemma wf_conn_edges: "wf_state c s \<Longrightarrow> i < length (conns s) \<Longrightarrow> c_sourceRank (conns s ! i) = Some r \<Longrightarrow> r \<in> set (edges c ! rank c)"
  unfolding wf_state_def conns_ok_def by (meson nth_mem)

lemma wf_update_conn: "wf_state c s \<Longrightarrow> (\<And>x. c_sourceRank (h x) = c_sourceRank x) \<Longrightarrow> wf_state c (update_conn i h s)"
proof -
  assume wf: "wf_state c s" and h: "\<And>x. c_sourceRank (h x) = c_sourceRank x"
  have "c_sourceRank ((conns s)[i := h (conns s ! i)] ! j) = c_sourceRank (conns s ! j)" for j
    by (cases "i < length (conns s)") (simp_all add: nth_list_update h list_update_beyond)
  then show ?thesis
    unfolding update_conn_def using wf wf_conn_edges [OF wf] by (intro wf_conns) simp_all
qed

lemma wf_close_conn: "wf_state c s \<Longrightarrow> wf_state c (close_conn i s)"
  unfolding close_conn_def by (rule wf_update_conn) simp_all

lemma length_close_conn [simp]: "length (conns (close_conn i s)) = length (conns s)"
  by (simp add: close_conn_def update_conn_def)

lemma wf_touch: "wf_state c s \<Longrightarrow> wf_state c (touch now i s)"
  unfolding touch_def by (rule wf_update_conn) simp_all

lemma one_conn_edge: "wf_state c s \<Longrightarrow> (k, e) \<in> set (edgePeers s) \<Longrightarrow> one_conn (conns s) (e_tcpconnections e)"
  unfolding wf_state_def conns_ok_def tcps_def by force

lemma wf_edgePeers:
  assumes "wf_state c s" "map fst es = map fst (edgePeers s)" "\<And>k e. (k, e) \<in> set es \<Longrightarrow> one_conn (conns s) (e_tcpconnections e)"
  shows "wf_state c (s\<lparr>edgePeers := es\<rparr>)"
proof -
  have "cb_ok c (s\<lparr>edgePeers := es\<rparr>) = cb_ok c s" by (rule cb_ok_cong) simp_all
  moreover have "\<forall>js \<in> set (tcps (s\<lparr>edgePeers := es\<rparr>)). one_conn (conns s) js"
    using assms(3) by (auto simp: tcps_def)
  ultimately show ?thesis
    using assms(1,2) unfolding wf_state_def peers_ok_def conns_ok_def by simp
qed

lemma wf_update_edge:
  assumes "wf_state c s" "\<And>e. set (e_tcpconnections (f e)) \<subseteq> set (e_tcpconnections e)" "\<And>e. length (e_tcpconnections (f e)) \<le> length (e_tcpconnections e)"
  shows "wf_state c (update_edge k f s)"
proof -
  have "one_conn (conns s) (e_tcpconnections (f e))" if "one_conn (conns s) (e_tcpconnections e)" for e
    using that assms(2,3) [of e] by (auto simp: one_conn_def)
  then show ?thesis
    unfolding update_edge_def using one_conn_edge [OF assms(1)] by (intro wf_edgePeers [OF assms(1)]) auto
qed

lemma wf_reap: "wf_state c s \<Longrightarrow> wf_state c (reaptcpconnections k s)"
  unfolding reaptcpconnections_def by (rule wf_update_edge) auto

lemma wf_floating: "wf_state c s \<Longrightarrow> (\<And>i. i \<in> set js \<Longrightarrow> i < length (conns s)) \<Longrightarrow> wf_state c (s\<lparr>floatingConnections := js\<rparr>)"
  using cb_ok_cong [of "s\<lparr>floatingConnections := js\<rparr>" s c] by (simp add: wf_state_def peers_ok_def conns_ok_def tcps_def)

lemma wf_new_conn:
  assumes "wf_state c s" "c_sourceRank x = None"
  shows "wf_state c (s\<lparr>conns := conns s @ [x], floatingConnections := floatingConnections s @ [length (conns s)]\<rparr>)"
proof -
  have "wf_state c (s\<lparr>conns := conns s @ [x]\<rparr>)"
    using assms wf_conn_edges [OF assms(1)] by (intro wf_conns) (auto simp: nth_append split: if_splits)
  moreover have "i < length (conns s @ [x])" if "i \<in> set (floatingConnections s @ [length (conns s)])" for i
    using that assms(1) by (auto simp: wf_state_def conns_ok_def)
  ultimately have "wf_state c ((s\<lparr>conns := conns s @ [x]\<rparr>)\<lparr>floatingConnections := floatingConnections s @ [length (conns s)]\<rparr>)"
    by (intro wf_floating) simp_all
  then show ?thesis by simp
qed

lemma wf_rank_info:
  assumes "wf_state c s"
  shows "wf_state c (s\<lparr>rankInfos := (rankInfos s)[r := Some x]\<rparr>)"
proof -
  have "cb_ok c (s\<lparr>rankInfos := (rankInfos s)[r := Some x]\<rparr>) cb" if "cb_ok c s cb" for cb
  proof (rule cb_ok_mono [OF that])
    fix q assume "rankInfos s ! q \<noteq> None"
    then show "rankInfos (s\<lparr>rankInfos := (rankInfos s)[r := Some x]\<rparr>) ! q \<noteq> None"
      by (cases "r < length (rankInfos s)") (simp_all add: nth_list_update list_update_beyond)
  qed simp
  then show ?thesis using assms by (auto simp: wf_state_def peers_ok_def conns_ok_def tcps_def)
qed

lemma wf_callbacks:
  assumes "wf_state c s" "set cbs \<subseteq> set (callbacks s) \<union> set (queuedCallbacks s)" "set qs \<subseteq> set (callbacks s) \<union> set (queuedCallbacks s)"
  shows "wf_state c (s\<lparr>callbacks := cbs, queuedCallbacks := qs\<rparr>)"
proof -
  have "cb_ok c (s\<lparr>callbacks := cbs, queuedCallbacks := qs\<rparr>) = cb_ok c s" by (rule cb_ok_cong) simp_all
  then show ?thesis using assms by (auto simp: wf_state_def peers_ok_def conns_ok_def tcps_def)
qed

lemma wf_close_state: "wf_state c s \<Longrightarrow> exitSourceRank s \<noteq> None \<Longrightarrow> wf_state c (s\<lparr>closeState := st\<rparr>)"
  using cb_ok_cong [of "s\<lparr>closeState := st\<rparr>" s c] by (simp add: wf_state_def peers_ok_def conns_ok_def tcps_def)

lemma wf_findEdge: "wf_state c s \<Longrightarrow> findEdge s k = Some e \<Longrightarrow> k \<in> set (edges c ! rank c) \<and> one_conn (conns s) (e_tcpconnections e)"
proof -
  assume wf: "wf_state c s" and e: "findEdge s k = Some e"
  then have in_peers: "(k, e) \<in> set (edgePeers s)" by (simp add: findEdge_def map_of_SomeD)
  then have "k \<in> set (map fst (edgePeers s))" "e_tcpconnections e \<in> set (tcps s)" by (force simp: tcps_def)+
  then show ?thesis using wf unfolding wf_state_def peers_ok_def conns_ok_def by metis
qed

lemma wf_edge_exists: "wf_state c s \<Longrightarrow> k \<in> set (edges c ! rank c) \<Longrightarrow> \<exists>e. findEdge s k = Some e"
proof -
  assume wf: "wf_state c s" and k: "k \<in> set (edges c ! rank c)"
  then have "k \<in> set (map fst (edgePeers s))" by (simp only: wf_state_def peers_ok_def)
  then show ?thesis unfolding findEdge_def by (metis image_set map_of_eq_None_iff not_Some_eq)
qed

lemma wf_assign:
  assumes wf: "wf_state c s" and "i < length (conns s)" "tc_sourceRank m \<in> set (edges c ! rank c)"
    and e: "\<And>e. findEdge s (tc_sourceRank m) = Some e \<Longrightarrow> e_tcpconnections e = []" and "distinct (edges c ! rank c)"
  shows "wf_state c (assign_conn now i m s)"
proof -
  let ?k = "tc_sourceRank m"
  define t where "t = update_conn i (\<lambda>x. x\<lparr>c_sourceRank := Some ?k, c_lastReceive := now\<rparr>) s"
  have wf_t: "wf_state c t"
    unfolding t_def update_conn_def using wf wf_conn_edges [OF wf] assms(2,3)
    by (intro wf_conns) (auto simp: nth_list_update split: if_splits)
  have new: "one_conn (conns t) [i]" using assms(2) by (simp add: one_conn_def t_def update_conn_def)
  have keys: "map fst (edgePeers t) = edges c ! rank c" using wf_t by (simp add: wf_state_def peers_ok_def)
  have empty: "e_tcpconnections e = []" if "(?k, e) \<in> set (edgePeers t)" for e
  proof -
    have "findEdge t ?k = Some e" using that keys assms(5) by (simp add: findEdge_def map_of_eq_Some_iff)
    then show ?thesis using e by (simp add: findEdge_def t_def update_conn_def)
  qed
  define g :: "edge_info \<Rightarrow> edge_info" where "g = (\<lambda>e. e\<lparr>e_tcpconnections := e_tcpconnections e @ [i], e_everConnected := True,
    e_broadcastForwardFor := fold set_add (tc_broadcastForwardRanks m) (e_broadcastForwardFor e)\<rparr>)"
  have g: "e_tcpconnections (g e) = e_tcpconnections e @ [i]" for e by (simp add: g_def)
  have "wf_state c (update_edge ?k g t)"
    unfolding update_edge_def using one_conn_edge [OF wf_t] new empty by (intro wf_edgePeers [OF wf_t]) (auto simp: g)
  then show ?thesis by (simp add: assign_conn_def t_def g_def)
qed

section \<open>Handlers\<close>

lemma assume_wf: "(wf_state c s \<Longrightarrow> leads (keeps_wf c) s r) \<Longrightarrow> leads (keeps_wf c) s r"
  by (cases "wf_state c s"; cases r) auto

lemma leads_wf: "(wf_state c s \<Longrightarrow> wf_state c t) \<Longrightarrow> leads (keeps_wf c) t r \<Longrightarrow> leads (keeps_wf c) s r"
  by (cases r) auto

lemma wf_frame: "wf_part t = wf_part s \<Longrightarrow> keeps_wf c s t"
  using wf_part_wf by blast

lemma wf_schedule_connects: "wf_state c s \<Longrightarrow> k \<in> set (edges c ! rank c) \<Longrightarrow> wf_state c (schedule_connects c now k net uid as n s)"
  by (induction as arbitrary: n s) (auto simp: wf_addCallback)

lemma wf_schedule_ports: "wf_state c s \<Longrightarrow> wf_state c (schedule_ports now ps s)"
  by (induction ps arbitrary: s) (simp_all add: wf_addCallback)

lemma wf_udp_burst: "wf_state c s \<Longrightarrow> wf_state c (udp_burst now a m s)"
  by (induction m arbitrary: s) (simp_all add: Let_def wf_addCallback wf_part_wf [OF wf_part_updates(11)])

lemma wf_connect: "wf_state c s \<Longrightarrow> wf_state c (connect c now s)"
  unfolding connect_def Let_def
  by (auto intro!: wf_addCallback wf_part_wf [OF wf_part_updates(4)] wf_schedule_ports wf_part_wf [OF wf_part_primitives(6)])

lemma wf_addConnection: "leads (keeps_wf c) s (addConnection now s)"
  by (simp add: addConnection_def wf_new_conn)

lemma wf_connectEdge: "leads (keeps_wf c) s (connectEdge c now k s)"
proof -
  have "leads (keeps_wf c) s (getEdge k t (\<lambda>e. if b e then Inr t else if b' e then Inr t
      else Inr (schedule_connects c now k (net e) (uid e) (as e) 0 (update_edge k (\<lambda>e. e\<lparr>e_lastConnectEdge := now\<rparr>) t))))"
    if "t = reaptcpconnections k s" for t b b' net uid as
  proof (rule leads_wf [OF _ wf.getEdge])
    show "wf_state c s \<Longrightarrow> wf_state c t" using that by (simp add: wf_reap)
  next
    fix e assume "findEdge t k = Some e"
    then have "wf_state c t \<Longrightarrow> k \<in> set (edges c ! rank c)" using wf_findEdge by blast
    then show "leads (keeps_wf c) t (if b e then Inr t else if b' e then Inr t
      else Inr (schedule_connects c now k (net e) (uid e) (as e) 0 (update_edge k (\<lambda>e. e\<lparr>e_lastConnectEdge := now\<rparr>) t)))"
      by (simp add: wf_schedule_connects wf_part_wf [OF wf_part_edge])
  qed
  then show ?thesis
    unfolding connectEdge_def Let_def by (auto intro!: wf.getEdge)
qed

lemma wf_connect_to: "leads (keeps_wf c) s (connect_to c now a k uid s)"
proof -
  have "leads (keeps_wf c) s (addConnection now t)" if "wf_part t = wf_part s" for t
    using that by (intro leads_wf [OF _ wf_addConnection]) (rule wf_part_wf)
  then show ?thesis
    unfolding connect_to_def Let_def by (auto intro!: wf.getEdge simp: wf_part_simps)
qed

lemma wf_sendAddresses: "source < worldSize c \<Longrightarrow> k < worldSize c \<Longrightarrow> leads (keeps_wf c) s (sendAddresses c now failed source k s)"
proof -
  assume "source < worldSize c" "k < worldSize c"
  then have "wf_state c s \<Longrightarrow> rankInfos s ! source \<noteq> None \<Longrightarrow> wf_state c (addCallback time (CSendAddresses source k) (emit x s))" for time x
    by (intro wf_addCallback wf_part_wf [OF wf_part_primitives(1)]) (simp_all add: emit_def)
  then show ?thesis
    unfolding sendAddresses_def Let_def by (simp split: option.split)
qed

lemma wf_connection_lost: "i < length (conns s) \<Longrightarrow> leads (keeps_wf c) s (connection_lost c now i msg s)"
proof (rule assume_wf)
  assume i: "i < length (conns s)" and wf: "wf_state c s"
  have "leads (keeps_wf c) s (getEdge r t (\<lambda>e. let u = tell_sources c now r kd why (ds e) t
      in Inr (if b e then addCallback time (CConnectEdge r) u else u)))"
    if "c_sourceRank (conns s ! i) = Some r" "t = reaptcpconnections r s" for r t kd why ds b time
  proof (rule leads_wf [OF _ wf.getEdge])
    show "wf_state c t" if "wf_state c s" using that \<open>t = _\<close> by (simp add: wf_reap)
  next
    fix e
    have "wf_state c t \<Longrightarrow> wf_state c (tell_sources c now r kd why (ds e) t)" by (rule wf_part_wf [OF wf_part_lists(1)])
    then show "leads (keeps_wf c) t (let u = tell_sources c now r kd why (ds e) t in Inr (if b e then addCallback time (CConnectEdge r) u else u))"
      using wf_conn_edges [OF wf i that(1)] by (simp add: Let_def wf_addCallback)
  qed
  then show ?thesis
    unfolding connection_lost_def Let_def by (auto intro!: wf.getEdge split: option.split)
qed

lemma wf_check_conn: "wf_state c (fst p) \<Longrightarrow> wf_state c (fst (check_conn now e i p))"
  by (cases p) (simp add: check_conn_def Let_def wf_close_conn wf_part_wf [OF wf_part_primitives(2)])

lemma fold_keeps: "(\<And>x p. P p \<Longrightarrow> P (f x p)) \<Longrightarrow> P p \<Longrightarrow> P (fold f xs p)"
  by (induction xs arbitrary: p) simp_all

lemma wf_check_edge: "wf_state c (fst p) \<Longrightarrow> wf_state c (fst (check_edge now x p))"
proof -
  assume wf: "wf_state c (fst p)"
  have conns: "wf_state c (fst (fold (check_conn now e) js q))" if "wf_state c (fst q)" for e js q
    using fold_keeps [where P = "\<lambda>q. wf_state c (fst q)" and f = "check_conn now e", OF wf_check_conn that] by simp
  obtain k e t rs where "x = (k, e)" "p = (t, rs)" by fastforce
  moreover obtain u us where "fold (check_conn now e) (e_tcpconnections e) (t, if e_tcpconnections e = [] \<and> e_addresses e \<noteq> [] then rs @ [k] else rs) = (u, us)"
    by fastforce
  moreover have "wf_state c u"
    using conns [of "(t, if e_tcpconnections e = [] \<and> e_addresses e \<noteq> [] then rs @ [k] else rs)" e "e_tcpconnections e"] wf calculation by simp
  ultimately show ?thesis by (simp add: check_edge_def wf_reap)
qed

lemma wf_check_floating:
  assumes "wf_state c (fst p) \<and> set (snd p) \<subseteq> {..<length (conns (fst p))}" "i < length (conns (fst p))"
  shows "wf_state c (fst (check_floating now i p)) \<and> set (snd (check_floating now i p)) \<subseteq> {..<length (conns (fst (check_floating now i p)))} \<and>
    length (conns (fst (check_floating now i p))) = length (conns (fst p))"
  using assms by (cases p) (auto simp: check_floating_def wf_close_conn)

lemma wf_check_floatings:
  "wf_state c (fst p) \<Longrightarrow> set (snd p) \<subseteq> {..<length (conns (fst p))} \<Longrightarrow> set js \<subseteq> {..<length (conns (fst p))} \<Longrightarrow>
    wf_state c (fst (fold (check_floating now) js p)) \<and>
    set (snd (fold (check_floating now) js p)) \<subseteq> {..<length (conns (fst (fold (check_floating now) js p)))}"
proof (induction js arbitrary: p)
  case (Cons j js)
  then have "wf_state c (fst (check_floating now j p))" "length (conns (fst (check_floating now j p))) = length (conns (fst p))"
    "set (snd (check_floating now j p)) \<subseteq> {..<length (conns (fst (check_floating now j p)))}"
    using wf_check_floating [of c p j now] by auto
  then have "wf_state c (fst (fold (check_floating now) js (check_floating now j p))) \<and>
    set (snd (fold (check_floating now) js (check_floating now j p))) \<subseteq> {..<length (conns (fst (fold (check_floating now) js (check_floating now j p))))}"
    using Cons.prems(3) by (intro Cons.IH) simp_all
  then show ?case by simp
qed simp

lemma wf_keepalive: "leads (keeps_wf c) s (keepalive c now s)"
proof (rule assume_wf)
  assume wf: "wf_state c s"
  obtain t rs where edges: "fold (check_edge now) (edgePeers s) (s, []) = (t, rs)" by fastforce
  obtain u ks where floating: "fold (check_floating now) (floatingConnections t) (t, []) = (u, ks)" by fastforce
  have wf_t: "wf_state c t"
    using fold_keeps [where P = "\<lambda>q. wf_state c (fst q)" and f = "check_edge now" and p = "(s, [])", OF wf_check_edge, of "edgePeers s"] wf edges by simp
  then have "set (floatingConnections t) \<subseteq> {..<length (conns t)}" by (auto simp: wf_state_def conns_ok_def)
  with wf_t have "wf_state c u" "set ks \<subseteq> {..<length (conns u)}"
    using wf_check_floatings [of c "(t, [])" "floatingConnections t" now] floating by simp_all
  then have "wf_state c (u\<lparr>floatingConnections := ks\<rparr>)" by (intro wf_floating) auto
  moreover have "leads (keeps_wf c) v (andthen (each (\<lambda>s r. connectEdge c now r s) v rs) (\<lambda>s.
      Inr (addCallback (now + keepalive_delay c) CKeepalive (checkStuckMessages c now s))))" for v
    by (intro wf.andthen wf.each wf_connectEdge) (simp add: wf_addCallback wf_part_wf [OF wf_part_lists(3)])
  ultimately show ?thesis
    unfolding keepalive_def edges Let_def prod.case floating by (rule_tac leads_wf)
qed

text \<open>Datagrams.\<close>

lemma wf_catch: "leads (keeps_wf c) s r \<Longrightarrow> leads (keeps_wf c) s (catch r)"
  by (auto simp: catch_def leads_def split: sum.splits)

lemma wf_udp_connected:
  assumes "config_ok c" "uc_sourceRank m < worldSize c"
  shows "leads (keeps_wf c) s (udp_connected c now failed sock a m s)"
proof -
  have "leads (keeps_wf c) t (each (\<lambda>s e. sendAddresses c now (failed (uc_sourceRank m) e) (uc_sourceRank m) e s) t ks)"
    if "\<forall>k \<in> set ks. k < worldSize c" for t ks
    using that
  proof (induction ks arbitrary: t)
    case (Cons k ks)
    then have "leads (keeps_wf c) u (each (\<lambda>s e. sendAddresses c now (failed (uc_sourceRank m) e) (uc_sourceRank m) e s) u ks)" for u by simp
    then show ?case using Cons.prems wf_sendAddresses [OF assms(2), of k] by (simp add: wf.andthen)
  qed simp
  moreover have "edges c ! uc_sourceRank m \<in> set (edges c)"
    using assms by (simp add: config_ok_def)
  then have "\<forall>k \<in> set (edges c ! uc_sourceRank m). k < worldSize c"
    using assms(1) unfolding config_ok_def by blast
  ultimately show ?thesis
    unfolding udp_connected_def Let_def update_rank_info_def
    by (rule_tac leads_wf [OF wf_part_wf [OF wf_part_primitives(1) wf_rank_info]]) simp_all
qed

lemma wf_handle_udp:
  assumes "config_ok c"
  shows "leads (keeps_wf c) s (handle_udp c now failed sock a m s)"
proof -
  have "leads (keeps_wf c) s (udp_connect c now failed sock a m s)" for m
    unfolding udp_connect_def using wf_udp_connected [OF assms] by (simp split: option.split)
  moreover have "leads (keeps_wf c) s (udp_addresses c now sock a m s)" for m
  proof -
    have "leads (keeps_wf c) s (connectEdge c now k t)" if "wf_part t = wf_part s" for k t
      by (rule leads_wf [OF wf_part_wf [OF that] wf_connectEdge])
    then show ?thesis
      unfolding udp_addresses_def Let_def by (auto intro!: wf.getEdge simp: wf_part_simps wf_part_edge)
  qed
  moreover have "leads (keeps_wf c) s (udp_addresses_ack c m s)" for m
    unfolding udp_addresses_ack_def by (simp add: wf_rank_info split: option.split)
  ultimately show ?thesis
    by (cases m) (simp_all add: handle_udp_def udp_connect_ack_def udp_hello_def udp_diagnostic_def
        Let_def wf_frame wf_part_simps)
qed

lemma wf_onreadudp: "config_ok c \<Longrightarrow> leads (keeps_wf c) s (onreadudp c now failed sock a buf s)"
  by (auto simp: onreadudp_def intro: wf_catch wf_handle_udp split: sum.split option.split)

text \<open>Connections.\<close>

lemma leads_frame: "wf_part t = wf_part s \<Longrightarrow> leads (keeps_wf c) t r \<Longrightarrow> leads (keeps_wf c) s r"
  by (rule leads_wf [OF wf_part_wf])

lemma wf_replay: "leads (keeps_wf c) s (replayPendingBroadcasts c now k s)"
proof -
  have "leads (keeps_wf c) s (each (\<lambda>s p. if fst p \<in> A then exec c now (Send k (snd p) (rank c)) s else Inr s) s ps)" for A ps
    by (rule wf.each) (simp add: wf.exec)
  moreover have "leads (keeps_wf c) t (Inr (update_edge k (\<lambda>e. e\<lparr>e_pendingBroadcasts := []\<rparr>) t))" for t
    by (simp add: wf_part_wf [OF wf_part_edge])
  ultimately show ?thesis
    unfolding replayPendingBroadcasts_def by (intro wf.getEdge wf.andthen)
qed

lemma wf_read_connect:
  assumes "i < length (conns s)" "config_ok c"
  shows "leads (keeps_wf c) s (read_connect c now i b m s)"
proof (rule assume_wf)
  assume wf: "wf_state c s"
  have distinct: "distinct (edges c ! rank c)" using assms(2) unfolding config_ok_def by blast
  let ?k = "tc_sourceRank m"
  have after: "leads (keeps_wf c) t (getEdge ?k t (\<lambda>e. Inr (g e t)))" if "\<And>e t. wf_part (g e t) = wf_part t" for g t
    by (rule wf.getEdge) (simp add: wf_part_wf [OF that])
  have "leads (keeps_wf c) s (andthen (replayPendingBroadcasts c now ?k (assign_conn now i m s)) (\<lambda>s. getEdge ?k s (\<lambda>e. Inr (g e s))))"
    if "findEdge s ?k = Some e" "e_tcpconnections e = []" "?k \<in> set (edges c ! rank c)" "\<And>e t. wf_part (g e t) = wf_part t" for g e
  proof (rule leads_wf)
    show "wf_state c (assign_conn now i m s)"
      using that(1,2) by (intro wf_assign [OF wf assms(1) that(3) _ distinct]) simp
    show "leads (keeps_wf c) (assign_conn now i m s)
        (andthen (replayPendingBroadcasts c now ?k (assign_conn now i m s)) (\<lambda>s. getEdge ?k s (\<lambda>e. Inr (g e s))))"
      by (rule wf.andthen [OF wf_replay after [OF that(4)]])
  qed
  then show ?thesis
    unfolding read_connect_def Let_def
    by (simp add: wf.refl) (intro conjI impI wf.getEdge, simp add: wf_part_simps wf_close_conn)
qed

lemma wf_drain: "leads (keeps_wf c) s (drain c now k n s)"
proof (induction n arbitrary: s)
  case (Suc n)
  have "leads (keeps_wf c) s (andthen (exec c now x (pop_incoming k s)) (\<lambda>s. drain c now k n (advance k s)))" for x
    by (intro leads_frame [OF _ wf.andthen [OF wf.exec leads_frame [OF _ Suc.IH]]]) (simp_all add: wf_part_simps)
  moreover have "leads (keeps_wf c) s (drain c now k n (pop_incoming k s))"
    by (intro leads_frame [OF _ Suc.IH]) (simp add: wf_part_simps)
  ultimately show ?case
    by (auto intro!: wf.getEdge split: list.split)
qed (auto intro!: wf.getEdge)

lemma wf_receive: "leads (keeps_wf c) s (receive c now k q f s)"
proof -
  have "leads (keeps_wf c) t (let s = sort_queue k (advance k t) in getEdge k s (\<lambda>e. drain c now k (g e) s))" for t g
    unfolding Let_def by (intro leads_frame [OF _ wf.getEdge [OF wf_drain]]) (simp add: wf_part_simps)
  then have "leads (keeps_wf c) s (andthen (exec c now x s) (\<lambda>s. let s = sort_queue k (advance k s) in getEdge k s (\<lambda>e. drain c now k (g e) s)))" for x g
    by (intro wf.andthen [OF wf.exec])
  then show ?thesis
    unfolding receive_def by (auto intro!: wf.getEdge simp: wf_part_wf [OF wf_part_edge])
qed

lemma wf_handle_tcp:
  assumes "i < length (conns s)" "config_ok c"
  shows "leads (keeps_wf c) s (handle_tcp c now i m s)"
proof -
  have "leads (keeps_wf c) s (receive c now k q f (write_conn i x (touch now i s)))" for k q f x
    by (rule leads_wf [OF _ wf_receive]) (simp add: wf_part_wf [OF wf_part_primitives(2)] wf_touch)
  then have "leads (keeps_wf c) s (read_routed c now i t q f s)" for t q f
    unfolding read_routed_def by (auto intro!: wf.getEdge split: option.split)
  moreover have "leads (keeps_wf c) s (read_ack now i q s)" for q
    unfolding read_ack_def Let_def
    by (rule leads_wf [of c s "touch now i s"]) (auto intro!: wf.getEdge simp: wf_touch wf_part_wf [OF wf_part_edge] split: option.split)
  ultimately show ?thesis
    using wf_read_connect [OF assms]
    by (cases m) (simp_all add: handle_tcp_def wf_touch wf_part_wf [OF wf_part_primitives(2)])
qed

lemma wf_onreadtcp: "i < length (conns s) \<Longrightarrow> config_ok c \<Longrightarrow> leads (keeps_wf c) s (onreadtcp c now i data s)"
  by (auto simp: onreadtcp_def intro: wf_catch wf_handle_tcp split: sum.split option.split)

text \<open>Shutdown: from its first step on the rank that started it is known.\<close>

definition closing_ok :: "config \<Rightarrow> store_state \<Rightarrow> bool" where
  "closing_ok c s \<longleftrightarrow> wf_state c s \<and> exitSourceRank s \<noteq> None"

lemma closing_messages: "closing_ok c s \<Longrightarrow> messages_only s t \<Longrightarrow> closing_ok c t"
  unfolding closing_ok_def using wf_messages by (auto simp: messages_only_def)

interpretation closing: message_relation "\<lambda>c s t. closing_ok c s \<longrightarrow> closing_ok c t"
  by unfold_locales (auto intro: closing_messages messages.emit messages.hello messages.queue messages.sent messages.pending
      messages.set_value messages.waiter messages.finish messages.shutdown messages.origin messages.exit messages.sources messages.received)

lemma closing_phase: "closing_ok c s \<Longrightarrow> closing_ok c (phase now st n s)"
  by (simp add: closing_ok_def phase_def wf_close_state wf_part_wf [OF wf_part_updates(7)] wf_part_wf [OF wf_part_updates(8)])

lemma source_rank_closed_conns: "c_sourceRank (fold (\<lambda>i cs. cs[i := (cs ! i)\<lparr>c_closed := True\<rparr>]) js cs ! k) = c_sourceRank (cs ! k)"
proof (induction js arbitrary: cs)
  case (Cons j js)
  have "c_sourceRank (cs[j := (cs ! j)\<lparr>c_closed := True\<rparr>] ! k) = c_sourceRank (cs ! k)"
    by (cases "j < length cs") (simp_all add: nth_list_update list_update_beyond)
  with Cons show ?case by simp
qed simp

lemma length_closed_conns: "length (fold (\<lambda>i cs. cs[i := (cs ! i)\<lparr>c_closed := True\<rparr>]) js cs) = length cs"
  by (induction js arbitrary: cs) simp_all

lemma wf_closeResources: "wf_state c s \<Longrightarrow> wf_state c (closeResources s)"
proof -
  assume wf: "wf_state c s"
  define cs where "cs = fold (\<lambda>i cs. cs[i := (cs ! i)\<lparr>c_closed := True\<rparr>])
    (floatingConnections s @ concat (map (e_tcpconnections \<circ> snd) (edgePeers s))) (conns s)"
  have "wf_state c (s\<lparr>conns := cs\<rparr>)"
    using wf wf_conn_edges [OF wf] by (intro wf_conns) (simp_all add: cs_def source_rank_closed_conns length_closed_conns)
  then have t: "wf_state c (s\<lparr>conns := cs, floatingConnections := [], callbacks := callbacks s, queuedCallbacks := []\<rparr>)" (is "wf_state c ?t")
    using wf_callbacks [of c "s\<lparr>conns := cs, floatingConnections := []\<rparr>" "callbacks s" "[]"] wf_floating [of c "s\<lparr>conns := cs\<rparr>" "[]"] by simp
  have "closeResources s = ?t\<lparr>edgePeers := map (\<lambda>(k, e). (k, e\<lparr>e_tcpconnections := []\<rparr>)) (edgePeers s)\<rparr>" (is "_ = ?u")
    by (simp add: closeResources_def cs_def)
  moreover have "wf_state c ?u"
    by (rule wf_edgePeers [OF t]) (auto simp: one_conn_def)
  ultimately show ?thesis by simp
qed

lemma closing_steps:
  "leads (\<lambda>s t. closing_ok c s \<longrightarrow> closing_ok c t) s (close_exit_ack c now s)"
  "leads (\<lambda>s t. closing_ok c s \<longrightarrow> closing_ok c t) s (close_exit c now s)"
  "leads (\<lambda>s t. closing_ok c s \<longrightarrow> closing_ok c t) s (close_shutdown_ack c now s)"
proof -
  let ?R = "\<lambda>s t. closing_ok c s \<longrightarrow> closing_ok c t"
  have later: "leads ?R s (close_later now s)" for s
    by (simp add: close_later_def closing_ok_def addCallback_def [of _ _ s] wf_addCallback wf_part_wf [OF wf_part_updates(8)])
      (simp add: addCallback_def)
  have ack: "leads ?R s (close_exit_ack c now s)" for s
  proof -
    have "wf_state c (s\<lparr>closeState := CloseDone, closed := True, anyQueued := True\<rparr>)" if "closing_ok c s"
      using that by (simp add: closing_ok_def wf_close_state wf_part_wf [OF wf_part_updates(1)] wf_part_wf [OF wf_part_updates(2)])
    then show ?thesis
      unfolding close_exit_ack_def using later by (simp add: closing_ok_def wf_closeResources) (simp add: closeResources_def)
  qed
  have exit: "leads ?R s (close_exit c now s)" for s
  proof -
    have "leads ?R t (close_exit_ack c now (phase now st n t))" for st n t
      using closing.step [OF _ ack] closing_phase by blast
    then show ?thesis unfolding close_exit_def using later by (simp add: closing.andthen [OF closing.exec])
  qed
  show "leads ?R s (close_exit_ack c now s)" "leads ?R s (close_exit c now s)" by (rule ack, rule exit)
  have "leads ?R t (close_exit c now (phase now st n t))" for st n t
    using closing.step [OF _ exit] closing_phase by blast
  moreover have "leads ?R s (if exited s then Inr s else exec c now x (enter_exit c now s))" for x
    using closing.step [OF closing.exit closing.exec, of s] by simp
  ultimately show "leads ?R s (close_shutdown_ack c now s)"
    unfolding close_shutdown_ack_def using later by (simp only: closing.andthen split: if_split) simp
qed

lemma wf_runCloseStateMachine: "leads (keeps_wf c) s (runCloseStateMachine c now s)"
proof (rule assume_wf)
  assume wf: "wf_state c s"
  let ?R = "\<lambda>s t. closing_ok c s \<longrightarrow> closing_ok c t"
  have wf_of: "leads (keeps_wf c) s r" if "closing_ok c t" "leads ?R t r" for t r
    using that by (cases r) (auto simp: closing_ok_def)
  show ?thesis
  proof (cases "closeState s = NotStarted")
    case True
    let ?t = "note_origin (rank c) (s\<lparr>shuttingDown := True\<rparr>)"
    have "closing_ok c ?t"
      using wf wf_messages [OF _ messages.origin [of "s\<lparr>shuttingDown := True\<rparr>" "rank c"]]
      by (auto simp: closing_ok_def wf_part_wf [OF wf_part_updates(6)]) (simp add: note_origin_def split: if_splits)
    moreover have "leads ?R t (close_shutdown_ack c now (phase now st n t))" for st n t
      using closing.step [OF _ closing_steps(3)] closing_phase by blast
    then have "leads ?R ?t (andthen (exec c now x ?t) (\<lambda>s. close_shutdown_ack c now (phase now WaitShutdownAck 2000 s)))" for x
      by (intro closing.andthen closing.exec)
    ultimately show ?thesis
      using wf_of by (simp add: runCloseStateMachine_def True)
  next
    case False
    then have ok: "closing_ok c s" using wf by (simp add: closing_ok_def wf_state_def)
    show ?thesis
      using False wf_of [OF ok closing_steps(1)] wf_of [OF ok closing_steps(2)] wf_of [OF ok closing_steps(3)]
      by (simp add: runCloseStateMachine_def split: close_state.split)
  qed
qed

text \<open>The thread.\<close>

lemma wf_run_callback:
  assumes "config_ok c" "cb_ok c s cb"
  shows "leads (keeps_wf c) s (run_callback c now failed cb s)"
  using assms wf_messages [OF _ messages.try_hello]
  by (cases cb) (auto simp: run_callback_def wf_connect wf_part_wf [OF wf_part_primitives(6)] wf_part_wf [OF wf_part_primitives(7)] wf_udp_burst
      wf_keepalive wf_connect_to wf_connectEdge wf_sendAddresses wf_onreadtcp wf_connection_lost wf_runCloseStateMachine)

lemma set_move_queued: "set (fst (move_queued qs cbs b)) = set qs \<union> set cbs"
  by (induction qs cbs b rule: move_queued.induct) auto

lemma wf_take_queued: "wf_state c s \<Longrightarrow> wf_state c (take_queued s)"
proof -
  assume wf: "wf_state c s"
  obtain cbs b where m: "move_queued (queuedCallbacks s) (callbacks s) False = (cbs, b)" by fastforce
  then have "set cbs = set (queuedCallbacks s) \<union> set (callbacks s)"
    using set_move_queued [of "queuedCallbacks s" "callbacks s" False] by simp
  then have "wf_state c (s\<lparr>callbacks := (if b then sort_key fst cbs else cbs), queuedCallbacks := []\<rparr>)"
    by (intro wf_callbacks [OF wf]) auto
  then have "wf_state c (s\<lparr>callbacks := (if b then sort_key fst cbs else cbs), queuedCallbacks := [], anyQueued := False\<rparr>)"
    by (rule wf_part_wf [OF wf_part_updates(2)])
  moreover have "s\<lparr>callbacks := x, queuedCallbacks := [], anyQueued := False\<rparr> = s\<lparr>anyQueued := False, queuedCallbacks := [], callbacks := x\<rparr>" for x
    by simp
  ultimately show ?thesis using wf m by (cases b) (simp_all add: take_queued_def)
qed

lemma wf_threadEntry: "config_ok c \<Longrightarrow> leads (keeps_wf c) s (threadEntry c now failed s)"
proof (rule assume_wf)
  assume ok: "config_ok c" and wf: "wf_state c s"
  have clear: "wf_state c (s\<lparr>callbacks := []\<rparr>)"
    using wf_callbacks [OF wf, of "[]" "queuedCallbacks s"] by simp
  let ?t = "take_queued s"
  have t: "wf_state c ?t" using wf by (rule wf_take_queued)
  have "leads (keeps_wf c) s (run_callback c now failed cb (?t\<lparr>callbacks := cbs\<rparr>))" if "callbacks ?t = (time, cb) # cbs" for time cb cbs
  proof (rule leads_wf)
    have same: "cb_ok c (?t\<lparr>callbacks := cbs\<rparr>) = cb_ok c ?t" by (rule cb_ok_cong) simp_all
    show "wf_state c (?t\<lparr>callbacks := cbs\<rparr>)"
      using wf_callbacks [OF t, of cbs "queuedCallbacks ?t"] that by auto
    have "cb_ok c ?t cb" using t that by (auto simp: wf_state_def)
    then show "leads (keeps_wf c) (?t\<lparr>callbacks := cbs\<rparr>) (run_callback c now failed cb (?t\<lparr>callbacks := cbs\<rparr>))"
      using same by (intro wf_run_callback ok) simp
  qed
  then show ?thesis
    unfolding threadEntry_def Let_def using clear t by (simp split: list.split prod.split)
qed

lemma wf_doWaitOp: "wf_state c s \<Longrightarrow> doWaitOp c now timeout type key args s = Inr (h, t) \<Longrightarrow> wf_state c t"
proof (erule doWaitOp_cases)
  fix x y
  let ?t = "s\<lparr>nextId := (nextId s + 1) mod 2 ^ 32, wait_objects := wait_objects s @ [x], waits := put (nextId s) (length (wait_objects s)) (waits s)\<rparr>"
  assume "wf_state c s" and run: "exec c now y ?t = Inr t"
  then have "wf_state c ?t" by (rule_tac wf_part_wf) (simp only: wf_part_simps)
  then show ?thesis using wf.exec [of c ?t now y] run by simp
qed (rule wf_part_wf, simp_all only: wf_part_simps)

lemma wf_store_step:
  assumes "config_ok c" "store_step c s t" "wf_state c s"
  shows "wf_state c t"
  using assms(2,3)
proof (induction rule: store_step.induct)
  case (thread now failed s t)
  then show ?case using wf_threadEntry [OF assms(1), of s now failed] by simp
next
  case (datagram now f sock a buf s t)
  then show ?case using wf_onreadudp [OF assms(1), of s now f sock a buf] by simp
next
  case (data i s now r)
  then show ?case by (simp add: read_callback_def wf_addCallback wf_close_conn split: sum.split)
next
  case (accept now s t)
  then show ?case using wf_addConnection [of c s now] by (auto simp: accept_connection_def split: if_splits)
next
  case (resolved s now a)
  then show ?case by (simp add: resolve_callback_def wf_addCallback)
next
  case (request now timeout type key args s h t)
  then show ?case using wf_doWaitOp by blast
next
  case (close s now)
  then show ?case by (simp add: Store_Events.close_def wf_addCallback wf_part_wf [OF wf_part_updates(6)])
qed

lemma wf_reachable: "config_ok c \<Longrightarrow> reachable c s \<Longrightarrow> wf_state c s"
proof (rotate_tac, induction rule: reachable.induct)
  case (init now local s)
  then show ?case
    by (auto simp: StoreImpl_def addCallback_def wf_state_def peers_ok_def conns_ok_def tcps_def new_edge_def one_conn_def comp_def split: if_splits)
qed (blast intro: wf_store_step)

end
