(* ===== verification/Store_Safe.thy ===== *)
theory Store_Safe
  imports Store_Wf
begin

text \<open>
  What can fail. In a well-formed state a message to an edge is always sent, so no timer fails a check; a
  datagram fails one in a single case. Only what arrives on a connection is trusted further.
\<close>

section \<open>Sending to an edge succeeds\<close>

definition good :: "handled \<Rightarrow> bool" where
  "good r \<longleftrightarrow> (case r of Inl x \<Rightarrow> False | Inr s \<Rightarrow> True)"

lemma good_simps [simp]: "good (Inr s)" "\<not> good (Inl x)"
  by (simp_all add: good_def)

lemma good_Inr: "good r \<longleftrightarrow> (\<exists>t. r = Inr t)"
  by (cases r) simp_all

lemma good_andthen: "good r \<Longrightarrow> (\<And>s. r = Inr s \<Longrightarrow> good (f s)) \<Longrightarrow> good (andthen r f)"
  by (cases r) auto

lemma good_each:
  assumes "P s" "\<And>s x. P s \<Longrightarrow> x \<in> set xs \<Longrightarrow> good (f s x)" "\<And>s x t. P s \<Longrightarrow> f s x = Inr t \<Longrightarrow> P t"
  shows "good (each f s xs)"
  using assms(1,2)
proof (induction xs arbitrary: s)
  case (Cons x xs)
  have "good (each f t xs)" if "f s x = Inr t" for t
    using Cons.prems(2) assms(3) [OF Cons.prems(1) that] by (intro Cons.IH) simp_all
  then show ?case using Cons.prems by (simp add: good_andthen)
qed simp

lemma peer_edge: "peers_ok c s \<Longrightarrow> k \<in> set (edges c ! rank c) \<longleftrightarrow> (\<exists>e. findEdge s k = Some e)"
proof -
  assume "peers_ok c s"
  then have "set (edges c ! rank c) = fst ` set (edgePeers s)" unfolding peers_ok_def by (metis image_set)
  then show ?thesis
    unfolding findEdge_def by (metis map_of_eq_None_iff not_Some_eq)
qed

lemma good_getEdge: "peers_ok c s \<Longrightarrow> k \<in> set (edges c ! rank c) \<Longrightarrow> (\<And>e. findEdge s k = Some e \<Longrightarrow> good (f e)) \<Longrightarrow> good (getEdge k s f)"
  using peer_edge by (auto simp: getEdge_def)

lemma config_edge: "config_ok c \<Longrightarrow> k \<in> set (edges c ! rank c) \<Longrightarrow> k < length (hops c) \<and> hops c ! k = k \<and> k \<noteq> rank c"
  unfolding config_ok_def by metis

lemma good_send_ensured:
  assumes "config_ok c" "peers_ok c s" "k \<in> set (edges c ! rank c)" "good (run n c now (Ensure k d) s)"
  shows "good (run (Suc n) c now (Send k f d) s)"
proof -
  have "good (getEdge k t (\<lambda>e. let u = queue_message now k f d t in case e_tcpconnections e of
      i # _ \<Rightarrow> Inr (write_conn i (frame_message (numbered e f)) u)
    | [] \<Rightarrow> Inr (sendDiagnosticInfo c now d k Transient (stuck_reason k e) u)))" if "run n c now (Ensure k d) s = Inr t" for t
    using peers_ok_run [OF assms(2) that] by (intro good_getEdge [OF _ assms(3)]) (auto simp: Let_def split: list.split)
  with assms config_edge [OF assms(1,3)] show ?thesis
    by (simp add: sendMessage_def good_andthen)
qed

lemma good_ensure_marked: "peers_ok c s \<Longrightarrow> k \<in> set (edges c ! rank c) \<Longrightarrow> 1 \<le> n \<Longrightarrow> marked k d s \<Longrightarrow> good (run n c now (Ensure k d) s)"
  by (cases n) (auto simp: ensureDiagnosticSourceSent_def marked_def intro!: good_getEdge)

lemma good_ensure:
  assumes "config_ok c" "peers_ok c s" "k \<in> set (edges c ! rank c)" "4 \<le> n"
  shows "good (run n c now (Ensure k d) s)"
proof -
  obtain m where n: "n = Suc (Suc (Suc m))" "1 \<le> m" using assms(4) by (cases n; cases "n - 1"; cases "n - 2") auto
  have t: "peers_ok c (mark_sent k d s)" using assms(2) by (simp add: peers_ok_same)
  have "good (run (Suc m) c now (Send k f d) (mark_sent k d s))" for f
    by (intro good_send_ensured good_ensure_marked assms t n marked_mark_sent)
  then have "good (run (Suc (Suc m)) c now (SendTo k 0 d messageDiagnosticSource args) (mark_sent k d s))" for args
    using config_edge [OF assms(1,3)] peer_edge [OF t, of k] assms(3)
    by (auto simp: run.simps(2) [of "Suc m"] sendMessageTo_def Let_def first_hop_def getEdge_def simp del: run.simps)
  then show ?thesis
    unfolding n(1) using assms(2,3)
    by (auto simp: run.simps(2) [of "Suc (Suc m)"] ensureDiagnosticSourceSent_def Let_def intro!: good_getEdge simp del: run.simps)
qed

lemma good_send:
  assumes "config_ok c" "peers_ok c s" "k \<in> set (edges c ! rank c)" "5 \<le> n"
  shows "good (run n c now (Send k f d) s)"
  using assms good_send_ensured good_ensure by (cases n) auto

lemma good_broadcast:
  assumes "config_ok c" "peers_ok c s"
  shows "good (exec c now (Broadcast type args) s)"
proof -
  have "good (broadcastMessage (run 7 c now) c type args s)"
    unfolding broadcastMessage_def
  proof (rule good_each [where P = "peers_ok c"])
    fix t k assume "peers_ok c t" "k \<in> set (map fst (edgePeers s))"
    moreover from this have "k \<in> set (edges c ! rank c)" using assms(2) by (simp only: peers_ok_def)
    ultimately show "good (run 7 c now (Send k (make_frame c k 0 (rank c) type True args) (rank c)) t)"
      by (intro good_send assms(1)) simp_all
  qed (auto intro: assms(2) peers_ok_run)
  moreover have depth: "depth = Suc 7" by (simp add: depth_def)
  ultimately show ?thesis unfolding exec_def depth run.simps by simp
qed

section \<open>Timers\<close>

lemma wf_peers: "wf_state c s \<Longrightarrow> peers_ok c s"
  by (simp add: wf_state_def)

lemma good_connectEdge:
  assumes "wf_state c s" "k \<in> set (edges c ! rank c)"
  shows "good (connectEdge c now k s)"
proof -
  have "good (getEdge k (reaptcpconnections k s) f)" if "\<And>e. good (f e)" for f
    using that assms by (intro good_getEdge [OF wf_peers [OF wf_reap]]) auto
  then show ?thesis
    unfolding connectEdge_def Let_def using assms by (auto intro!: good_getEdge [OF wf_peers] simp: wf_reap)
qed

lemma good_connect_to: "wf_state c s \<Longrightarrow> k \<in> set (edges c ! rank c) \<Longrightarrow> good (connect_to c now a k uid s)"
  unfolding connect_to_def
  by (rule good_getEdge [OF wf_peers]) (simp_all add: Let_def addConnection_def write_conn_def emit_def)

lemma good_sendAddresses: "rankInfos s ! r \<noteq> None \<Longrightarrow> good (sendAddresses c now failed r k s)"
  by (auto simp: sendAddresses_def Let_def split: option.split)

lemma good_connection_lost:
  assumes "wf_state c s" "i < length (conns s)"
  shows "good (connection_lost c now i msg s)"
proof (cases "c_sourceRank (conns s ! i)")
  case (Some r)
  then have r: "r \<in> set (edges c ! rank c)" by (rule wf_conn_edges [OF assms])
  have "good (getEdge r (reaptcpconnections r s) f)" if "\<And>e. good (f e)" for f
    using that assms r by (intro good_getEdge [OF wf_peers [OF wf_reap]]) auto
  then show ?thesis
    unfolding connection_lost_def Let_def using assms r Some by (auto intro!: good_getEdge [OF wf_peers] simp: wf_reap)
qed (simp add: connection_lost_def)

text \<open>The ranks to reconnect to are edges.\<close>

definition surveyed :: "config \<Rightarrow> nat \<Rightarrow> (nat \<Rightarrow> nat option) \<Rightarrow> store_state \<times> nat list \<Rightarrow> bool" where
  "surveyed c n src = (\<lambda>(s, rs). wf_state c s \<and> set rs \<subseteq> set (edges c ! rank c) \<and> length (conns s) = n \<and>
     (\<forall>i<n. c_sourceRank (conns s ! i) = src i))"

lemma reconnect_check_conn:
  assumes "surveyed c n src (s, rs)"
    "i < n" "src i \<noteq> None"
  shows "surveyed c n src (check_conn now e i (s, rs))"
proof -
  have "c_sourceRank (conns (close_conn i s) ! j) = c_sourceRank (conns s ! j)" if "j < n" for j
    using assms(1,2) that by (simp add: surveyed_def close_conn_def update_conn_def nth_list_update)
  moreover have "conns (write_conn i m s) = conns s" for m by (simp add: write_conn_def emit_def)
  ultimately show ?thesis
    using assms wf_conn_edges [of c s i]
    by (auto simp: surveyed_def check_conn_def Let_def wf_close_conn wf_part_wf [OF wf_part_primitives(2)])
qed

lemma reconnect_check_conns:
  assumes "surveyed c n src p" "\<forall>i \<in> set js. i < n \<and> src i \<noteq> None"
  shows "surveyed c n src (fold (check_conn now e) js p)"
  using assms
proof (induction js arbitrary: p)
  case (Cons j js)
  then have "surveyed c n src (check_conn now e j p)"
    using reconnect_check_conn [of c n src "fst p" "snd p" j now e] by simp
  with Cons show ?case by simp
qed simp

lemma reconnect_check_edge:
  assumes "surveyed c n src p" "k \<in> set (edges c ! rank c)" "\<forall>i \<in> set (e_tcpconnections e). i < n \<and> src i \<noteq> None"
  shows "surveyed c n src (check_edge now (k, e) p)"
proof -
  obtain s rs where p: "p = (s, rs)" by fastforce
  define q where "q = (s, if e_tcpconnections e = [] \<and> e_addresses e \<noteq> [] then rs @ [k] else rs)"
  have "surveyed c n src q" using assms(1,2) by (simp add: p q_def surveyed_def)
  note step = reconnect_check_conns [OF this assms(3), of now e]
  obtain t us where t: "fold (check_conn now e) (e_tcpconnections e) q = (t, us)" by fastforce
  with step have "surveyed c n src (t, us)" by simp
  moreover have "conns (reaptcpconnections k t) = conns t" by (simp add: reaptcpconnections_def update_edge_def)
  ultimately show ?thesis using t by (simp add: p check_edge_def q_def [symmetric] surveyed_def wf_reap)
qed

lemma reconnect_edges:
  assumes "wf_state c s"
  shows "surveyed c (length (conns s)) (\<lambda>i. c_sourceRank (conns s ! i)) (fold (check_edge now) (edgePeers s) (s, []))"
proof -
  have "surveyed c (length (conns s)) (\<lambda>i. c_sourceRank (conns s ! i)) (fold (check_edge now) es p)"
    if "set es \<subseteq> set (edgePeers s)" "surveyed c (length (conns s)) (\<lambda>i. c_sourceRank (conns s ! i)) p" for es p
    using that
  proof (induction es arbitrary: p)
    case (Cons x es)
    obtain k e where x: "x = (k, e)" by fastforce
    then have "one_conn (conns s) (e_tcpconnections e)" using one_conn_edge [OF assms] Cons.prems(1) by auto
    moreover have "k \<in> set (map fst (edgePeers s))" using Cons.prems(1) x by force
    then have "k \<in> set (edges c ! rank c)" using wf_peers [OF assms] by (simp only: peers_ok_def)
    ultimately show ?case
      using Cons x by (simp add: reconnect_check_edge one_conn_def)
  qed simp
  then show ?thesis using assms by (simp add: surveyed_def)
qed

lemma good_keepalive:
  assumes "wf_state c s"
  shows "good (keepalive c now s)"
proof -
  obtain t rs where edges: "fold (check_edge now) (edgePeers s) (s, []) = (t, rs)" by fastforce
  obtain u ks where floating: "fold (check_floating now) (floatingConnections t) (t, []) = (u, ks)" by fastforce
  have t: "wf_state c t" "set rs \<subseteq> set (edges c ! rank c)"
    using reconnect_edges [OF assms, of now] edges by (simp_all add: surveyed_def)
  then have "set (floatingConnections t) \<subseteq> {..<length (conns t)}" by (auto simp: wf_state_def conns_ok_def)
  with t(1) have "wf_state c u" "set ks \<subseteq> {..<length (conns u)}"
    using wf_check_floatings [of c "(t, [])" "floatingConnections t" now] floating by simp_all
  then have "wf_state c (u\<lparr>floatingConnections := ks\<rparr>)" by (intro wf_floating) auto
  moreover have "good (each (\<lambda>s r. connectEdge c now r s) v rs)" if "wf_state c v" for v
  proof (rule good_each [where P = "wf_state c"])
    show "wf_state c s \<Longrightarrow> r \<in> set rs \<Longrightarrow> good (connectEdge c now r s)" for s r
      using t(2) good_connectEdge by blast
    show "wf_state c s \<Longrightarrow> connectEdge c now r s = Inr x \<Longrightarrow> wf_state c x" for s r x
      using wf_connectEdge [of c s now r] by simp
  qed (rule that)
  ultimately show ?thesis
    unfolding keepalive_def edges Let_def prod.case floating by (intro good_andthen) auto
qed

lemma good_close_later: "good (close_later now s)"
  by (simp add: close_later_def)

lemma good_close:
  assumes ok: "config_ok c"
  shows "good (close_exit_ack c now s)" "peers_ok c s \<Longrightarrow> good (close_exit c now s)" "peers_ok c s \<Longrightarrow> good (close_shutdown_ack c now s)"
    "peers_ok c s \<Longrightarrow> good (runCloseStateMachine c now s)"
proof -
  have phase: "peers_ok c (phase now st n t) = peers_ok c t" for st n t by (simp add: phase_def peers_ok_def)
  have kept: "peers_ok c u" if "exec c now x t = Inr u" "peers_ok c t" for x t u
    using that peers_ok_run unfolding exec_def by blast
  have ack: "good (close_exit_ack c now s)" for s by (simp add: close_exit_ack_def good_close_later)
  have exit: "good (close_exit c now s)" if "peers_ok c s" for s
    unfolding close_exit_def using that good_broadcast [OF ok] ack by (auto intro!: good_andthen simp: good_close_later)
  have shut: "good (close_shutdown_ack c now s)" if p: "peers_ok c s" for s
  proof -
    have "good (andthen (if exited s then Inr s else exec c now (Broadcast type args) (enter_exit c now s))
        (\<lambda>s. close_exit c now (phase now st n s)))" for type args st n
      using p good_broadcast [OF ok, of "enter_exit c now s"] kept exit
      by (intro good_andthen) (auto simp: peers_ok_same phase split: if_splits)
    then show ?thesis unfolding close_shutdown_ack_def by (simp add: good_close_later)
  qed
  show "good (close_exit_ack c now s)" by (rule ack)
  show "peers_ok c s \<Longrightarrow> good (close_exit c now s)" by (rule exit)
  show "peers_ok c s \<Longrightarrow> good (close_shutdown_ack c now s)" by (rule shut)
  assume p: "peers_ok c s"
  let ?t = "note_origin (rank c) (s\<lparr>shuttingDown := True\<rparr>)"
  have "peers_ok c ?t" using p by (simp add: peers_ok_same) (simp add: peers_ok_def)
  then have "good (andthen (exec c now (Broadcast type args) ?t) (\<lambda>s. close_shutdown_ack c now (phase now st n s)))" for type args st n
    using kept shut by (intro good_andthen good_broadcast ok) (auto simp: phase)
  then show "good (runCloseStateMachine c now s)"
    unfolding runCloseStateMachine_def using ack exit [OF p] shut [OF p] by (simp split: close_state.split)
qed

lemma good_run_callback:
  assumes "config_ok c" "wf_state c s" "cb_ok c s cb" "\<And>i data. cb \<noteq> CRead i data"
  shows "good (run_callback c now failed cb s)"
  using assms good_close(4) [OF assms(1) wf_peers [OF assms(2)]]
  by (cases cb) (auto simp: run_callback_def good_keepalive good_connect_to good_connectEdge good_sendAddresses good_connection_lost)

section \<open>Datagrams\<close>

lemma good_udp_connected:
  assumes "uc_sourceRank m < length (rankInfos s)"
  shows "good (udp_connected c now failed sock a m s)"
proof -
  let ?r = "uc_sourceRank m"
  have "good (each (\<lambda>s e. sendAddresses c now (failed ?r e) ?r e s) t ks)" if "rankInfos t ! ?r \<noteq> None" for t ks
  proof (rule good_each [where P = "\<lambda>t. rankInfos t ! ?r \<noteq> None"])
    show "rankInfos u ! ?r \<noteq> None" if "rankInfos t ! ?r \<noteq> None" "sendAddresses c now (failed ?r e) ?r e t = Inr u" for t e u
      using that by (auto simp: sendAddresses_def Let_def emit_def addCallback_def split: option.splits if_splits)
  qed (use that in \<open>auto intro: good_sendAddresses\<close>)
  moreover have "rankInfos (emit x (update_rank_info sock a m s)) ! ?r \<noteq> None" for x
    using assms by (simp add: update_rank_info_def emit_def Let_def)
  ultimately show ?thesis unfolding udp_connected_def Let_def by blast
qed

lemma handle_udp_error:
  assumes "wf_state c s" "handle_udp c now failed sock a m s = Inl (e, t)"
  shows "e = CheckFailed \<and> (\<exists>m'. m = UAddresses m' \<and> am_key m' = storekey c \<and> am_sourceRank m' < worldSize c \<and>
    am_sourceRank m' \<notin> set (edges c ! rank c))"
proof -
  have len: "length (rankInfos s) = worldSize c" using assms(1) by (simp add: wf_state_def)
  have "good (udp_connect c now failed sock a m' s)" for m'
    unfolding udp_connect_def using good_udp_connected [of m' s c now failed sock a] len by (auto split: option.split)
  moreover have "good (udp_addresses c now sock a m' s)" if "am_sourceRank m' \<in> set (edges c ! rank c)" for m'
  proof -
    have "good (connectEdge c now (am_sourceRank m') t)" if "wf_part t = wf_part s" for t
      using wf_part_wf [OF that assms(1)] \<open>_ \<in> _\<close> by (rule good_connectEdge)
    then show ?thesis
      unfolding udp_addresses_def Let_def using assms(1) that
      by (auto intro!: good_getEdge [OF wf_peers] simp: wf_part_simps wf_part_edge)
  qed
  moreover have "r = (CheckFailed, s) \<and> am_key m' = storekey c \<and> am_sourceRank m' < worldSize c"
    if "udp_addresses c now sock a m' s = Inl r" "am_sourceRank m' \<notin> set (edges c ! rank c)" for m' r
    using that peer_edge [OF wf_peers [OF assms(1)], of "am_sourceRank m'"]
    by (auto simp: udp_addresses_def getEdge_def split: if_splits)
  moreover have "good (udp_connect_ack c m' s)" "good (udp_addresses_ack c m'' s)" "good (udp_hello c sock a b x s)" "good (udp_diagnostic c now y s)" for m' m'' b x y
    by (simp_all add: udp_connect_ack_def udp_addresses_ack_def udp_hello_def udp_diagnostic_def Let_def split: option.split)
  ultimately show ?thesis
    using assms(2) by (cases m) (fastforce simp: handle_udp_def good_def split: sum.splits)+
qed

lemma deserialize_error: "deserializeBufferPart t data = Inl e \<Longrightarrow> e = EndOfData \<or> e = OutOfBounds"
  using advances_deserialize(1) [of "\<lparr>dbase = data, doffset = 0\<rparr>" t True]
  by (auto simp: deserializeBufferPart_def bind_result_def advances_def valid_des_def split: sum.splits)

lemma decode_udp_error: "decode_udp buf = Inl e \<Longrightarrow> e = EndOfData \<or> e = OutOfBounds"
  by (auto simp: decode_udp_def read_message_def bind_result_def Let_def dest: deserialize_error split: if_splits sum.splits)

section \<open>The incoming queue\<close>

text \<open>Handling a message does not touch the queue, so its length bounds the rounds.\<close>

lemma exec_incoming:
  assumes "exec c now x s = Inr t" "findEdge s k = Some e"
  shows "\<exists>e'. findEdge t k = Some e' \<and> e_incomingQueue e' = e_incomingQueue e \<and> e_incomingSeq e' = e_incomingSeq e"
proof -
  have "links t = links s" using messages.exec [of s c now x] assms(1) by (simp add: messages_only_def)
  then have "map_option link_view (findEdge t k) = Some (link_view e)" using links_findEdge assms(2) by (metis option.simps(9))
  then obtain e' where e': "findEdge t k = Some e'" "link_view e' = link_view e" by auto
  have "e_incomingQueue (link_view x) = e_incomingQueue x \<and> e_incomingSeq (link_view x) = e_incomingSeq x" for x
    by (simp add: link_view_def)
  then show ?thesis using e' by metis
qed

definition frames_read :: "(32 word \<times> frame result) list \<Rightarrow> bool" where
  "frames_read q \<longleftrightarrow> (\<forall>p \<in> set q. snd p \<noteq> Inl OutOfFuel)"

lemma peers_ok_edge: "peers_ok c (update_edge k f s) = peers_ok c s"
  by (simp add: peers_ok_def)

lemma fuel_drain:
  assumes "config_ok c" "peers_ok c s" "findEdge s k = Some e" "length (e_incomingQueue e) \<le> n" "frames_read (e_incomingQueue e)"
  shows "fuelled (drain c now k n s)"
  using assms(2-)
proof (induction n arbitrary: s e)
  case 0
  then show ?case by (simp add: getEdge_def)
next
  case (Suc n)
  show ?case
  proof (cases "e_incomingQueue e")
    case (Cons p ps)
    obtain q f where p: "p = (q, f)" by fastforce
    have popped: "findEdge (pop_incoming k s) k = Some (e\<lparr>e_incomingQueue := ps\<rparr>)" "peers_ok c (pop_incoming k s)"
      using Suc.prems Cons by (simp_all add: pop_incoming_def findEdge_update_edge peers_ok_edge)
    have rest: "length ps \<le> n" "frames_read ps" "f \<noteq> Inl OutOfFuel"
      using Suc.prems(3,4) by (auto simp: Cons p frames_read_def)
    have skip: "fuelled (drain c now k n (pop_incoming k s))"
      using Suc.IH [OF popped(2) popped(1)] rest by simp
    have "fuelled (drain c now k n (advance k t))" if run: "exec c now (Process f k) (pop_incoming k s) = Inr t" for t
    proof -
      obtain e' where e': "findEdge t k = Some e'" "e_incomingQueue e' = ps"
        using exec_incoming [OF run popped(1)] by auto
      have "peers_ok c t" using run popped(2) peers_ok_run unfolding exec_def by blast
      with e' rest show ?thesis
        by (intro Suc.IH [of _ "e'\<lparr>e_incomingSeq := e_incomingSeq e' + 1\<rparr>"]) (simp_all add: advance_def findEdge_update_edge peers_ok_edge)
    qed
    moreover have "fuelled (exec c now (Process f k) (pop_incoming k s))"
      using fuel_exec [OF assms(1) popped(2), of "Process f k"] rest(3) by blast
    ultimately show ?thesis
      using skip Suc.prems(2) by (auto simp: getEdge_def Cons p intro!: fuelled_andthen)
  qed (use Suc.prems(2) in \<open>simp add: getEdge_def\<close>)
qed

lemma fuel_receive:
  assumes "config_ok c" "peers_ok c s" "f \<noteq> Inl OutOfFuel" "\<And>e. findEdge s k = Some e \<Longrightarrow> frames_read (e_incomingQueue e)"
  shows "fuelled (receive c now k q f s)"
proof -
  have "fuelled (let u = sort_queue k (advance k t) in getEdge k u (\<lambda>e. drain c now k (length (e_incomingQueue e)) u))"
    if run: "exec c now (Process f k) s = Inr t" and e: "findEdge s k = Some e" for t e
  proof -
    obtain e' where e': "findEdge t k = Some e'" "e_incomingQueue e' = e_incomingQueue e"
      using exec_incoming [OF run e] by auto
    let ?u = "sort_queue k (advance k t)"
    have "peers_ok c ?u"
      using run assms(2) peers_ok_run unfolding exec_def sort_queue_def advance_def peers_ok_edge by blast
    moreover obtain e'' where "findEdge ?u k = Some e''" "set (e_incomingQueue e'') = set (e_incomingQueue e)"
      using e' by (simp add: sort_queue_def advance_def findEdge_update_edge)
    ultimately show ?thesis
      using assms(4) [OF e] by (simp add: Let_def getEdge_def fuel_drain [OF assms(1)] frames_read_def)
  qed
  moreover have "fuelled (exec c now (Process f k) s)"
    using fuel_exec [OF assms(1,2), of "Process f k"] assms(3) by blast
  ultimately show ?thesis
    unfolding receive_def by (intro fuelled_getEdge) (auto intro: fuelled_andthen)
qed

section \<open>Properties\<close>

text \<open>C8: In every state a rank can reach, its tables have the length of the world, its edges are those of the mesh, every edge has at
  most one connection, which exists and was claimed by a rank, every assigned connection belongs to an edge, and every
  callback refers to a connection, edge or rank that exists.\<close>

theorem reachable_well_formed:
  assumes "configured c" "reachable c s"
  shows "wf_state c s"
  using wf_reachable [OF configured_ok [OF assms(1)] assms(2)] .

text \<open>C9: A round of the callback thread fails no check and leaves no range, unless the callback it runs reads from a
  connection: the timers, reconnections, retries, lost connections and the whole shutdown always return.\<close>

theorem timers_never_fail:
  assumes "configured c" "reachable c s"
  shows "(\<exists>t. threadEntry c now failed s = Inr t) \<or>
    (\<exists>time i data cbs. callbacks (take_queued s) = (time, CRead i data) # cbs \<and> time \<le> now)"
proof -
  let ?t = "take_queued s"
  note ok = configured_ok [OF assms(1)]
  have t: "wf_state c ?t" by (intro wf_take_queued wf_reachable ok assms(2))
  have "good (run_callback c now failed cb (?t\<lparr>callbacks := cbs\<rparr>))"
    if next_cb: "callbacks ?t = (time, cb) # cbs" and "\<And>i data. cb \<noteq> CRead i data" for time cb cbs
  proof (rule good_run_callback [OF ok])
    have "cb_ok c (?t\<lparr>callbacks := cbs\<rparr>) = cb_ok c ?t" by (rule cb_ok_cong) simp_all
    then show "cb_ok c (?t\<lparr>callbacks := cbs\<rparr>) cb" using t next_cb by (simp add: wf_state_def)
    show "wf_state c (?t\<lparr>callbacks := cbs\<rparr>)"
      using wf_callbacks [OF t, of cbs "queuedCallbacks ?t"] next_cb by auto
  qed (rule that(2))
  then show ?thesis
    by (fastforce simp: threadEntry_def Let_def good_Inr split: list.split)
qed


text \<open>C10: The message functions return: however they call each other, on whatever message, the depth of the calls stays
  below the bound, and the loop over the queue of early messages ends within its length.\<close>

theorem messages_terminate:
  assumes "configured c" "reachable c s"
  shows "((\<forall>k. x \<noteq> Process (Inl OutOfFuel) k) \<longrightarrow> exec c now x s \<noteq> Inl (OutOfFuel, t)) \<and>
    (f \<noteq> Inl OutOfFuel \<and> (\<forall>e. findEdge s k = Some e \<longrightarrow> frames_read (e_incomingQueue e)) \<longrightarrow>
      receive c now k q f s \<noteq> Inl (OutOfFuel, t))"
proof -
  note ok = configured_ok [OF assms(1)]
  have p: "peers_ok c s" by (intro wf_peers wf_reachable ok assms(2))
  show ?thesis
    using fuel_exec [OF ok p, of x now] fuel_receive [OF ok p, of f k now q] by fastforce
qed

section \<open>Examples\<close>

definition pair :: config where
  "pair = \<lparr>worldSize = 2, rank = 0, storekey = [7], myId = [1], hops = [0, 1], edges = [[1], [0]], myUdpAddresses = [], udps = 1,
     port = 0, networkKey = [], resolve = (\<lambda>_. []), isReachable = (\<lambda>_ _. True), mix_resolved = id, mix_addresses = id,
     render = (\<lambda>_. []), keepalive_delay = 2000\<rparr>"

definition pair_start :: store_state where
  "pair_start = projr (StoreImpl pair 0 [])"

lemma pair_configured: "configured pair"
proof -
  have "findPaths rev (\<lambda>_. rev) [] (worldSize pair) (rank pair) = Inr (edges pair, hops pair)"
    by code_simp
  moreover have "shuffles rev" by (simp add: shuffles_def)
  ultimately show ?thesis unfolding configured_def by (intro conjI exI [of _ rev] exI [of _ "\<lambda>_. rev"] exI [of _ "[]"]) (simp_all add: pair_def)
qed

lemma pair_start_reachable: "reachable pair pair_start"
  by (rule reachable.init [of pair 0 "[]"]) (simp add: pair_start_def StoreImpl_def pair_def maxEdgePeers_def)

theorem reachable_well_formed_witness: "reachable pair pair_start \<and> wf_state pair pair_start"
  using reachable_well_formed [OF pair_configured pair_start_reachable] pair_start_reachable by simp

theorem timers_never_fail_witness: "\<exists>t. threadEntry pair 8000 False pair_start = Inr t"
  using timers_never_fail [OF pair_configured pair_start_reachable, of 8000 False]
  by (auto simp: pair_start_def StoreImpl_def pair_def maxEdgePeers_def addCallback_def take_queued_def)


theorem messages_terminate_witness:
  "exec pair 0 (Broadcast messageExitAck []) pair_start \<noteq> Inl (OutOfFuel, pair_start) \<and>
   receive pair 0 1 0 (Inl EndOfData) pair_start \<noteq> Inl (OutOfFuel, pair_start)"
  using messages_terminate [OF pair_configured pair_start_reachable,
    of "Broadcast messageExitAck []" 0 pair_start "Inl EndOfData" 1 0]
  by (auto simp: pair_start_def StoreImpl_def pair_def maxEdgePeers_def addCallback_def findEdge_def new_edge_def frames_read_def)

end
