(* ===== verification/Store_Calls.thy ===== *)
theory Store_Calls
  imports Store_Safe
begin

text \<open>
  The calls of the user: a value that was set is found, a call that came too early is answered when the
  value is set, and after the exit nobody keeps waiting.
\<close>

section \<open>Arguments\<close>

lemma u64_small: "n < 2 ^ 64 \<Longrightarrow> u64_count n"
  by (simp add: u64_count_def)

lemma of_bytesv [simp]: "of_bytesv (bytesv b) = b"
  by (simp add: of_bytesv_def bytesv_def comp_def)

lemma has_bytesv: "length b < 2 ^ 64 \<Longrightarrow> has_type (VecT (Triv 1)) (bytesv b)"
  by (simp add: bytesv_def u64_small list_all_iff)

lemma length_value_args: "length (value_args v) = length v + 8"
  by (simp add: value_args_def bytesv_def length_concat comp_def sum_list_triv)

lemma read_key_value:
  assumes "length key + length v < 2 ^ 63" "payload f = key_value_args key v"
  shows "read_args (Struct (tuple [Str, VecT (Triv 1)])) f s k = k (VStruct [VStr key, bytesv v])"
proof -
  have "deserializeBufferPart (Struct (tuple [Str, VecT (Triv 1)])) (key_value_args key v @ []) = Inr (VStruct [VStr key, bytesv v], [])"
    unfolding key_value_args_def using assms(1) has_bytesv [of v]
    by (intro deserializeBufferPart_encode) (auto simp: u64_small bytesv_def length_concat comp_def sum_list_triv)
  then show ?thesis by (simp add: read_args_def assms(2))
qed

lemma read_key:
  assumes "length key < 2 ^ 63" "payload f = key_args key"
  shows "read_args Str f s k = k (VStr key)"
proof -
  have "deserializeBufferPart Str (key_args key @ []) = Inr (VStr key, [])"
    unfolding key_args_def using assms(1) by (intro deserializeBufferPart_encode) (auto simp: u64_small)
  then show ?thesis by (simp add: read_args_def assms(2))
qed

lemma handle_done_value:
  assumes "length v < 2 ^ 63" "payload f = value_args v"
  shows "handle_done f s = Inr (finish_wait (h_id (header f)) False v s)"
proof -
  have "deserializeBufferPart (VecT (Triv 1)) (value_args v @ []) = Inr (bytesv v, [])"
    unfolding value_args_def using assms(1) has_bytesv [of v]
    by (intro deserializeBufferPart_encode) (auto simp: bytesv_def length_concat comp_def sum_list_triv)
  moreover have "payload f \<noteq> []" "length (payload f) \<noteq> 1"
    using length_value_args [of v] assms(2) by auto
  ultimately show ?thesis by (simp add: handle_done_def read_args_def assms(2))
qed

lemma handle_done_empty: "payload f = [] \<Longrightarrow> handle_done f s = Inr (finish_wait (h_id (header f)) False [] s)"
  by (simp add: handle_done_def)

section \<open>Messages to oneself\<close>

lemma local_send:
  assumes "config_ok c"
  shows "run (Suc (Suc n)) c now (SendTo (rank c) i d type args) s = dispatch (run n c now) c now (make_frame c (rank c) i d type False args) s"
proof -
  have "rank c < length (hops c)" "hops c ! rank c = rank c" using assms by (auto simp: config_ok_def)
  then show ?thesis by (simp add: sendMessageTo_def first_hop_def Let_def processMessage_def make_frame_def)
qed

lemma local_done: "config_ok c \<Longrightarrow> run (Suc (Suc n)) c now (SendTo (rank c) i d messageDone args) s = handle_done (make_frame c (rank c) i d messageDone False args) s"
  by (simp add: local_send del: run.simps) (simp add: dispatch_def make_frame_def messageDone_def messageSet_def)

lemma six: "(6 :: nat) = Suc (Suc 4)" "depth = Suc (Suc 6)"
  by (simp_all add: depth_def)

lemma local_done_six: "config_ok c \<Longrightarrow> run 6 c now (SendTo (rank c) i d messageDone args) s = handle_done (make_frame c (rank c) i d messageDone False args) s"
  unfolding six(1) by (rule local_done)

lemma local_exec: "config_ok c \<Longrightarrow> exec c now (SendTo (rank c) i d type args) s = dispatch (run 6 c now) c now (make_frame c (rank c) i d type False args) s"
  unfolding exec_def six(2) by (rule local_send)

definition answered :: "bytes \<Rightarrow> waiter \<Rightarrow> store_state \<Rightarrow> store_state" where
  "answered v w s = finish_wait (wt_id w) False (if wt_messageType w = messageGet then v else []) s"

lemma local_answers:
  assumes "config_ok c" "\<forall>w \<in> set ws. wt_sourceRank w = rank c" "length v < 2 ^ 63"
  shows "each (answer (run 6 c now) v) s ws = Inr (fold (answered v) ws s)"
  using assms(2)
proof (induction ws arbitrary: s)
  case (Cons w ws)
  then have "answer (run 6 c now) v s w = Inr (answered v w s)"
    unfolding answer_def answered_def using assms(1,3)
    by (simp add: local_done_six handle_done_value handle_done_empty make_frame_def del: run.simps)
  with Cons show ?case by simp
qed simp

lemma local_set:
  assumes "config_ok c" "\<forall>w \<in> set (waiters_of key s). wt_sourceRank w = rank c" "length key + length v < 2 ^ 63"
  shows "exec c now (SendTo (rank c) i d messageSet (key_value_args key v)) s =
    Inr (finish_wait i False [] (fold (answered v) (waiters_of key s) (set_value key v s)))"
proof -
  let ?f = "make_frame c (rank c) i d messageSet False (key_value_args key v)"
  have "run 6 c now (SendTo (rank c) i d messageDone []) t = Inr (finish_wait i False [] t)" for t
    using assms(1) by (simp add: local_done_six handle_done_empty make_frame_def del: run.simps)
  moreover have "dispatch (run 6 c now) c now ?f s = handle_set (run 6 c now) ?f s"
    by (simp add: dispatch_def make_frame_def)
  moreover have "handle_set (run 6 c now) ?f s =
      andthen (internalStoreSetValue (run 6 c now) key v s) (\<lambda>s. run 6 c now (SendTo (rank c) i d messageDone []) s)"
    unfolding handle_set_def using read_key_value [OF assms(3), of ?f] by (simp add: make_frame_def)
  ultimately show ?thesis
    using assms by (simp add: local_exec internalStoreSetValue_def local_answers)
qed

lemma local_get:
  assumes "config_ok c" "length key < 2 ^ 63"
  shows "map_of (store s) key = Some v \<Longrightarrow> length v < 2 ^ 63 \<Longrightarrow>
      exec c now (SendTo (rank c) i d messageGet (key_args key)) s = Inr (finish_wait i False v s)"
    "map_of (store s) key = None \<Longrightarrow> exec c now (SendTo (rank c) i d messageGet (key_args key)) s =
      Inr (add_waiter key \<lparr>wt_messageType = messageGet, wt_sourceRank = rank c, wt_id = i, wt_diagnosticSource = d\<rparr> s)"
proof -
  let ?f = "make_frame c (rank c) i d messageGet False (key_args key)"
  have get: "dispatch (run 6 c now) c now ?f s = handle_get (run 6 c now) ?f s"
    by (simp add: dispatch_def make_frame_def messageGet_def messageSet_def messageDone_def)
  show "exec c now (SendTo (rank c) i d messageGet (key_args key)) s = Inr (finish_wait i False v s)"
    if "map_of (store s) key = Some v" "length v < 2 ^ 63"
    using assms that get
    by (simp add: local_exec handle_get_def read_key make_frame_def internalStoreGetValue_def answer_def local_done_six handle_done_value del: run.simps)
  show "exec c now (SendTo (rank c) i d messageGet (key_args key)) s =
      Inr (add_waiter key \<lparr>wt_messageType = messageGet, wt_sourceRank = rank c, wt_id = i, wt_diagnosticSource = d\<rparr> s)"
    if "map_of (store s) key = None"
    using assms that get by (simp add: local_exec handle_get_def read_key make_frame_def internalStoreGetValue_def)
qed

section \<open>Calls for a key that is stored here\<close>

definition owned :: "config \<Rightarrow> bytes \<Rightarrow> bool" where
  "owned c key \<longleftrightarrow> unat (storeRank (of_nat (worldSize c)) key) = rank c"

definition fresh_wait :: "config \<Rightarrow> nat \<Rightarrow> wait_state" where
  "fresh_wait c end = \<lparr>w_b = False, w_data = [], w_futex = False, w_error = False, w_shutdownRank = None, w_end = end,
     w_targetRank = rank c, w_firstHopEdge = rank c\<rparr>"

definition register :: "wait_state \<Rightarrow> store_state \<Rightarrow> store_state" where
  "register w s = s\<lparr>nextId := (nextId s + 1) mod 2 ^ 32, wait_objects := wait_objects s @ [w],
     waits := put (nextId s) (length (wait_objects s)) (waits s)\<rparr>"

lemma register_simps [simp]:
  "nextId (register w s) = (nextId s + 1) mod 2 ^ 32" "wait_objects (register w s) = wait_objects s @ [w]"
  "waits (register w s) = put (nextId s) (length (wait_objects s)) (waits s)" "store (register w s) = store s"
  "storeWaiters (register w s) = storeWaiters s" "exited (register w s) = exited s"
  by (simp_all add: register_def)

lemma owned_doWaitOp:
  assumes "config_ok c" "owned c key" "\<not> exited s" "exec c now (SendTo (rank c) (nextId s) (rank c) type args) (register (fresh_wait c (now + timeout)) s) = Inr t"
  shows "doWaitOp c now timeout type key args s = Inr (length (wait_objects s), t)"
proof -
  have "hops c ! rank c = rank c" "rank c < worldSize c" "worldSize c < 2 ^ 31" using assms(1) by (auto simp: config_ok_def)
  then show ?thesis
    using assms(2-4) by (simp add: doWaitOp_def Let_def owned_def register_def fresh_wait_def)
qed

lemma finish_wait_simps [simp]:
  "store (finish_wait i b v s) = store s" "storeWaiters (finish_wait i b v s) = storeWaiters s" "exited (finish_wait i b v s) = exited s"
  "nextId (finish_wait i b v s) = nextId s" "length (wait_objects (finish_wait i b v s)) = length (wait_objects s)"
  by (simp_all add: finish_wait_def update_wait_def split: option.split)

lemma finish_wait_done:
  "map_of (waits s) i = Some h \<Longrightarrow> wait_objects (finish_wait i b v s) = (wait_objects s)[h := (wait_objects s ! h)\<lparr>w_b := b, w_data := v, w_futex := True\<rparr>]"
  "map_of (waits s) i = Some h \<Longrightarrow> waits (finish_wait i b v s) = drop_key i (waits s)"
  by (simp_all add: finish_wait_def update_wait_def)

lemma owned_set:
  assumes "config_ok c" "owned c key" "\<not> exited s" "\<forall>w \<in> set (waiters_of key s). wt_sourceRank w = rank c" "length key + length v < 2 ^ 63"
  shows "set_op c now timeout key v s = Inr (length (wait_objects s),
    finish_wait (nextId s) False [] (fold (answered v) (waiters_of key s) (set_value key v (register (fresh_wait c (now + timeout)) s))))"
proof -
  have "waiters_of key (register x s) = waiters_of key s" for x by (simp add: waiters_of_def)
  with local_set [OF assms(1), of key "register (fresh_wait c (now + timeout)) s" v now "nextId s" "rank c"] assms show ?thesis
    unfolding set_op_def by (intro owned_doWaitOp) simp_all
qed

lemma owned_get:
  assumes "config_ok c" "owned c key" "\<not> exited s" "length key < 2 ^ 63"
  shows "map_of (store s) key = Some v \<Longrightarrow> length v < 2 ^ 63 \<Longrightarrow> get_op c now timeout key s =
      Inr (length (wait_objects s), finish_wait (nextId s) False v (register (fresh_wait c (now + timeout)) s))"
    "map_of (store s) key = None \<Longrightarrow> get_op c now timeout key s = Inr (length (wait_objects s),
      add_waiter key \<lparr>wt_messageType = messageGet, wt_sourceRank = rank c, wt_id = nextId s, wt_diagnosticSource = rank c\<rparr>
        (register (fresh_wait c (now + timeout)) s))"
  unfolding get_op_def using assms local_get [OF assms(1,4), of "register (fresh_wait c (now + timeout)) s"]
  by (auto intro!: owned_doWaitOp)

section \<open>Properties\<close>



text \<open>C14: Nobody is left waiting for a key that has a value.\<close>

theorem no_lost_waiter:
  assumes "reachable c s" "map_of (store s) key = Some v"
  shows "waiters_of key s = []"
  using waiters_reachable [OF assms(1)] assms(2) by (cases "map_of (storeWaiters s) key") (auto simp: waiters_ok_def waiters_of_def)

text \<open>C11: After the exit every call has returned or failed, and a new call fails at once: nobody keeps waiting for an answer that
  will not come, as long as fewer calls were made than there are numbers for them.\<close>

theorem exit_wakes_everyone:
  assumes "configured c" "reachable c s" "exited s" "length (wait_objects s) < 2 ^ 32 - 1"
  shows "(\<forall>w \<in> set (wait_objects s). wait_poll now w = Finished \<or> (\<exists>r. wait_poll now w = ShutDown r)) \<and>
    (\<exists>h t r. doWaitOp c now timeout type key args s = Inr (h, t) \<and> wait_poll now' (wait_objects t ! h) = ShutDown r)"
proof -
  have "w_futex w" if w: "w \<in> set (wait_objects s)" for w
  proof -
    obtain h where h: "h < length (wait_objects s)" "w = wait_objects s ! h" using w by (metis in_set_conv_nth)
    then show ?thesis using waits_reachable [OF assms(2)] assms(3,4) by (auto simp: waits_ok_def)
  qed
  then have old: "\<forall>w \<in> set (wait_objects s). wait_poll now w = Finished \<or> (\<exists>r. wait_poll now w = ShutDown r)"
    by (simp add: wait_poll_def)
  let ?r = "unat (storeRank (of_nat (worldSize c)) key)"
  have ok: "config_ok c" by (rule configured_ok [OF assms(1)])
  then have world: "0 < worldSize c" "worldSize c < 2 ^ 31" by (auto simp: config_ok_def)
  then have "?r < worldSize c"
    by (simp add: storeRank_def unat_mod unat_of_nat)
  then have "hops c ! ?r < worldSize c" using ok unfolding config_ok_def by metis
  then obtain t where "doWaitOp c now timeout type key args s = Inr (length (wait_objects s), t)"
      "wait_objects t ! length (wait_objects s) = exit_wait c (exitSourceRank s) (wait_objects t ! length (wait_objects s))"
    using assms(3) world(2) by (simp add: doWaitOp_def Let_def)
  moreover have "wait_poll now' (exit_wait c r w) = ShutDown (w_shutdownRank (exit_wait c r w))" for r w
    by (simp add: wait_poll_def)
  ultimately show ?thesis using old by metis
qed

section \<open>Examples\<close>

definition solo :: config where
  "solo = pair\<lparr>worldSize := 1, hops := [0], edges := [[]]\<rparr>"

definition solo_start :: store_state where
  "solo_start = projr (StoreImpl solo 5 [])"

text \<open>A get waits, then the store is closed.\<close>

definition solo_get :: store_state where
  "solo_get = snd (projr (get_op solo 5 100 [65] solo_start))"

definition solo_closed :: store_state where
  "solo_closed = projr (threadEntry solo 0 False (Store_Events.close 0 solo_get))"

lemma solo_configured: "configured solo"
proof -
  have "findPaths rev (\<lambda>_. rev) [] (worldSize solo) (rank solo) = Inr (edges solo, hops solo)"
    by code_simp
  moreover have "shuffles rev" by (simp add: shuffles_def)
  ultimately show ?thesis unfolding configured_def
    by (intro conjI exI [of _ rev] exI [of _ "\<lambda>_. rev"] exI [of _ "[]"]) (simp_all add: solo_def pair_def)
qed

lemma solo_owned: "owned solo key"
  by (simp add: owned_def solo_def pair_def storeRank_def)

lemma solo_start_reachable: "reachable solo solo_start" "\<not> exited solo_start" "store solo_start = []" "storeWaiters solo_start = []"
proof -
  show "reachable solo solo_start"
    by (rule reachable.init [of solo 5 "[]"]) (simp add: solo_start_def StoreImpl_def solo_def pair_def maxEdgePeers_def)
qed (simp_all add: solo_start_def StoreImpl_def solo_def pair_def maxEdgePeers_def addCallback_def)

lemma solo_get_reachable: "reachable solo solo_get"
proof -
  have "get_op solo 5 100 [65] solo_start = Inr (fst (projr (get_op solo 5 100 [65] solo_start)), solo_get)"
    using owned_get(2) [OF configured_ok [OF solo_configured] solo_owned solo_start_reachable(2), of "[65]" 5 100] solo_start_reachable(3)
    by (simp add: solo_get_def)
  then have "store_step solo solo_start solo_get" unfolding get_op_def by (rule store_step.request)
  with solo_start_reachable(1) show ?thesis by (rule reachable.step)
qed

lemma alone_broadcast: "edgePeers s = [] \<Longrightarrow> exec c now (Broadcast type args) s = Inr s"
  unfolding exec_def six(2) run.simps by (simp add: broadcastMessage_def)

lemma alone_exit: "edgePeers s = [] \<Longrightarrow> edgePeers (enter_exit c now s) = []"
  using messages_only_exit [of s c now] by (simp add: messages_only_def links_def)

lemma solo_close:
  assumes "edgePeers s = []" "closeState s = NotStarted" "\<not> exited s"
  shows "\<exists>t. runCloseStateMachine solo now s = Inr t \<and> exited t \<and> length (wait_objects t) = length (wait_objects s)"
proof -
  define u where "u = phase now WaitShutdownAck 2000 (note_origin (rank solo) (s\<lparr>shuttingDown := True\<rparr>))"
  have u: "edgePeers u = []" "\<not> exited u" "wait_objects u = wait_objects s"
    using assms(1,3) by (simp_all add: u_def phase_def note_origin_def)
  have peers: "all_peers solo p t" for p t by (simp add: all_peers_def solo_def pair_def)
  have "edgePeers (phase now st n t) = edgePeers t" "exited (phase now st n t) = exited t" "wait_objects (phase now st n t) = wait_objects t" for st n t
    by (simp_all add: phase_def)
  moreover have "length (wait_objects (enter_exit solo now u)) = length (wait_objects u)"
    by (simp add: enter_exit_def length_exit_objects)
  ultimately have "\<exists>t. close_shutdown_ack solo now u = Inr t \<and> exited t \<and> length (wait_objects t) = length (wait_objects u)"
    using u alone_exit [OF u(1), of solo now]
    by (simp add: close_shutdown_ack_def close_exit_def close_exit_ack_def allPeersShutdown_def allPeersExited_def allPeersExitAcked_def
        peers alone_broadcast core_enter_exit closeResources_def)
  then show ?thesis
    using assms(1) u by (simp add: runCloseStateMachine_def assms(2) alone_broadcast note_origin_def u_def [unfolded note_origin_def] split: if_splits)
qed

lemma solo_get_eq: "solo_get = add_waiter [65] \<lparr>wt_messageType = messageGet, wt_sourceRank = rank solo, wt_id = nextId solo_start, wt_diagnosticSource = rank solo\<rparr>
    (register (fresh_wait solo 105) solo_start)"
  using owned_get(2) [OF configured_ok [OF solo_configured] solo_owned solo_start_reachable(2), of "[65]" 5 100] solo_start_reachable(3)
  by (simp add: solo_get_def)

lemma solo_closed: "threadEntry solo 0 False (Store_Events.close 0 solo_get) = Inr solo_closed" "exited solo_closed" "length (wait_objects solo_closed) = 1"
proof -
  define s where "s = take_queued (Store_Events.close 0 solo_get)"
  have s: "callbacks s = (0, CClose) # tl (callbacks s)" "edgePeers s = []" "closeState s = NotStarted" "\<not> exited s" "length (wait_objects s) = 1"
    "\<not> closed (Store_Events.close 0 solo_get)"
    by (simp_all add: s_def solo_get_eq take_queued_def Store_Events.close_def add_waiter_def register_def solo_start_def StoreImpl_def
        solo_def pair_def maxEdgePeers_def addCallback_def)
  obtain t where t: "runCloseStateMachine solo 0 (s\<lparr>callbacks := tl (callbacks s)\<rparr>) = Inr t" "exited t" "length (wait_objects t) = 1"
    using solo_close [of "s\<lparr>callbacks := tl (callbacks s)\<rparr>" 0] s by auto
  have "threadEntry solo 0 False (Store_Events.close 0 solo_get) = Inr t"
    using s(1,6) t(1) unfolding threadEntry_def s_def [symmetric] Let_def by (cases "callbacks s") (auto simp: run_callback_def)
  then show "threadEntry solo 0 False (Store_Events.close 0 solo_get) = Inr solo_closed" "exited solo_closed" "length (wait_objects solo_closed) = 1"
    using t(2,3) by (simp_all add: solo_closed_def)
qed

lemma solo_closed_reachable: "reachable solo solo_closed"
  using reachable.step [OF reachable.step [OF solo_get_reachable store_step.close] store_step.thread [OF solo_closed(1)]] .



theorem no_lost_waiter_witness:
  "\<exists>h t. set_op solo 0 10 [65] [1, 2] solo_get = Inr (h, t) \<and> waiters_of [65] t = []"
proof -
  have "waiters_of [65] solo_get = [\<lparr>wt_messageType = messageGet, wt_sourceRank = rank solo, wt_id = nextId solo_start, wt_diagnosticSource = rank solo\<rparr>]"
    "\<not> exited solo_get"
    using solo_start_reachable(2,4) by (simp_all add: solo_get_eq add_waiter_def waiters_of_def)
  with owned_set [OF configured_ok [OF solo_configured] solo_owned, of solo_get "[65]" "[1, 2]" 0 10]
  obtain h t where t: "set_op solo 0 10 [65] [1, 2] solo_get = Inr (h, t)" "map_of (store t) [65] = Some [1, 2]"
    by (simp add: answered_def set_value_def)
  then have "reachable solo t" using reachable.step [OF solo_get_reachable store_step.request] unfolding set_op_def by blast
  with no_lost_waiter [OF this t(2)] t(1) show ?thesis by blast
qed

theorem exit_wakes_everyone_witness:
  "wait_objects solo_closed \<noteq> [] \<and> list_all (\<lambda>w. wait_poll 0 w = Finished \<or> (\<exists>r. wait_poll 0 w = ShutDown r)) (wait_objects solo_closed)"
  using exit_wakes_everyone [OF solo_configured solo_closed_reachable solo_closed(2), of 0] solo_closed(3) by (auto simp: list_all_iff)

end
