(* ===== verification/Sharding.thy ===== *)
theory Sharding
  imports Prelude
begin

text \<open>
  Which parts of a tensor an owner has, \<^verbatim>\<open>py/moodist/sharding.py\<close>. Python's integers are \<open>int\<close>; its
  exceptions are errors. The placements are those of \<^verbatim>\<open>torch.distributed.tensor\<close>: the code asks of them whether
  they are \<open>Replicate\<close>, whether they have a \<open>split_factor\<close>, whether they are a \<open>Shard\<close>, and for the attribute \<open>dim\<close>,
  which \<open>Partial\<close> does not have.
\<close>

record ShardInfo =
  si_global_offset :: "int list"
  si_local_offset :: "int list"
  si_shape :: "int list"

datatype placement = Replicate | Shard int | StridedShard int int | Partial

text \<open>Pairs of an offset and a size.\<close>

type_synonym ranges = "(int \<times> int) list"

section \<open>Ranges\<close>

text \<open>The two loops of \<open>_compose_ranges\<close>: for an empty slice, and for any other.\<close>

fun compose_at :: "ranges \<Rightarrow> int \<Rightarrow> int \<Rightarrow> (int \<times> int) option" where
  "compose_at [] local_start local_pos = None"
| "compose_at ((global_offset, range_size) # rs) local_start local_pos =
     (if local_start < local_pos + range_size then Some (global_offset + (local_start - local_pos), 0)
      else compose_at rs local_start (local_pos + range_size))"

fun compose_overlap :: "ranges \<Rightarrow> int \<Rightarrow> int \<Rightarrow> int \<Rightarrow> ranges" where
  "compose_overlap [] local_start local_end local_pos = []"
| "compose_overlap ((global_offset, range_size) # rs) local_start local_end local_pos =
     (let overlap_start = max local_pos local_start;
          overlap_end = min (local_pos + range_size) local_end
      in (if overlap_start < overlap_end
          then [(global_offset + (overlap_start - local_pos), overlap_end - overlap_start)] else []) @
         (if local_end \<le> local_pos + range_size then []
          else compose_overlap rs local_start local_end (local_pos + range_size)))"

definition compose_ranges :: "ranges \<Rightarrow> int \<Rightarrow> int \<Rightarrow> ranges" where
  "compose_ranges existing local_start local_size =
     (if local_size = 0
      then case compose_at existing local_start 0 of
             Some r \<Rightarrow> [r]
           | None \<Rightarrow> if existing \<noteq> [] then [(fst (last existing) + snd (last existing), 0)] else [(0, 0)]
      else compose_overlap existing local_start (local_start + local_size) 0)"

text \<open>The loop of \<open>_strided_shard_ranges\<close>. For a positive group size its rounds are bounded by the number of
  chunks that are left; otherwise it does not end once it is entered.\<close>

fun strided_loop :: "nat \<Rightarrow> int \<Rightarrow> int \<Rightarrow> int \<Rightarrow> int \<Rightarrow> int \<Rightarrow> ranges result" where
  "strided_loop 0 dim_size chunk_size num_chunks group_size chunk_idx =
     (if chunk_idx < num_chunks then Inl OutOfFuel else Inr [])"
| "strided_loop (Suc n) dim_size chunk_size num_chunks group_size chunk_idx =
     (if chunk_idx < num_chunks
      then let offset = chunk_idx * chunk_size
           in bind_result (strided_loop n dim_size chunk_size num_chunks group_size (chunk_idx + group_size))
                (\<lambda>rs. Inr ((offset, min chunk_size (dim_size - offset)) # rs))
      else Inr [])"

definition floordiv :: "int \<Rightarrow> int \<Rightarrow> int result" where
  "floordiv a b = (if b = 0 then Inl ZeroDivisionError else Inr (a div b))"

definition strided_shard_ranges :: "int \<Rightarrow> int \<Rightarrow> int \<Rightarrow> int \<Rightarrow> ranges result" where
  "strided_shard_ranges dim_size split_factor group_size rank_index =
     (let virtual_size = split_factor * group_size
      in bind_result (floordiv (dim_size + virtual_size - 1) virtual_size) (\<lambda>chunk_size.
           bind_result (floordiv (dim_size + chunk_size - 1) chunk_size) (\<lambda>num_chunks.
             bind_result (strided_loop (nat (num_chunks - rank_index)) dim_size chunk_size num_chunks group_size rank_index) (\<lambda>rs.
               Inr (if rs = [] then [(dim_size, 0)] else rs)))))"

definition regular_shard_ranges :: "int \<Rightarrow> int \<Rightarrow> int \<Rightarrow> ranges result" where
  "regular_shard_ranges dim_size group_size rank_index =
     bind_result (floordiv (dim_size + group_size - 1) group_size) (\<lambda>chunk_size.
       let offset = min (chunk_size * rank_index) dim_size
       in Inr [(offset, min chunk_size (dim_size - offset))])"

section \<open>Shards\<close>

text \<open>The body of the loop over the placements. The keys of \<open>dim_ranges\<close> are the dimensions, so it is a list.\<close>

fun placement_dim :: "placement \<Rightarrow> int result" where
  "placement_dim (Shard d) = Inr d"
| "placement_dim (StridedShard d sf) = Inr d"
| "placement_dim p = Inl AttributeError"

fun split_ranges :: "placement \<Rightarrow> ranges \<Rightarrow> int \<Rightarrow> int \<Rightarrow> int \<Rightarrow> ranges result" where
  "split_ranges (StridedShard d sf) current total_local_size group_size rank_index =
     bind_result (strided_shard_ranges total_local_size sf group_size rank_index) (\<lambda>strided.
       Inr (concat (map (\<lambda>(off, n). compose_ranges current off n) strided)))"
| "split_ranges (Shard d) current total_local_size group_size rank_index =
     bind_result (regular_shard_ranges total_local_size group_size rank_index) (\<lambda>shard.
       Inr (compose_ranges current (fst (shard ! 0)) (snd (shard ! 0))))"
| "split_ranges p current total_local_size group_size rank_index = Inr current"

definition apply_placement :: "ranges list \<Rightarrow> placement \<times> int \<times> int \<Rightarrow> ranges list result" where
  "apply_placement dim_ranges = (\<lambda>(p, rank_index, group_size).
     if p = Replicate then Inr dim_ranges
     else bind_result (placement_dim p) (\<lambda>dim.
       if \<not> (0 \<le> dim \<and> dim < int (length dim_ranges)) then Inl KeyError
       else let current = dim_ranges ! nat dim;
                total_local_size = sum_list (map snd current)
            in if total_local_size = 0 then Inr dim_ranges
               else bind_result (split_ranges p current total_local_size group_size rank_index) (\<lambda>new.
                 Inr (dim_ranges[nat dim := new]))))"

text \<open>The offsets of the ranges in the local tensor.\<close>

fun local_offsets :: "int \<Rightarrow> ranges \<Rightarrow> int list" where
  "local_offsets cumsum [] = []"
| "local_offsets cumsum ((g, n) # rs) = cumsum # local_offsets (cumsum + n) rs"

definition chunk_of :: "int list list \<Rightarrow> (nat \<times> int \<times> int) list \<Rightarrow> ShardInfo" where
  "chunk_of dim_local_offsets combo =
     \<lparr>si_global_offset = map (\<lambda>r. fst (snd r)) combo,
      si_local_offset = map (\<lambda>(d, r). dim_local_offsets ! d ! fst r) (enumerate 0 combo),
      si_shape = map (\<lambda>r. snd (snd r)) combo\<rparr>"

definition compute_shards :: "int list \<Rightarrow> placement list \<Rightarrow> (int \<times> int) list \<Rightarrow> ShardInfo list result" where
  "compute_shards shape placements indices_and_sizes =
     (if length placements \<noteq> length indices_and_sizes then Inl ValueError
      else bind_result (fold_result apply_placement (map (\<lambda>n. [(0, n)]) shape) (zip placements indices_and_sizes)) (\<lambda>all_dim_ranges.
        Inr (map (chunk_of (map (local_offsets 0) all_dim_ranges)) (product_lists (map (enumerate 0) all_dim_ranges)))))"

section \<open>Resharding without communication\<close>

fun same_type :: "placement \<Rightarrow> placement \<Rightarrow> bool" where
  "same_type Replicate Replicate = True"
| "same_type (Shard d) (Shard e) = True"
| "same_type (StridedShard d sf) (StridedShard e sg) = True"
| "same_type Partial Partial = True"
| "same_type p q = False"

fun is_shard_like :: "placement \<Rightarrow> bool" where
  "is_shard_like (Shard d) = True"
| "is_shard_like (StridedShard d sf) = True"
| "is_shard_like p = False"

text \<open>\<open>get_shard_key\<close> as a value: the kind and the attributes.\<close>

fun get_shard_key :: "placement \<Rightarrow> (string \<times> int \<times> int option) option" where
  "get_shard_key (StridedShard d sf) = Some (''strided'', d, Some sf)"
| "get_shard_key (Shard d) = Some (''shard'', d, None)"
| "get_shard_key p = None"

fun reshard_loop :: "(placement \<times> placement \<times> int \<times> int) list \<Rightarrow> (placement \<times> int \<times> int) list result" where
  "reshard_loop [] = Inr []"
| "reshard_loop ((cur, tgt, idx_size) # rest) =
     (if same_type cur tgt
      then if is_shard_like cur \<and> get_shard_key cur \<noteq> get_shard_key tgt then Inl ValueError
           else reshard_loop rest
      else if cur = Replicate \<and> is_shard_like tgt
      then bind_result (reshard_loop rest) (\<lambda>ps. Inr ((tgt, idx_size) # ps))
      else Inl ValueError)"

definition compute_local_reshard ::
  "int list \<Rightarrow> placement list \<Rightarrow> placement list \<Rightarrow> (int \<times> int) list \<Rightarrow> ShardInfo list result" where
  "compute_local_reshard local_shape current_placements target_placements indices_and_sizes =
     (if length current_placements \<noteq> length target_placements then Inl ValueError
      else if length current_placements \<noteq> length indices_and_sizes then Inl ValueError
      else bind_result (reshard_loop (zip current_placements (zip target_placements indices_and_sizes))) (\<lambda>ps.
        if ps = [] then Inr [\<lparr>si_global_offset = replicate (length local_shape) 0,
                              si_local_offset = replicate (length local_shape) 0, si_shape = local_shape\<rparr>]
        else compute_shards local_shape (map fst ps) (map snd ps)))"

text \<open>
  \<open>apply_local_reshard\<close> over the tensors of torch: \<open>getitem\<close> is indexing with slices from a start to an end,
  \<open>allocate\<close> is \<^verbatim>\<open>torch.empty\<close>, \<open>copy_into t sl u\<close> is the effect of \<^verbatim>\<open>t[sl].copy_(u)\<close>.
\<close>

definition src_slices :: "ShardInfo \<Rightarrow> (int \<times> int) list" where
  "src_slices chunk = map2 (\<lambda>go s. (go, go + s)) (si_global_offset chunk) (si_shape chunk)"

definition dst_slices :: "ShardInfo \<Rightarrow> (int \<times> int) list" where
  "dst_slices chunk = map2 (\<lambda>lo s. (lo, lo + s)) (si_local_offset chunk) (si_shape chunk)"

definition output_shape :: "ShardInfo list \<Rightarrow> int list" where
  "output_shape chunks =
     map (\<lambda>d. foldr max (map (\<lambda>c. si_local_offset c ! d + si_shape c ! d) (tl chunks))
                (si_local_offset (hd chunks) ! d + si_shape (hd chunks) ! d))
       [0..<length (si_shape (hd chunks))]"

definition apply_local_reshard ::
  "('t \<Rightarrow> (int \<times> int) list \<Rightarrow> 't) \<Rightarrow> (int list \<Rightarrow> 't) \<Rightarrow> ('t \<Rightarrow> (int \<times> int) list \<Rightarrow> 't \<Rightarrow> 't) \<Rightarrow> 't \<Rightarrow> ShardInfo list \<Rightarrow> 't result" where
  "apply_local_reshard getitem allocate copy_into tensor chunks =
     (if chunks = [] then Inl ValueError
      else if length chunks = 1 then Inr (getitem tensor (src_slices (chunks ! 0)))
      else Inr (foldl (\<lambda>output chunk. if 0 \<in> set (si_shape chunk) then output
                                     else copy_into output (dst_slices chunk) (getitem tensor (src_slices chunk)))
                  (allocate (output_shape chunks)) chunks))"

text \<open>What the code reads from a distributed tensor and its mesh.\<close>

record dtensor =
  dt_shape :: "int list"
  dt_placements :: "placement list"
  dt_mesh :: "int list"
  dt_coordinate :: "int list option"

definition dtensor_shards :: "dtensor \<Rightarrow> int list option \<Rightarrow> ShardInfo list result" where
  "dtensor_shards t coord =
     (case (case coord of None \<Rightarrow> dt_coordinate t | Some c \<Rightarrow> Some c) of
        None \<Rightarrow> Inr []
      | Some coord \<Rightarrow>
          if length coord \<noteq> length (dt_mesh t) then Inl ValueError
          else compute_shards (dt_shape t) (dt_placements t)
                 (map (\<lambda>i. (coord ! i, dt_mesh t ! i)) [0..<length (dt_mesh t)]))"

end
