(* ===== verification/Sharding_Split.thy ===== *)
theory Sharding_Split
  imports Sharding
begin

text \<open>
  What the ranges mean. A list of ranges stands for the list of global indices it covers (\<open>cells\<close>); a placement
  splits a list, whatever its elements are (\<open>split\<close>). The code on ranges refines \<open>split\<close>, and the parts of all the
  owners together are the list that was split.
\<close>

section \<open>Ranges as lists\<close>

definition cells_of :: "int \<times> int \<Rightarrow> int list" where
  "cells_of = (\<lambda>(g, n). map (\<lambda>k. g + int k) [0..<nat n])"

definition cells :: "ranges \<Rightarrow> int list" where
  "cells rs = concat (map cells_of rs)"

definition ranges_ok :: "ranges \<Rightarrow> bool" where
  "ranges_ok rs = list_all (\<lambda>(g, n). 0 \<le> n) rs"

lemma cells_simps [simp]:
  "cells [] = []" "cells (r # rs) = cells_of r @ cells rs" "cells (rs @ ss) = cells rs @ cells ss"
  by (simp_all add: cells_def)

lemma cells_concat: "cells (concat rss) = concat (map cells rss)"
  by (induction rss) simp_all

lemma cells_of_empty [simp]: "cells_of (g, 0) = []"
  by (simp add: cells_of_def)

lemma length_cells_of [simp]: "length (cells_of (g, n)) = nat n"
  by (simp add: cells_of_def)

lemma ranges_ok_simps [simp]:
  "ranges_ok []" "ranges_ok ((g, n) # rs) \<longleftrightarrow> 0 \<le> n \<and> ranges_ok rs" "ranges_ok (rs @ ss) \<longleftrightarrow> ranges_ok rs \<and> ranges_ok ss"
  by (simp_all add: ranges_ok_def)

lemma ranges_ok_concat: "ranges_ok (concat rss) \<longleftrightarrow> (\<forall>rs \<in> set rss. ranges_ok rs)"
  by (induction rss) auto

lemma length_cells: "ranges_ok rs \<Longrightarrow> int (length (cells rs)) = sum_list (map snd rs)"
  by (induction rs) auto

lemma sub_range:
  assumes "0 \<le> a" "a \<le> b" "b \<le> n"
  shows "cells_of (g + a, b - a) = take (nat (b - a)) (drop (nat a) (cells_of (g, n)))"
proof (rule nth_equalityI)
  show "length (cells_of (g + a, b - a)) = length (take (nat (b - a)) (drop (nat a) (cells_of (g, n))))"
    using assms by auto
  fix k assume "k < length (cells_of (g + a, b - a))"
  then show "cells_of (g + a, b - a) ! k = take (nat (b - a)) (drop (nat a) (cells_of (g, n))) ! k"
    using assms by (simp add: cells_of_def)
qed

lemma compose_overlap_cells:
  assumes "ranges_ok rs" "pos < en" "st \<le> en"
  shows "ranges_ok (compose_overlap rs st en pos) \<and>
    cells (compose_overlap rs st en pos) = take (nat (en - max st pos)) (drop (nat (st - pos)) (cells rs))"
  using assms
proof (induction rs st en pos rule: compose_overlap.induct)
  case (2 g n rs st en pos)
  let ?here = "if max pos st < min (pos + n) en then [(g + (max pos st - pos), min (pos + n) en - max pos st)] else []"
  let ?rest = "if en \<le> pos + n then [] else compose_overlap rs st en (pos + n)"
  have n: "0 \<le> n" and rs: "ranges_ok rs" using 2 by auto
  have here: "cells ?here = take (nat (en - max st pos)) (drop (nat (st - pos)) (cells_of (g, n)))"
  proof (cases "max pos st < min (pos + n) en")
    case True
    have "cells_of (g + (max pos st - pos), (min (pos + n) en - pos) - (max pos st - pos))
      = take (nat ((min (pos + n) en - pos) - (max pos st - pos))) (drop (nat (max pos st - pos)) (cells_of (g, n)))"
      using True by (intro sub_range) auto
    moreover have "nat (max pos st - pos) = nat (st - pos)" by auto
    ultimately show ?thesis using True by (auto simp: max_def min_def)
  qed (use 2 n in auto)
  have rest: "ranges_ok ?rest \<and> cells ?rest = take (nat (en - max st pos) - (nat n - nat (st - pos))) (drop (nat (st - pos) - nat n) (cells rs))"
  proof (cases "en \<le> pos + n")
    case False
    then have "ranges_ok (compose_overlap rs st en (pos + n)) \<and> cells (compose_overlap rs st en (pos + n))
      = take (nat (en - max st (pos + n))) (drop (nat (st - (pos + n))) (cells rs))"
      using 2 rs by auto
    moreover have "nat (st - (pos + n)) = nat (st - pos) - nat n" "nat (en - max st (pos + n)) = nat (en - max st pos) - (nat n - nat (st - pos))"
      using False n by auto
    ultimately show ?thesis using False by simp
  qed (use n in auto)
  have "compose_overlap ((g, n) # rs) st en pos = ?here @ ?rest" by (simp add: Let_def)
  then show ?case using here rest n by simp
qed simp

text \<open>Composition takes a slice of the list.\<close>

lemma compose_at_empty: "compose_at rs st pos = Some (a, b) \<Longrightarrow> b = 0"
  by (induction rs st pos rule: compose_at.induct) (auto split: if_splits)

lemma compose_ranges_cells:
  assumes "ranges_ok rs" "0 \<le> st" "0 \<le> n"
  shows "ranges_ok (compose_ranges rs st n)" "cells (compose_ranges rs st n) = take (nat n) (drop (nat st) (cells rs))"
proof -
  have "ranges_ok (compose_ranges rs st n) \<and> cells (compose_ranges rs st n) = take (nat n) (drop (nat st) (cells rs))"
  proof (cases "n = 0")
    case False
    then show ?thesis using assms compose_overlap_cells [of rs 0 "st + n" st] by (simp add: compose_ranges_def)
  qed (auto simp: compose_ranges_def split: option.splits dest: compose_at_empty)
  then show "ranges_ok (compose_ranges rs st n)" "cells (compose_ranges rs st n) = take (nat n) (drop (nat st) (cells rs))"
    by simp_all
qed

lemma compose_ranges_nonempty:
  assumes "ranges_ok rs" "0 \<le> st" "0 \<le> n" "st < int (length (cells rs)) \<or> n = 0"
  shows "compose_ranges rs st n \<noteq> []"
proof (cases "n = 0")
  case False
  then have "cells (compose_ranges rs st n) \<noteq> []" using assms compose_ranges_cells [of rs st n] by auto
  then show ?thesis by auto
qed (auto simp: compose_ranges_def split: option.split)

section \<open>Splitting lists\<close>

definition ceil_div :: "nat \<Rightarrow> nat \<Rightarrow> nat" where
  "ceil_div a b = (a + b - 1) div b"

definition block :: "nat \<Rightarrow> 'a list \<Rightarrow> nat \<Rightarrow> 'a list" where
  "block c xs k = take c (drop (k * c) xs)"

text \<open>The numbers that a loop from \<open>i\<close> in steps of \<open>g\<close> runs through.\<close>

definition steps :: "nat \<Rightarrow> nat \<Rightarrow> nat \<Rightarrow> nat list" where
  "steps g i n = filter (\<lambda>k. k mod g = i mod g) [i..<n]"

fun split :: "placement \<Rightarrow> nat \<Rightarrow> nat \<Rightarrow> 'a list \<Rightarrow> 'a list" where
  "split (Shard d) i g xs = block (ceil_div (length xs) g) xs i"
| "split (StridedShard d sf) i g xs =
     (let c = ceil_div (length xs) (nat sf * g)
      in concat (map (block c xs) (steps g i (ceil_div (length xs) c))))"
| "split p i g xs = xs"

lemma steps_unfold:
  assumes "0 < g"
  shows "steps g i n = (if i < n then i # steps g (i + g) n else [])"
proof (cases "i < n")
  case True
  have "filter (\<lambda>k. k mod g = i mod g) [Suc i..<min (i + g) n] = []"
  proof -
    have "k mod g \<noteq> i mod g" if "i < k" "k < i + g" for k
    proof
      assume "k mod g = i mod g"
      then have "g dvd k - i" using that by (simp add: mod_eq_dvd_iff_nat)
      then have "g \<le> k - i" using that by (auto dest: dvd_imp_le)
      then show False using that by simp
    qed
    then show ?thesis by (auto simp: filter_empty_conv)
  qed
  moreover have "[i..<n] = i # [Suc i..<min (i + g) n] @ [min (i + g) n..<n]"
    using True assms upt_add_eq_append [of "Suc i" "min (i + g) n" "n - min (i + g) n"] by (simp add: upt_conv_Cons)
  moreover have "filter P [min (i + g) n..<n] = filter P [i + g..<n]" for P
    by (cases "i + g < n") (simp_all add: min_def)
  ultimately show ?thesis using True by (simp add: steps_def)
qed (simp add: steps_def)

lemma ceil_div_int:
  assumes "0 < b"
  shows "(int a + int b - 1) div int b = int (ceil_div a b)"
proof -
  have "int a + int b - 1 = int (a + b - 1)" using assms by simp
  then show ?thesis unfolding ceil_div_def by (simp only: zdiv_int)
qed

lemma ceil_div_pos: "0 < a \<Longrightarrow> 0 < b \<Longrightarrow> 0 < ceil_div a b"
  by (simp add: ceil_div_def div_greater_zero_iff)

lemma ceil_div_le: "0 < b \<Longrightarrow> a \<le> b * ceil_div a b"
proof -
  assume b: "0 < b"
  have "(a + b - 1) div b * b + (a + b - 1) mod b = a + b - 1" by (rule div_mult_mod_eq)
  moreover have "(a + b - 1) mod b < b" using b by simp
  ultimately have "a \<le> (a + b - 1) div b * b" using b by linarith
  then show ?thesis by (simp add: ceil_div_def mult.commute)
qed

lemma block_map [simp]: "block c (map f xs) = (\<lambda>k. map f (block c xs k))"
  by (rule ext) (simp add: block_def take_map drop_map)

lemma split_map: "split p i g (map f xs) = map f (split p i g xs)"
  by (cases p) (simp_all add: map_concat Let_def comp_def)

lemma split_Nil [simp]: "split p i g [] = []"
  by (cases p) (simp_all add: block_def Let_def ceil_div_def)

section \<open>The code refines the split\<close>

lemma strided_loop_steps:
  assumes "0 < g" "n - k \<le> fuel"
  shows "strided_loop fuel m c (int n) (int g) (int k) = Inr (map (\<lambda>k. (int k * c, min c (m - int k * c))) (steps g k n))"
  using assms
proof (induction fuel arbitrary: k)
  case 0
  then show ?case by (simp add: steps_def)
next
  case (Suc fuel)
  have "strided_loop fuel m c (int n) (int g) (int k + int g) = Inr (map (\<lambda>k. (int k * c, min c (m - int k * c))) (steps g (k + g) n))"
    using Suc.IH [of "k + g"] Suc.prems by simp
  then show ?case using steps_unfold [OF Suc.prems(1), of k n] by (simp add: Let_def)
qed

lemma block_min:
  assumes "m = int (length xs)" "int k * int c \<le> m"
  shows "take (nat (min (int c) (m - int k * int c))) (drop (nat (int k * int c)) xs) = block c xs k"
proof -
  have "nat (int k * int c) = k * c" by (simp flip: of_nat_mult)
  moreover have "take (nat (min (int c) (m - int k * int c))) ys = take c ys" if "length ys = length xs - k * c" for ys :: "'a list"
  proof (cases "int c \<le> m - int k * int c")
    case False
    then have "length ys \<le> nat (min (int c) (m - int k * int c))" "length ys \<le> c"
      using that assms by (simp_all flip: of_nat_mult)
    then show ?thesis by simp
  qed simp
  ultimately show ?thesis by (simp add: block_def)
qed

lemma steps_bound: "k \<in> set (steps g i n) \<Longrightarrow> k < n"
  by (simp add: steps_def)

lemma block_start:
  assumes "k < ceil_div m c"
  shows "k * c < m"
proof -
  have c: "0 < c" using assms by (cases c) (simp_all add: ceil_div_def)
  have "Suc k * c \<le> ceil_div m c * c" using assms by (intro mult_le_mono1) simp
  also have "\<dots> \<le> m + c - 1" unfolding ceil_div_def by (rule div_times_less_eq_dividend)
  finally show ?thesis using c by simp
qed

lemma regular_cells:
  assumes "ranges_ok rs" "0 < g"
  shows "\<exists>new. split_ranges (Shard d) rs (sum_list (map snd rs)) (int g) (int i) = Inr new \<and> new \<noteq> [] \<and> ranges_ok new \<and>
    cells new = block (ceil_div (length (cells rs)) g) (cells rs) i"
proof -
  define m where "m = length (cells rs)"
  define c where "c = ceil_div m g"
  define off where "off = min (int c * int i) (int m)"
  have sum: "sum_list (map snd rs) = int m" using length_cells [OF assms(1)] m_def by simp
  have "floordiv (int m + int g - 1) (int g) = Inr (int c)"
    using assms(2) ceil_div_int [of g m] by (simp add: floordiv_def c_def)
  then have split: "split_ranges (Shard d) rs (int m) (int g) (int i) = Inr (compose_ranges rs off (min (int c) (int m - off)))"
    by (simp add: regular_shard_ranges_def off_def Let_def)
  have "take (nat (min (int c) (int m - off))) (drop (nat off) (cells rs)) = block c (cells rs) i"
  proof (cases "int c * int i \<le> int m")
    case True
    then have "off = int i * int c" by (simp add: off_def mult.commute)
    then show ?thesis using block_min [of "int m" "cells rs" i c] True by (simp add: m_def mult.commute)
  next
    case False
    then have "m \<le> i * c" by (simp add: mult.commute flip: of_nat_mult)
    then show ?thesis using False by (simp add: off_def block_def m_def)
  qed
  moreover have "0 \<le> off" "0 \<le> min (int c) (int m - off)" "off < int m \<or> min (int c) (int m - off) = 0"
    by (auto simp: off_def)
  ultimately show ?thesis
    using compose_ranges_cells [OF assms(1), of off "min (int c) (int m - off)"]
      compose_ranges_nonempty [OF assms(1), of off "min (int c) (int m - off)"] split by (simp add: sum c_def m_def)
qed

lemma strided_cells:
  assumes "ranges_ok rs" "0 < g" "0 < sf" "sum_list (map snd rs) \<noteq> 0"
  shows "\<exists>new. split_ranges (StridedShard d sf) rs (sum_list (map snd rs)) (int g) (int i) = Inr new \<and> new \<noteq> [] \<and> ranges_ok new \<and>
    cells new = split (StridedShard d sf) i g (cells rs)"
proof -
  define m where "m = length (cells rs)"
  define c where "c = ceil_div m (nat sf * g)"
  define ks where "ks = steps g i (ceil_div m c)"
  define range where "range k = (int k * int c, min (int c) (int m - int k * int c))" for k
  define new where "new = concat (map (\<lambda>(off, n). compose_ranges rs off n) (if ks = [] then [(int m, 0)] else map range ks))"
  have sum: "sum_list (map snd rs) = int m" using length_cells [OF assms(1)] m_def by simp
  then have m: "0 < m" using assms(4) by simp
  have sg: "sf * int g = int (nat sf * g)" "0 < nat sf * g" using assms by simp_all
  then have c: "0 < c" using m by (simp add: c_def ceil_div_pos)
  have "floordiv (int m + sf * int g - 1) (sf * int g) = Inr (int c)"
    unfolding sg(1) using sg(2) ceil_div_int [of "nat sf * g" m] by (simp add: floordiv_def c_def del: of_nat_mult)
  moreover have "floordiv (int m + int c - 1) (int c) = Inr (int (ceil_div m c))"
    using c ceil_div_int [of c m] by (simp add: floordiv_def)
  moreover have "strided_loop (nat (int (ceil_div m c) - int i)) (int m) (int c) (int (ceil_div m c)) (int g) (int i) = Inr (map range ks)"
    unfolding ks_def range_def using assms(2) by (intro strided_loop_steps) simp_all
  ultimately have "split_ranges (StridedShard d sf) rs (int m) (int g) (int i) = Inr new"
    by (simp add: strided_shard_ranges_def new_def)
  moreover have part: "ranges_ok (compose_ranges rs (fst (range k)) (snd (range k))) \<and>
      cells (compose_ranges rs (fst (range k)) (snd (range k))) = block c (cells rs) k \<and>
      compose_ranges rs (fst (range k)) (snd (range k)) \<noteq> []" if "k \<in> set ks" for k
  proof -
    have "k * c < m" using that steps_bound block_start unfolding ks_def by blast
    then have "int k * int c < int m" by (simp flip: of_nat_mult)
    then show ?thesis using compose_ranges_cells [OF assms(1), of "fst (range k)" "snd (range k)"] block_min [of "int m" "cells rs" k c]
        compose_ranges_nonempty [OF assms(1), of "fst (range k)" "snd (range k)"]
      by (simp add: range_def m_def)
  qed
  moreover have "new \<noteq> [] \<and> ranges_ok new \<and> cells new = concat (map (block c (cells rs)) ks)"
  proof (cases "ks = []")
    case True
    then show ?thesis using compose_ranges_cells [OF assms(1), of "int m" 0] compose_ranges_nonempty [OF assms(1), of "int m" 0]
      by (simp add: new_def)
  next
    case False
    have "map (\<lambda>k. cells (compose_ranges rs (fst (range k)) (snd (range k)))) ks = map (block c (cells rs)) ks"
      using part by (intro map_cong) auto
    moreover have "cells new = concat (map (\<lambda>k. cells (compose_ranges rs (fst (range k)) (snd (range k)))) ks)"
      using False by (simp add: new_def cells_concat comp_def case_prod_beta)
    moreover have "new \<noteq> []" using False part by (cases ks) (auto simp: new_def case_prod_beta)
    moreover have "ranges_ok new" using False part by (auto simp: new_def ranges_ok_concat case_prod_beta)
    ultimately show ?thesis by (simp only: simp_thms)
  qed
  ultimately show ?thesis by (simp add: sum c_def ks_def m_def Let_def)
qed

section \<open>All dimensions\<close>

fun dim_of :: "placement \<Rightarrow> nat option" where
  "dim_of (Shard d) = Some (nat d)"
| "dim_of (StridedShard d sf) = Some (nat d)"
| "dim_of p = None"

fun placement_ok :: "nat \<Rightarrow> placement \<Rightarrow> bool" where
  "placement_ok n (Shard d) \<longleftrightarrow> 0 \<le> d \<and> d < int n"
| "placement_ok n (StridedShard d sf) \<longleftrightarrow> 0 \<le> d \<and> d < int n \<and> 0 < sf"
| "placement_ok n Replicate \<longleftrightarrow> True"
| "placement_ok n Partial \<longleftrightarrow> False"

text \<open>A placement splits the indices of its dimension.\<close>

definition place :: "'a list list \<Rightarrow> placement \<times> nat \<times> nat \<Rightarrow> 'a list list" where
  "place xss = (\<lambda>(p, i, g). case dim_of p of None \<Rightarrow> xss | Some d \<Rightarrow> xss[d := split p i g (xss ! d)])"

definition dim_ok :: "ranges \<Rightarrow> bool" where
  "dim_ok rs \<longleftrightarrow> rs \<noteq> [] \<and> ranges_ok rs"

lemma split_ranges_refine:
  assumes "ranges_ok rs" "0 < g" "placement_ok n p" "sum_list (map snd rs) \<noteq> 0" "p \<noteq> Replicate"
  shows "\<exists>new. split_ranges p rs (sum_list (map snd rs)) (int g) (int i) = Inr new \<and> new \<noteq> [] \<and> ranges_ok new \<and>
    cells new = split p i g (cells rs)"
proof (cases p)
  case (StridedShard d sf)
  then have "0 < sf" using assms(3) by simp
  then show ?thesis unfolding StridedShard using strided_cells [OF assms(1,2) _ assms(4)] by blast
next
  case (Shard d)
  then show ?thesis using assms regular_cells [of rs g d i] by (simp only: split.simps)
qed (use assms in simp_all)

lemma apply_placement_refine:
  assumes "list_all dim_ok R" "0 < g" "placement_ok (length R) p"
  shows "\<exists>R'. apply_placement R (p, int i, int g) = Inr R' \<and> list_all dim_ok R' \<and> map cells R' = place (map cells R) (p, i, g)"
proof (cases "dim_of p")
  case None
  then have "p = Replicate" using assms(3) by (cases p) auto
  then show ?thesis using assms(1) by (simp add: apply_placement_def place_def)
next
  case (Some d)
  then have p: "placement_dim p = Inr (int d)" "p \<noteq> Replicate" "d < length R" using assms(3) by (cases p; auto)+
  then have R: "ranges_ok (R ! d)" using assms(1) by (simp add: list_all_length dim_ok_def)
  show ?thesis
  proof (cases "sum_list (map snd (R ! d)) = 0")
    case True
    then have "cells (R ! d) = []" using length_cells [OF R] by simp
    then have "place (map cells R) (p, i, g) = map cells R" using p Some by (simp add: place_def list_update_same_conv)
    then show ?thesis using p True assms(1) by (simp add: apply_placement_def)
  next
    case False
    obtain new where "split_ranges p (R ! d) (sum_list (map snd (R ! d))) (int g) (int i) = Inr new" "dim_ok new"
      "cells new = split p i g (cells (R ! d))"
      using split_ranges_refine [OF R assms(2,3) False p(2), of i] by (auto simp: dim_ok_def)
    moreover from this have "list_all dim_ok (R[d := new])" using assms(1) p(3) by (simp add: list_all_length nth_list_update)
    ultimately show ?thesis using p False Some by (simp add: apply_placement_def Let_def place_def map_update)
  qed
qed

definition with_indices :: "placement list \<Rightarrow> nat list \<Rightarrow> nat list \<Rightarrow> (placement \<times> nat \<times> nat) list" where
  "with_indices ps is gs = zip ps (zip is gs)"

definition indices_and_sizes :: "nat list \<Rightarrow> nat list \<Rightarrow> (int \<times> int) list" where
  "indices_and_sizes is gs = zip (map int is) (map int gs)"

lemma length_place [simp]: "length (place xss x) = length xss"
  by (simp add: place_def split: prod.split option.split)

lemma length_foldl_place [simp]: "length (foldl place xss xs) = length xss"
  by (induction xs arbitrary: xss) simp_all

lemma fold_placements_refine:
  assumes "list_all dim_ok R" "list_all (\<lambda>(p, i, g). placement_ok (length R) p \<and> 0 < g) qs"
  shows "\<exists>R'. fold_result apply_placement R (map (\<lambda>(p, i, g). (p, int i, int g)) qs) = Inr R' \<and> list_all dim_ok R' \<and>
    map cells R' = foldl place (map cells R) qs"
  using assms
proof (induction qs arbitrary: R)
  case (Cons q qs)
  obtain p i g where q: "q = (p, i, g)" by (cases q)
  then obtain R1 where R1: "apply_placement R (p, int i, int g) = Inr R1" "list_all dim_ok R1" "map cells R1 = place (map cells R) q"
    using apply_placement_refine [of R g p i] Cons.prems by auto
  have "length R1 = length R" using arg_cong [OF R1(3), of length] by simp
  then show ?case using Cons.IH [of R1] Cons.prems R1 q by simp
qed simp

end
