(* ===== verification/Sharding_Cover.thy ===== *)
theory Sharding_Cover
  imports Sharding_Split
begin

text \<open>
  Every element of the tensor has as many owners as the replicated dimensions of the mesh ask for, and no owner has an
  element twice.
\<close>

section \<open>Parts of a list\<close>

lemma count_list_concat: "count_list (concat xss) x = sum_list (map (\<lambda>xs. count_list xs x) xss)"
  by (induction xss) simp_all

lemma sum_list_concat: "sum_list (concat xss) = sum_list (map sum_list xss)" for xss :: "nat list list"
  by (induction xss) simp_all

lemma blocks_take: "concat (map (block c xs) [0..<n]) = take (n * c) xs"
proof (induction n)
  case (Suc n)
  have "take (n * c) xs @ take c (drop (n * c) xs) = take (n * c + c) xs" by (simp add: take_add)
  then show ?case using Suc by (simp add: block_def add.commute)
qed simp

lemma blocks_all:
  assumes "length xs \<le> n * c"
  shows "(\<Sum>k\<leftarrow>[0..<n]. count_list (block c xs k) x) = count_list xs x"
proof -
  have "(\<Sum>k\<leftarrow>[0..<n]. count_list (block c xs k) x) = count_list (concat (map (block c xs) [0..<n])) x"
    by (simp add: count_list_concat comp_def)
  also have "concat (map (block c xs) [0..<n]) = xs" using assms by (simp add: blocks_take)
  finally show ?thesis .
qed

text \<open>The loops of the owners run through disjoint numbers, and together through all of them.\<close>

lemma steps_filter:
  assumes "i < g"
  shows "steps g i n = filter (\<lambda>k. k mod g = i) [0..<n]"
proof (cases "i \<le> n")
  case True
  have "filter (\<lambda>k. k mod g = i) [0..<i] = []" using assms by (auto simp: filter_empty_conv)
  moreover have "[0..<n] = [0..<i] @ [i..<n]" using True upt_add_eq_append [of 0 i "n - i"] by simp
  ultimately show ?thesis using assms by (simp add: steps_def)
next
  case False
  then show ?thesis using assms by (auto simp: steps_def filter_empty_conv)
qed

lemma steps_sum:
  fixes f :: "nat \<Rightarrow> nat"
  assumes "0 < g"
  shows "(\<Sum>i\<leftarrow>[0..<g]. \<Sum>k\<leftarrow>steps g i n. f k) = (\<Sum>k\<leftarrow>[0..<n]. f k)"
proof -
  have "(\<Sum>i\<leftarrow>[0..<g]. \<Sum>k\<leftarrow>filter (\<lambda>k. k mod g = i) ks. f k) = (\<Sum>k\<leftarrow>ks. f k)" for ks
  proof (induction ks)
    case (Cons k ks)
    have "(\<Sum>i\<leftarrow>[0..<g]. \<Sum>j\<leftarrow>filter (\<lambda>j. j mod g = i) (k # ks). f j)
      = (\<Sum>i\<leftarrow>[0..<g]. (if k mod g = i then f k else 0) + (\<Sum>j\<leftarrow>filter (\<lambda>j. j mod g = i) ks. f j))"
      by (intro arg_cong [of _ _ sum_list] map_cong) auto
    also have "\<dots> = (\<Sum>i\<leftarrow>[0..<g]. if k mod g = i then f k else 0) + (\<Sum>j\<leftarrow>ks. f j)"
      using Cons by (simp add: sum_list_addf)
    also have "(\<Sum>i\<leftarrow>[0..<g]. if k mod g = i then f k else 0) = f k"
      using assms by (simp add: interv_sum_list_conv_sum_set_nat)
    finally show ?case by simp
  qed simp
  moreover have "(\<Sum>i\<leftarrow>[0..<g]. \<Sum>k\<leftarrow>steps g i n. f k) = (\<Sum>i\<leftarrow>[0..<g]. \<Sum>k\<leftarrow>filter (\<lambda>k. k mod g = i) [0..<n]. f k)"
    by (intro arg_cong [of _ _ sum_list] map_cong) (auto simp: steps_filter)
  ultimately show ?thesis by simp
qed

lemma split_counts:
  assumes "0 < g" "placement_ok n p" "p \<noteq> Replicate"
  shows "(\<Sum>i\<leftarrow>[0..<g]. count_list (split p i g xs) x) = count_list xs x"
proof (cases p)
  case (Shard d)
  then show ?thesis using blocks_all [of xs g] ceil_div_le [OF assms(1)] by simp
next
  case (StridedShard d sf)
  define c where "c = ceil_div (length xs) (nat sf * g)"
  have "(\<Sum>i\<leftarrow>[0..<g]. count_list (split p i g xs) x)
    = (\<Sum>i\<leftarrow>[0..<g]. \<Sum>k\<leftarrow>steps g i (ceil_div (length xs) c). count_list (block c xs k) x)"
    by (simp add: StridedShard Let_def count_list_concat comp_def c_def)
  also have "\<dots> = (\<Sum>k\<leftarrow>[0..<ceil_div (length xs) c]. count_list (block c xs k) x)" by (rule steps_sum [OF assms(1)])
  also have "\<dots> = count_list xs x"
  proof (cases "xs = []")
    case False
    then have "0 < c" using assms StridedShard by (simp add: c_def ceil_div_pos)
    then show ?thesis using blocks_all [of xs "ceil_div (length xs) c" c x] ceil_div_le [of c "length xs"] by (simp add: mult.commute)
  qed (simp add: block_def)
  finally show ?thesis .
qed (use assms in simp_all)

section \<open>Coordinates of the mesh\<close>

definition coords :: "nat list \<Rightarrow> nat list list" where
  "coords gs = product_lists (map (\<lambda>g. [0..<g]) gs)"

text \<open>How often the product of lists has a position.\<close>

definition weight :: "'a list list \<Rightarrow> 'a list \<Rightarrow> nat" where
  "weight xss x = prod_list (map2 count_list xss x)"

definition replicas :: "placement list \<Rightarrow> nat list \<Rightarrow> nat" where
  "replicas ps gs = prod_list (map2 (\<lambda>p g. if p = Replicate then g else 1) ps gs)"

lemma weight_split:
  assumes "d < length xss" "length x = length xss"
  shows "\<exists>w. \<forall>ys. weight (xss[d := ys]) x = w * count_list ys (x ! d)"
  using assms
proof (induction xss arbitrary: d x)
  case (Cons xs xss)
  then obtain v vs where x: "x = v # vs" by (cases x) auto
  show ?case
  proof (cases d)
    case 0
    then show ?thesis by (auto simp: weight_def x intro: exI [of _ "weight xss vs"])
  next
    case (Suc e)
    then obtain w where "\<forall>ys. weight (xss[e := ys]) vs = w * count_list ys (vs ! e)" using Cons x by fastforce
    then have "\<forall>ys. weight ((xs # xss)[d := ys]) x = count_list xs v * w * count_list ys (x ! d)"
      by (simp add: weight_def x Suc mult.assoc)
    then show ?thesis by blast
  qed
qed simp

lemma place_weight:
  assumes "0 < g" "placement_ok (length xss) p" "length x = length xss"
  shows "(\<Sum>i\<leftarrow>[0..<g]. weight (place xss (p, i, g)) x) = (if p = Replicate then g else 1) * weight xss x"
proof (cases "dim_of p")
  case None
  then have "p = Replicate" using assms(2) by (cases p) auto
  then show ?thesis by (simp add: place_def sum_list_triv)
next
  case (Some d)
  then have d: "d < length xss" "p \<noteq> Replicate" using assms(2) by (cases p; auto)+
  obtain w where w: "weight (xss[d := ys]) x = w * count_list ys (x ! d)" for ys using weight_split [OF d(1) assms(3)] by blast
  have "(\<Sum>i\<leftarrow>[0..<g]. weight (place xss (p, i, g)) x) = w * (\<Sum>i\<leftarrow>[0..<g]. count_list (split p i g (xss ! d)) (x ! d))"
    using Some by (simp add: place_def w sum_list_const_mult)
  also have "\<dots> = w * count_list (xss ! d) (x ! d)" by (simp add: split_counts [OF assms(1,2) d(2)])
  also have "\<dots> = weight xss x" using w [of "xss ! d"] by simp
  finally show ?thesis using d(2) by simp
qed

lemma coords_weight:
  assumes "length ps = length gs" "list_all (placement_ok (length xss)) ps" "list_all (\<lambda>g. 0 < g) gs" "length x = length xss"
  shows "(\<Sum>c\<leftarrow>coords gs. weight (foldl place xss (with_indices ps c gs)) x) = replicas ps gs * weight xss x"
  using assms
proof (induction ps gs arbitrary: xss rule: list_induct2)
  case (Cons p ps g gs)
  have IH: "(\<Sum>c\<leftarrow>coords gs. weight (foldl place (place xss (p, i, g)) (with_indices ps c gs)) x)
      = replicas ps gs * weight (place xss (p, i, g)) x" for i
    using Cons by simp
  have "(\<Sum>c\<leftarrow>coords (g # gs). weight (foldl place xss (with_indices (p # ps) c (g # gs))) x)
    = (\<Sum>i\<leftarrow>[0..<g]. \<Sum>c\<leftarrow>coords gs. weight (foldl place (place xss (p, i, g)) (with_indices ps c gs)) x)"
    by (simp add: coords_def with_indices_def map_concat comp_def sum_list_concat)
  also have "\<dots> = replicas ps gs * (\<Sum>i\<leftarrow>[0..<g]. weight (place xss (p, i, g)) x)" by (simp add: IH sum_list_const_mult)
  also have "\<dots> = replicas (p # ps) (g # gs) * weight xss x"
    using Cons.prems place_weight [of g xss p x] by (simp add: replicas_def)
  finally show ?case .
qed (simp add: coords_def with_indices_def replicas_def)

section \<open>Chunks\<close>

definition within :: "int \<times> int \<Rightarrow> int \<Rightarrow> bool" where
  "within = (\<lambda>(g, n) v. g \<le> v \<and> v < g + n)"

text \<open>The chunk has the element at a position of the global tensor.\<close>

definition holds :: "ShardInfo \<Rightarrow> int list \<Rightarrow> bool" where
  "holds k x = list_all2 within (zip (si_global_offset k) (si_shape k)) x"

lemma count_list_distinct: "distinct xs \<Longrightarrow> count_list xs v = (if v \<in> set xs then 1 else 0)"
  by (induction xs) auto

lemma count_cells_of: "count_list (cells_of r) v = (if within r v then 1 else 0)"
proof -
  obtain g n where r: "r = (g, n)" by (cases r)
  have "distinct (cells_of r)" by (simp add: cells_of_def r distinct_map inj_on_def)
  moreover have "v \<in> set (cells_of r) \<longleftrightarrow> within r v"
  proof
    assume "within r v"
    then have "v = g + int (nat (v - g))" "nat (v - g) < nat n" by (auto simp: within_def r)
    then show "v \<in> set (cells_of r)" unfolding cells_of_def r by (simp only: set_map set_upt prod.case) (rule image_eqI [where x = "nat (v - g)"], auto)
  qed (auto simp: cells_of_def within_def r)
  ultimately show ?thesis by (simp add: count_list_distinct)
qed

lemma count_ranges: "length (filter (\<lambda>r. within (snd r) v) (enumerate n rs)) = count_list (cells rs) v"
  by (induction rs arbitrary: n) (simp_all add: count_cells_of)

lemma count_products:
  assumes "length x = length xss"
  shows "length (filter (\<lambda>c. list_all2 P c x) (product_lists xss))
    = prod_list (map2 (\<lambda>xs v. length (filter (\<lambda>r. P r v) xs)) xss x)"
  using assms
proof (induction xss arbitrary: x)
  case (Cons xs xss)
  then obtain v vs where x: "x = v # vs" by (cases x) auto
  have "length (filter (\<lambda>c. list_all2 P c x) (concat (map (\<lambda>y. map (Cons y) (product_lists xss)) ys)))
    = length (filter (\<lambda>r. P r v) ys) * length (filter (\<lambda>c. list_all2 P c vs) (product_lists xss))" for ys
    by (induction ys) (simp_all add: x comp_def filter_map)
  then show ?case using Cons x by simp
qed simp

lemma zip_chunk: "zip (si_global_offset (chunk_of D combo)) (si_shape (chunk_of D combo)) = map snd combo"
  by (simp add: chunk_of_def zip_map_map) (simp add: zip_same_conv_map)

lemma count_chunks:
  assumes "length x = length R"
  shows "length (filter (\<lambda>k. holds k x) (map (chunk_of D) (product_lists (map (enumerate 0) R)))) = weight (map cells R) x"
proof -
  have "holds (chunk_of D c) x = list_all2 (\<lambda>r v. within (snd r) v) c x" for c
    unfolding holds_def zip_chunk by (simp add: list.rel_map)
  then have "length (filter (\<lambda>k. holds k x) (map (chunk_of D) (product_lists (map (enumerate 0) R))))
    = length (filter (\<lambda>c. list_all2 (\<lambda>r v. within (snd r) v) c x) (product_lists (map (enumerate 0) R)))"
    by (simp add: filter_map comp_def)
  also have "\<dots> = prod_list (map2 (\<lambda>xs v. length (filter (\<lambda>r. within (snd r) v) xs)) (map (enumerate 0) R) x)"
    using assms by (simp add: count_products)
  also have "\<dots> = weight (map cells R) x" by (simp add: weight_def zip_map1 comp_def case_prod_beta count_ranges)
  finally show ?thesis .
qed

section \<open>Shards of an owner\<close>

definition in_tensor :: "int list \<Rightarrow> int list \<Rightarrow> bool" where
  "in_tensor shape x = list_all2 (\<lambda>v n. 0 \<le> v \<and> v < n) x shape"

definition all_cells :: "int list \<Rightarrow> int list list" where
  "all_cells shape = map (\<lambda>n. cells_of (0, n)) shape"

definition mesh_ok :: "int list \<Rightarrow> placement list \<Rightarrow> nat list \<Rightarrow> bool" where
  "mesh_ok shape ps gs \<longleftrightarrow> list_all (\<lambda>n. 0 \<le> n) shape \<and> list_all (placement_ok (length shape)) ps \<and>
     list_all (\<lambda>g. 0 < g) gs \<and> length ps = length gs"

lemma coords_length: "c \<in> set (coords gs) \<Longrightarrow> length c = length gs"
  unfolding coords_def by (auto dest: in_set_product_lists_length)

lemma weight_all: "in_tensor shape x \<Longrightarrow> weight (all_cells shape) x = 1"
proof (induction shape arbitrary: x)
  case (Cons n shape)
  then show ?case by (auto simp: in_tensor_def list_all2_Cons2 weight_def all_cells_def count_cells_of within_def)
qed (simp add: in_tensor_def weight_def all_cells_def)

lemma with_indicesD: "(p, i, g) \<in> set (with_indices ps c gs) \<Longrightarrow> p \<in> set ps \<and> g \<in> set gs"
  unfolding with_indices_def by (metis set_zip_leftD set_zip_rightD)

text \<open>The shards of an owner, from the ranges the loop ends with.\<close>

lemma compute_shards_ranges:
  assumes "mesh_ok shape ps gs" "length c = length gs"
  shows "\<exists>R. compute_shards shape ps (indices_and_sizes c gs)
      = Inr (map (chunk_of (map (local_offsets 0) R)) (product_lists (map (enumerate 0) R))) \<and>
    list_all dim_ok R \<and> map cells R = foldl place (all_cells shape) (with_indices ps c gs)"
proof -
  let ?R = "map (\<lambda>n. [(0, n)]) shape :: ranges list"
  have "list_all dim_ok ?R" using assms(1) by (auto simp: mesh_ok_def list_all_iff dim_ok_def)
  moreover have "list_all (\<lambda>(p, i, g). placement_ok (length ?R) p \<and> 0 < g) (with_indices ps c gs)"
    using assms(1) by (auto simp: mesh_ok_def list_all_iff dest: with_indicesD)
  moreover have "map (\<lambda>(p, i, g). (p, int i, int g)) (with_indices ps c gs) = zip ps (indices_and_sizes c gs)"
    by (rule nth_equalityI) (simp_all add: with_indices_def indices_and_sizes_def)
  moreover have "map cells ?R = all_cells shape" by (simp add: all_cells_def comp_def)
  moreover have "length ps = length (indices_and_sizes c gs)" using assms by (simp add: mesh_ok_def indices_and_sizes_def)
  ultimately show ?thesis using fold_placements_refine [of ?R "with_indices ps c gs"] by (auto simp: compute_shards_def)
qed

definition owned_times :: "int list \<Rightarrow> placement list \<Rightarrow> nat list \<Rightarrow> int list \<Rightarrow> nat list \<Rightarrow> nat" where
  "owned_times shape ps gs x c =
     (case compute_shards shape ps (indices_and_sizes c gs) of Inl e \<Rightarrow> 0 | Inr ks \<Rightarrow> length (filter (\<lambda>k. holds k x) ks))"

lemma owned_weight:
  assumes "mesh_ok shape ps gs" "length c = length gs" "in_tensor shape x"
  shows "owned_times shape ps gs x c = weight (foldl place (all_cells shape) (with_indices ps c gs)) x"
proof -
  obtain R where R: "compute_shards shape ps (indices_and_sizes c gs)
      = Inr (map (chunk_of (map (local_offsets 0) R)) (product_lists (map (enumerate 0) R)))"
    "map cells R = foldl place (all_cells shape) (with_indices ps c gs)"
    using compute_shards_ranges [OF assms(1,2)] by blast
  have "length x = length R"
    using arg_cong [OF R(2), of length] assms(3) by (simp add: all_cells_def in_tensor_def list_all2_lengthD)
  then show ?thesis using count_chunks [of x R] by (simp add: owned_times_def R)
qed

lemma weight_split_le:
  assumes "placement_ok (length xss) p" "i < g" "length x = length xss"
  shows "weight (place xss (p, i, g)) x \<le> weight xss x"
proof (cases "p = Replicate")
  case False
  have "weight (place xss (p, i, g)) x \<le> (\<Sum>i\<leftarrow>[0..<g]. weight (place xss (p, i, g)) x)"
    using assms(2) by (intro member_le_sum_list) auto
  then show ?thesis using place_weight [OF _ assms(1,3), of g] assms(2) False by simp
qed (simp add: place_def)

lemma weight_foldl_le:
  assumes "list_all (\<lambda>(p, i, g). placement_ok (length xss) p \<and> i < g) qs" "length x = length xss"
  shows "weight (foldl place xss qs) x \<le> weight xss x"
  using assms
proof (induction qs arbitrary: xss)
  case (Cons q qs)
  obtain p i g where q: "q = (p, i, g)" by (cases q)
  have "weight (foldl place (place xss q) qs) x \<le> weight (place xss q) x" using Cons by simp
  also have "\<dots> \<le> weight xss x" using Cons.prems weight_split_le [of xss p i g x] by (simp add: q)
  finally show ?case by simp
qed simp

lemma coords_less: "c \<in> set (coords gs) \<Longrightarrow> list_all2 (<) c gs"
  by (induction gs arbitrary: c) (auto simp: coords_def)

text \<open>C17: Every coordinate of the mesh gets its shards. Every element of the tensor is in the shards of as many
  owners as the replicated dimensions of the mesh ask for, one for every combination of their indices, and no
  owner has an element twice.\<close>

theorem shards_cover:
  assumes "mesh_ok shape ps gs" "in_tensor shape x"
  shows "(\<forall>c \<in> set (coords gs). (\<exists>ks. compute_shards shape ps (indices_and_sizes c gs) = Inr ks) \<and> owned_times shape ps gs x c \<le> 1) \<and>
    (\<Sum>c\<leftarrow>coords gs. owned_times shape ps gs x c) = replicas ps gs"
proof
  have len: "length x = length (all_cells shape)" using assms(2) by (simp add: in_tensor_def all_cells_def list_all2_lengthD)
  have ps: "list_all (placement_ok (length (all_cells shape))) ps" using assms(1) by (simp add: mesh_ok_def all_cells_def)
  show "\<forall>c \<in> set (coords gs). (\<exists>ks. compute_shards shape ps (indices_and_sizes c gs) = Inr ks) \<and> owned_times shape ps gs x c \<le> 1"
  proof
    fix c assume c: "c \<in> set (coords gs)"
    have "list_all (\<lambda>(p, i, g). placement_ok (length (all_cells shape)) p \<and> i < g) (with_indices ps c gs)"
      using ps coords_less [OF c]
      by (auto simp: with_indices_def list_all_iff list_all2_conv_all_nth in_set_zip)
    then have "weight (foldl place (all_cells shape) (with_indices ps c gs)) x \<le> weight (all_cells shape) x"
      using len by (rule weight_foldl_le)
    then show "(\<exists>ks. compute_shards shape ps (indices_and_sizes c gs) = Inr ks) \<and> owned_times shape ps gs x c \<le> 1"
      using owned_weight [OF assms(1) coords_length [OF c] assms(2)] weight_all [OF assms(2)]
        compute_shards_ranges [OF assms(1) coords_length [OF c]] by auto
  qed
  have "(\<Sum>c\<leftarrow>coords gs. owned_times shape ps gs x c) = (\<Sum>c\<leftarrow>coords gs. weight (foldl place (all_cells shape) (with_indices ps c gs)) x)"
    using owned_weight [OF assms(1) coords_length assms(2)] by (intro arg_cong [of _ _ sum_list] map_cong) auto
  also have "\<dots> = replicas ps gs * weight (all_cells shape) x"
    using assms(1) ps len by (intro coords_weight) (simp_all add: mesh_ok_def)
  finally show "(\<Sum>c\<leftarrow>coords gs. owned_times shape ps gs x c) = replicas ps gs" using weight_all [OF assms(2)] by simp
qed

theorem shards_cover_witness:
  "(\<Sum>c\<leftarrow>coords [2, 2, 2]. owned_times [7, 3] [StridedShard 0 2, Replicate, Shard 0] [2, 2, 2] [4, 1] c) = 2 \<and>
   owned_times [7, 3] [StridedShard 0 2, Replicate, Shard 0] [2, 2, 2] [4, 1] [0, 1, 1] \<le> 1"
proof -
  have "mesh_ok [7, 3] [StridedShard 0 2, Replicate, Shard 0] [2, 2, 2]" "in_tensor [7, 3] [4, 1]"
    by (simp_all add: mesh_ok_def in_tensor_def)
  from shards_cover [OF this] have "owned_times [7, 3] [StridedShard 0 2, Replicate, Shard 0] [2, 2, 2] [4, 1] c \<le> 1"
    if "c \<in> set (coords [2, 2, 2])" for c using that by blast
  moreover have "[0, 1, 1] \<in> set (coords [2, 2, 2])" by code_simp
  moreover have "replicas [StridedShard 0 2, Replicate, Shard 0] [2, 2, 2] = 2" by code_simp
  ultimately show ?thesis using shards_cover [of "[7, 3]" _ _ "[4, 1]", OF \<open>mesh_ok _ _ _\<close> \<open>in_tensor _ _\<close>] by metis
qed

end
