(* ===== verification/Sharding_Reshard.thy ===== *)
theory Sharding_Reshard
  imports Sharding_Cover
begin

text \<open>
  The local tensors of the owners: where the elements of the shards lie in them, and what resharding without
  communication does to them.
\<close>

section \<open>Local positions\<close>

text \<open>The chunk covers a position of the local tensor, and the global position of the element there.\<close>

definition holds_local :: "ShardInfo \<Rightarrow> int list \<Rightarrow> bool" where
  "holds_local k y = list_all2 within (zip (si_local_offset k) (si_shape k)) y"

definition global_of :: "ShardInfo \<Rightarrow> int list \<Rightarrow> int list" where
  "global_of k y = map2 (\<lambda>(l, g) v. g + (v - l)) (zip (si_local_offset k) (si_global_offset k)) y"

definition shards_of :: "ranges list \<Rightarrow> ShardInfo list" where
  "shards_of R = map (chunk_of (map (local_offsets 0) R)) (product_lists (map (enumerate 0) R))"

text \<open>The local tensor as a product of lists of indices.\<close>

definition in_local :: "'a list list \<Rightarrow> int list \<Rightarrow> bool" where
  "in_local xss y = list_all2 (\<lambda>xs v. 0 \<le> v \<and> v < int (length xs)) xss y"

definition pick :: "'a list list \<Rightarrow> int list \<Rightarrow> 'a list" where
  "pick xss y = map2 (\<lambda>xs v. xs ! nat v) xss y"

lemma length_local_offsets [simp]: "length (local_offsets s rs) = length rs"
  by (induction s rs rule: local_offsets.induct) simp_all

lemma local_offset_cells:
  assumes "ranges_ok rs" "j < length rs" "within (local_offsets s rs ! j, snd (rs ! j)) v"
  shows "s \<le> v \<and> v < s + int (length (cells rs)) \<and> cells rs ! nat (v - s) = fst (rs ! j) + (v - local_offsets s rs ! j)"
  using assms
proof (induction s rs arbitrary: j rule: local_offsets.induct)
  case (2 s g n rs)
  show ?case
  proof (cases j)
    case 0
    then have "s \<le> v" "v < s + n" using 2 by (simp_all add: within_def)
    moreover from this have "cells_of (g, n) ! nat (v - s) = g + (v - s)" by (simp add: cells_of_def)
    ultimately show ?thesis using 0 by (simp add: nth_append)
  next
    case (Suc i)
    then have "s + n \<le> v \<and> v < s + n + int (length (cells rs)) \<and> cells rs ! nat (v - (s + n)) = fst (rs ! i) + (v - local_offsets (s + n) rs ! i)"
      using 2 by simp
    moreover from this have "nat (v - s) - nat n = nat (v - (s + n))" "\<not> nat (v - s) < nat n" using 2 by auto
    ultimately show ?thesis using Suc 2 by (simp add: nth_append)
  qed
qed simp

lemma local_offset_exists:
  assumes "ranges_ok rs" "s \<le> v" "v < s + int (length (cells rs))"
  shows "\<exists>j < length rs. within (local_offsets s rs ! j, snd (rs ! j)) v"
  using assms
proof (induction s rs rule: local_offsets.induct)
  case (2 s g n rs)
  show ?case
  proof (cases "v < s + n")
    case True
    then show ?thesis using 2 by (intro exI [of _ 0]) (simp add: within_def)
  next
    case False
    then obtain j where "j < length rs" "within (local_offsets (s + n) rs ! j, snd (rs ! j)) v" using 2 by auto
    then show ?thesis by (intro exI [of _ "Suc j"]) simp
  qed
qed simp

section \<open>Chunks and local positions\<close>

lemma combos:
  "(c :: (nat \<times> 'a) list) \<in> set (product_lists (map (enumerate 0) R)) \<longleftrightarrow>
    length c = length R \<and> (\<forall>d < length R. fst (c ! d) < length (R ! d) \<and> snd (c ! d) = R ! d ! fst (c ! d))"
proof -
  have member: "r \<in> set (enumerate 0 rs) \<longleftrightarrow> fst r < length rs \<and> snd r = rs ! fst r" for r and rs :: "'a list"
    by (cases r) (auto simp: in_set_enumerate_eq)
  show ?thesis unfolding product_lists_set by (simp add: list_all2_conv_all_nth member cong: conj_cong)
qed

lemma chunk_of_nth:
  assumes "length c = length R" "d < length R"
  shows "length (si_local_offset (chunk_of (map (local_offsets 0) R) c)) = length R"
    "length (si_global_offset (chunk_of (map (local_offsets 0) R) c)) = length R"
    "length (si_shape (chunk_of (map (local_offsets 0) R) c)) = length R"
    "si_local_offset (chunk_of (map (local_offsets 0) R) c) ! d = local_offsets 0 (R ! d) ! fst (c ! d)"
    "si_global_offset (chunk_of (map (local_offsets 0) R) c) ! d = fst (snd (c ! d))"
    "si_shape (chunk_of (map (local_offsets 0) R) c) ! d = snd (snd (c ! d))"
  using assms by (simp_all add: chunk_of_def nth_enumerate_eq)

lemma shards_of_local:
  assumes "list_all dim_ok R" "k \<in> set (shards_of R)" "holds_local k y"
  shows "in_local (map cells R) y \<and> global_of k y = pick (map cells R) y"
proof -
  obtain c where k: "k = chunk_of (map (local_offsets 0) R) c" and c: "c \<in> set (product_lists (map (enumerate 0) R))"
    using assms(2) by (auto simp: shards_of_def)
  note c' = c [unfolded combos]
  note nth = chunk_of_nth [of c R, folded k]
  have len: "length (si_local_offset k) = length R" "length (si_global_offset k) = length R" "length (si_shape k) = length R"
    using c' by (simp_all add: k chunk_of_def)
  then have y: "length y = length R" using assms(3) by (simp add: holds_local_def list_all2_conv_all_nth)
  have at: "0 \<le> y ! d \<and> y ! d < int (length (cells (R ! d))) \<and>
      cells (R ! d) ! nat (y ! d) = si_global_offset k ! d + (y ! d - si_local_offset k ! d)" if "d < length R" for d
  proof -
    have "within (si_local_offset k ! d, si_shape k ! d) (y ! d)"
      using assms(3) that len by (simp add: holds_local_def list_all2_conv_all_nth)
    then show ?thesis
      using local_offset_cells [of "R ! d" "fst (c ! d)" 0 "y ! d"] assms(1) c' nth that
      by (simp add: list_all_length dim_ok_def)
  qed
  then have "in_local (map cells R) y" using y by (simp add: in_local_def list_all2_conv_all_nth)
  moreover have "global_of k y = pick (map cells R) y"
    using at y len by (intro nth_equalityI) (simp_all add: global_of_def pick_def)
  ultimately show ?thesis by simp
qed

lemma shards_of_exists:
  assumes "list_all dim_ok R" "in_local (map cells R) y"
  shows "\<exists>k \<in> set (shards_of R). holds_local k y"
proof -
  have y: "length y = length R" "\<And>d. d < length R \<Longrightarrow> 0 \<le> y ! d \<and> y ! d < int (length (cells (R ! d)))"
    using assms(2) by (auto simp: in_local_def list_all2_conv_all_nth)
  have "\<forall>d < length R. \<exists>j < length (R ! d). within (local_offsets 0 (R ! d) ! j, snd (R ! d ! j)) (y ! d)"
    using local_offset_exists [of "R ! d" 0 "y ! d" for d] assms(1) y(2) by (auto simp: list_all_length dim_ok_def)
  then obtain j where j: "\<And>d. d < length R \<Longrightarrow> j d < length (R ! d) \<and> within (local_offsets 0 (R ! d) ! j d, snd (R ! d ! j d)) (y ! d)"
    by metis
  define c where "c = map (\<lambda>d. (j d, R ! d ! j d)) [0..<length R]"
  define k where "k = chunk_of (map (local_offsets 0) R) c"
  have c: "c \<in> set (product_lists (map (enumerate 0) R))" unfolding combos using j by (simp add: c_def)
  have len: "length c = length R" by (simp add: c_def)
  note nth = chunk_of_nth [OF len, folded k_def]
  have "holds_local k y"
    unfolding holds_local_def
  proof (rule list_all2_all_nthI)
    show "length (zip (si_local_offset k) (si_shape k)) = length y" using y(1) len by (simp add: k_def chunk_of_def)
    fix d assume "d < length (zip (si_local_offset k) (si_shape k))"
    then have "d < length R" using len by (simp add: k_def chunk_of_def)
    then show "within (zip (si_local_offset k) (si_shape k) ! d) (y ! d)" using j nth by (simp add: c_def)
  qed
  then show ?thesis using c by (auto simp: shards_of_def k_def)
qed

text \<open>A local tensor with the elements the shards say.\<close>

definition laid_out :: "('t \<Rightarrow> int list \<Rightarrow> 'a) \<Rightarrow> 't \<Rightarrow> (int list \<Rightarrow> 'a) \<Rightarrow> ShardInfo list \<Rightarrow> bool" where
  "laid_out elem t data ks \<longleftrightarrow> (\<forall>k \<in> set ks. \<forall>y. holds_local k y \<longrightarrow> elem t y = data (global_of k y))"

lemma laid_out_iff:
  assumes "list_all dim_ok R"
  shows "laid_out elem t data (shards_of R) \<longleftrightarrow> (\<forall>y. in_local (map cells R) y \<longrightarrow> elem t y = data (pick (map cells R) y))"
  unfolding laid_out_def using shards_of_local [OF assms] shards_of_exists [OF assms] by metis

section \<open>Copying chunks\<close>

text \<open>
  Indexing and copying of tensors as torch documents them, for slices that are empty or lie in the tensor: \<open>shp\<close> is the
  shape, \<open>elem\<close> an element.
\<close>

definition fits :: "(int \<times> int) list \<Rightarrow> int list \<Rightarrow> bool" where
  "fits sl shape = list_all2 (\<lambda>(a, b) n. a = b \<or> 0 \<le> a \<and> a \<le> b \<and> b \<le> n) sl shape"

definition extents :: "(int \<times> int) list \<Rightarrow> int list" where
  "extents sl = map (\<lambda>(a, b). b - a) sl"

definition torch_laws ::
  "('t \<Rightarrow> int list) \<Rightarrow> ('t \<Rightarrow> int list \<Rightarrow> 'a) \<Rightarrow> ('t \<Rightarrow> (int \<times> int) list \<Rightarrow> 't) \<Rightarrow> (int list \<Rightarrow> 't) \<Rightarrow>
   ('t \<Rightarrow> (int \<times> int) list \<Rightarrow> 't \<Rightarrow> 't) \<Rightarrow> bool" where
  "torch_laws shp elem getitem allocate copy_into \<longleftrightarrow>
     (\<forall>t sl. fits sl (shp t) \<longrightarrow> shp (getitem t sl) = extents sl \<and>
        (\<forall>y. in_tensor (extents sl) y \<longrightarrow> elem (getitem t sl) y = elem t (map2 (\<lambda>(a, b) v. a + v) sl y))) \<and>
     (\<forall>shape. list_all (\<lambda>n. 0 \<le> n) shape \<longrightarrow> shp (allocate shape) = shape) \<and>
     (\<forall>t sl u. fits sl (shp t) \<longrightarrow> shp u = extents sl \<longrightarrow> shp (copy_into t sl u) = shp t \<and>
        (\<forall>y. elem (copy_into t sl u) y =
           (if list_all2 (\<lambda>(a, b) v. a \<le> v \<and> v < b) sl y then elem u (map2 (\<lambda>(a, b) v. v - a) sl y) else elem t y)))"

lemma torch_lawsD:
  assumes "torch_laws shp elem getitem allocate copy_into"
  shows "fits sl (shp t) \<Longrightarrow> shp (getitem t sl) = extents sl"
    "fits sl (shp t) \<Longrightarrow> in_tensor (extents sl) y \<Longrightarrow> elem (getitem t sl) y = elem t (map2 (\<lambda>(a, b) v. a + v) sl y)"
    "list_all (\<lambda>n. 0 \<le> n) shape \<Longrightarrow> shp (allocate shape) = shape"
    "fits sl (shp t) \<Longrightarrow> shp u = extents sl \<Longrightarrow> shp (copy_into t sl u) = shp t"
    "fits sl (shp t) \<Longrightarrow> shp u = extents sl \<Longrightarrow> elem (copy_into t sl u) y =
       (if list_all2 (\<lambda>(a, b) v. a \<le> v \<and> v < b) sl y then elem u (map2 (\<lambda>(a, b) v. v - a) sl y) else elem t y)"
  using assms unfolding torch_laws_def by blast+

text \<open>A chunk between a source and a target of given shapes.\<close>

definition chunk_ok :: "int list \<Rightarrow> int list \<Rightarrow> ShardInfo \<Rightarrow> bool" where
  "chunk_ok src dst k \<longleftrightarrow> length (si_local_offset k) = length (si_shape k) \<and> length (si_global_offset k) = length (si_shape k) \<and>
     fits (src_slices k) src \<and> fits (dst_slices k) dst"

lemma slices_nth:
  assumes "length (si_local_offset k) = length (si_shape k)" "length (si_global_offset k) = length (si_shape k)"
  shows "length (src_slices k) = length (si_shape k)" "length (dst_slices k) = length (si_shape k)"
    "d < length (si_shape k) \<Longrightarrow> src_slices k ! d = (si_global_offset k ! d, si_global_offset k ! d + si_shape k ! d)"
    "d < length (si_shape k) \<Longrightarrow> dst_slices k ! d = (si_local_offset k ! d, si_local_offset k ! d + si_shape k ! d)"
  using assms by (simp_all add: src_slices_def dst_slices_def)

lemma extents_slices:
  assumes "length (si_local_offset k) = length (si_shape k)" "length (si_global_offset k) = length (si_shape k)"
  shows "extents (src_slices k) = si_shape k" "extents (dst_slices k) = si_shape k"
  using slices_nth [OF assms] by (auto simp: extents_def intro!: nth_equalityI)

lemma copy_chunk:
  assumes "torch_laws shp elem getitem allocate copy_into" "chunk_ok (shp t) (shp out) k"
  shows "shp (copy_into out (dst_slices k) (getitem t (src_slices k))) = shp out"
    "elem (copy_into out (dst_slices k) (getitem t (src_slices k))) y = (if holds_local k y then elem t (global_of k y) else elem out y)"
proof -
  have len: "length (si_local_offset k) = length (si_shape k)" "length (si_global_offset k) = length (si_shape k)"
    and fits: "fits (src_slices k) (shp t)" "fits (dst_slices k) (shp out)"
    using assms(2) by (simp_all add: chunk_ok_def)
  note nth = slices_nth [OF len] and ext = extents_slices [OF len] and law = torch_lawsD [OF assms(1)]
  have sh: "shp (getitem t (src_slices k)) = extents (dst_slices k)" using law(1) [OF fits(1)] ext by simp
  then show "shp (copy_into out (dst_slices k) (getitem t (src_slices k))) = shp out" using law(4) [OF fits(2)] by simp
  have inside: "list_all2 (\<lambda>(a, b) v. a \<le> v \<and> v < b) (dst_slices k) y \<longleftrightarrow> holds_local k y"
    using nth len by (auto simp: holds_local_def within_def list_all2_conv_all_nth)
  have "elem (getitem t (src_slices k)) (map2 (\<lambda>(a, b) v. v - a) (dst_slices k) y) = elem t (global_of k y)" if "holds_local k y"
  proof -
    have y: "length y = length (si_shape k)" using that len by (simp add: holds_local_def list_all2_conv_all_nth)
    have "in_tensor (extents (src_slices k)) (map2 (\<lambda>(a, b) v. v - a) (dst_slices k) y)"
      unfolding ext in_tensor_def using that nth len y
      by (auto simp: holds_local_def within_def list_all2_conv_all_nth algebra_simps)
    moreover have "map2 (\<lambda>(a, b) v. a + v) (src_slices k) (map2 (\<lambda>(a, b) v. v - a) (dst_slices k) y) = global_of k y"
      using nth len y by (intro nth_equalityI) (auto simp: global_of_def)
    ultimately show ?thesis using law(2) [OF fits(1)] by simp
  qed
  then show "elem (copy_into out (dst_slices k) (getitem t (src_slices k))) y = (if holds_local k y then elem t (global_of k y) else elem out y)"
    using law(5) [OF fits(2) sh] inside by simp
qed

text \<open>The loop over the chunks, when the chunks agree on what belongs at a position.\<close>

definition copy_step :: "('t \<Rightarrow> (int \<times> int) list \<Rightarrow> 't) \<Rightarrow> ('t \<Rightarrow> (int \<times> int) list \<Rightarrow> 't \<Rightarrow> 't) \<Rightarrow> 't \<Rightarrow> 't \<Rightarrow> ShardInfo \<Rightarrow> 't" where
  "copy_step getitem copy_into t out k =
     (if 0 \<in> set (si_shape k) then out else copy_into out (dst_slices k) (getitem t (src_slices k)))"

lemma copy_chunks:
  assumes "torch_laws shp elem getitem allocate copy_into" "list_all (chunk_ok (shp t) (shp out)) ks"
  shows "shp (foldl (copy_step getitem copy_into t) out ks) = shp out \<and>
    ((\<forall>k \<in> set ks. holds_local k y \<longrightarrow> elem t (global_of k y) = v) \<longrightarrow> elem out y = v \<or> (\<exists>k \<in> set ks. holds_local k y) \<longrightarrow>
      elem (foldl (copy_step getitem copy_into t) out ks) y = v)"
  using assms(2)
proof (induction ks arbitrary: out)
  case (Cons k ks)
  let ?out = "copy_step getitem copy_into t out k"
  have "shp ?out = shp out" using copy_chunk(1) [OF assms(1)] Cons.prems by (simp add: copy_step_def)
  moreover have "elem ?out y = (if holds_local k y then elem t (global_of k y) else elem out y)"
  proof (cases "0 \<in> set (si_shape k)")
    case True
    then have "\<not> holds_local k y"
      using Cons.prems by (auto simp: holds_local_def within_def chunk_ok_def list_all2_conv_all_nth in_set_conv_nth)
    then show ?thesis using True by (simp add: copy_step_def)
  next
    case False
    then show ?thesis using copy_chunk(2) [OF assms(1)] Cons.prems by (simp add: copy_step_def)
  qed
  ultimately show ?case using Cons.IH [of ?out] Cons.prems by auto
qed simp

section \<open>Applying shards to a tensor\<close>

abbreviation sizes :: "ranges list \<Rightarrow> int list" where
  "sizes R \<equiv> map (int \<circ> length \<circ> cells) R"

definition inside :: "ranges list \<Rightarrow> int list \<Rightarrow> bool" where
  "inside R shape = list_all2 (\<lambda>rs n. list_all (\<lambda>v. 0 \<le> v \<and> v < n) (cells rs)) R shape"

lemma range_end:
  assumes "ranges_ok rs" "j < length rs" "0 < snd (rs ! j)"
  shows "0 \<le> local_offsets 0 rs ! j" "local_offsets 0 rs ! j + snd (rs ! j) \<le> int (length (cells rs))"
    "fst (rs ! j) \<in> set (cells rs)" "fst (rs ! j) + snd (rs ! j) - 1 \<in> set (cells rs)"
proof -
  let ?l = "local_offsets 0 rs ! j" and ?n = "snd (rs ! j)"
  have first: "0 \<le> ?l \<and> ?l < int (length (cells rs)) \<and> cells rs ! nat ?l = fst (rs ! j)"
    using local_offset_cells [OF assms(1,2), of 0 ?l] assms(3) by (simp add: within_def)
  have final: "0 \<le> ?l + ?n - 1 \<and> ?l + ?n - 1 < int (length (cells rs)) \<and> cells rs ! nat (?l + ?n - 1) = fst (rs ! j) + ?n - 1"
    using local_offset_cells [OF assms(1,2), of 0 "?l + ?n - 1"] assms(3) by (simp add: within_def)
  show "0 \<le> ?l" "?l + ?n \<le> int (length (cells rs))" using first final by simp_all
  show "fst (rs ! j) \<in> set (cells rs)" "fst (rs ! j) + ?n - 1 \<in> set (cells rs)"
    using first final nth_mem [of "nat ?l" "cells rs"] nth_mem [of "nat (?l + ?n - 1)" "cells rs"] by (simp_all add: nat_less_iff)
qed

lemma shards_of_nth:
  assumes "k \<in> set (shards_of R)"
  obtains j where "length (si_local_offset k) = length R" "length (si_global_offset k) = length R" "length (si_shape k) = length R"
    "\<And>d. d < length R \<Longrightarrow> j d < length (R ! d) \<and> si_local_offset k ! d = local_offsets 0 (R ! d) ! j d \<and>
      si_global_offset k ! d = fst (R ! d ! j d) \<and> si_shape k ! d = snd (R ! d ! j d)"
proof -
  obtain c where k: "k = chunk_of (map (local_offsets 0) R) c" and c: "c \<in> set (product_lists (map (enumerate 0) R))"
    using assms by (auto simp: shards_of_def)
  note c' = c [unfolded combos]
  then have len: "length (si_local_offset k) = length R" "length (si_global_offset k) = length R" "length (si_shape k) = length R"
    by (simp_all add: k chunk_of_def)
  show thesis by (rule that [of "\<lambda>d. fst (c ! d)", OF len]) (use c' chunk_of_nth [of c R] k in auto)
qed

lemma shards_of_chunk_ok:
  assumes "list_all dim_ok R" "inside R shape" "k \<in> set (shards_of R)"
  shows "chunk_ok shape (sizes R) k"
proof -
  obtain j where len: "length (si_local_offset k) = length R" "length (si_global_offset k) = length R" "length (si_shape k) = length R"
    and nth: "\<And>d. d < length R \<Longrightarrow> j d < length (R ! d) \<and> si_local_offset k ! d = local_offsets 0 (R ! d) ! j d \<and>
      si_global_offset k ! d = fst (R ! d ! j d) \<and> si_shape k ! d = snd (R ! d ! j d)"
    using shards_of_nth [OF assms(3)] by blast
  have R: "ranges_ok (R ! d)" "0 \<le> snd (R ! d ! j d)" if "d < length R" for d
    using assms(1) nth [OF that] that by (auto simp: list_all_length dim_ok_def ranges_ok_def case_prod_beta)
  have "0 \<le> v \<and> v < shape ! d" if "d < length R" "v \<in> set (cells (R ! d))" for d v
    using assms(2) that by (auto simp: inside_def list_all2_conv_all_nth list_all_iff)
  then have "snd (R ! d ! j d) = 0 \<or> 0 \<le> fst (R ! d ! j d) \<and> fst (R ! d ! j d) + snd (R ! d ! j d) \<le> shape ! d" if "d < length R" for d
    using range_end(3,4) [OF R(1) [OF that], of "j d"] nth [OF that] R(2) [OF that] that by force
  moreover have "length shape = length R" using assms(2) by (simp add: inside_def list_all2_lengthD)
  ultimately have "fits (src_slices k) shape"
    using nth len R slices_nth [of k] by (auto simp: fits_def list_all2_conv_all_nth)
  moreover have "snd (R ! d ! j d) = 0 \<or> 0 \<le> local_offsets 0 (R ! d) ! j d \<and>
      local_offsets 0 (R ! d) ! j d + snd (R ! d ! j d) \<le> int (length (cells (R ! d)))" if "d < length R" for d
    using range_end(1,2) [OF R(1) [OF that], of "j d"] nth [OF that] R(2) [OF that] by force
  then have "fits (dst_slices k) (sizes R)"
    using nth len R slices_nth [of k] by (auto simp: fits_def list_all2_conv_all_nth)
  ultimately show ?thesis using len by (simp add: chunk_ok_def)
qed

lemma last_range:
  assumes "rs \<noteq> []" "ranges_ok rs"
  shows "local_offsets s rs ! (length rs - 1) + snd (rs ! (length rs - 1)) = s + int (length (cells rs))"
  using assms
proof (induction s rs rule: local_offsets.induct)
  case (2 s g n rs)
  then show ?case by (cases rs) (auto simp: nth_Cons')
qed simp

lemma offset_bound:
  assumes "ranges_ok rs" "j < length rs"
  shows "local_offsets s rs ! j + snd (rs ! j) \<le> s + int (length (cells rs))"
  using assms
proof (induction s rs arbitrary: j rule: local_offsets.induct)
  case (2 s g n rs)
  then have "local_offsets (s + n) rs ! i + snd (rs ! i) \<le> s + n + int (length (cells rs))" if "i < length rs" for i
    using that by simp
  then show ?case using 2 by (cases j) (auto simp: algebra_simps)
qed simp

lemma foldr_max:
  fixes m :: int
  assumes "a \<le> m" "\<And>x. x \<in> set xs \<Longrightarrow> x \<le> m" "m = a \<or> m \<in> set xs"
  shows "foldr max xs a = m"
  using assms
proof (induction xs)
  case (Cons x xs)
  have "foldr max ys a \<le> m" if "set ys \<subseteq> set (x # xs)" for ys
    using that Cons.prems(1,2) by (induction ys) auto
  then have "foldr max xs a \<le> m" by auto
  then show ?case using Cons by (cases "m = a \<or> m \<in> set xs") auto
qed auto

lemma shards_of_nonempty:
  assumes "list_all dim_ok R" "\<And>d. d < length R \<Longrightarrow> j d < length (R ! d)"
  shows "\<exists>k \<in> set (shards_of R). \<forall>d < length R. si_local_offset k ! d = local_offsets 0 (R ! d) ! j d \<and> si_shape k ! d = snd (R ! d ! j d)"
proof -
  define c where "c = map (\<lambda>d. (j d, R ! d ! j d)) [0..<length R]"
  have "c \<in> set (product_lists (map (enumerate 0) R))" unfolding combos using assms(2) by (simp add: c_def)
  moreover have "length c = length R" by (simp add: c_def)
  ultimately show ?thesis using chunk_of_nth [of c R] by (auto simp: shards_of_def c_def intro!: bexI)
qed

lemma output_shape_shards:
  assumes "list_all dim_ok R"
  shows "shards_of R \<noteq> []" "output_shape (shards_of R) = sizes R"
proof -
  have R: "R ! d \<noteq> []" "ranges_ok (R ! d)" if "d < length R" for d using assms that by (auto simp: list_all_length dim_ok_def)
  then obtain k0 where k0: "k0 \<in> set (shards_of R)"
    "\<And>d. d < length R \<Longrightarrow> si_local_offset k0 ! d + si_shape k0 ! d = int (length (cells (R ! d)))"
    using shards_of_nonempty [OF assms, of "\<lambda>d. length (R ! d) - 1"] last_range [of "R ! d" 0 for d] by force
  then show ne: "shards_of R \<noteq> []" by auto
  let ?f = "\<lambda>d k. si_local_offset k ! d + si_shape k ! d"
  have le: "?f d k \<le> int (length (cells (R ! d)))" if "d < length R" "k \<in> set (shards_of R)" for d k
    by (rule shards_of_nth [OF that(2)]) (use offset_bound [OF R(2) [OF that(1)], of _ 0] that(1) in auto)
  obtain k1 ks where ks: "shards_of R = k1 # ks" using ne by (cases "shards_of R") auto
  have len: "length (si_shape k1) = length R" by (rule shards_of_nth [of k1 R]) (simp_all add: ks)
  show "output_shape (shards_of R) = sizes R"
  proof (rule nth_equalityI)
    show "length (output_shape (shards_of R)) = length (sizes R)" by (simp add: output_shape_def ks len)
    fix d assume "d < length (output_shape (shards_of R))"
    then have d: "d < length R" by (simp add: output_shape_def ks len)
    have "foldr max (map (?f d) ks) (?f d k1) = int (length (cells (R ! d)))"
      using le [OF d] k0(1) k0(2) [OF d, symmetric] unfolding ks by (intro foldr_max) auto
    then show "output_shape (shards_of R) ! d = sizes R ! d" using d by (simp add: output_shape_def ks len)
  qed
qed

end
