(* ===== verification/Sharding_Local.thy ===== *)
theory Sharding_Local
  imports Sharding_Reshard
begin

text \<open>
  Resharding without communication, as the tests of \<^verbatim>\<open>compute_local_reshard\<close> state it: what was laid out by the current
  placements is laid out by the target placements afterwards. It holds when no placement that stays shards, later in
  the mesh, a dimension that is sharded anew; without this condition it does not.
\<close>

section \<open>The result of \<open>apply_local_reshard\<close>\<close>

lemma single_product:
  assumes "length (product_lists xss) = 1" "xs \<in> set xss"
  shows "length xs = 1"
  using assms
proof (induction xss)
  case (Cons ys xss)
  then have "length ys * length (product_lists xss) = 1" by (simp add: length_concat comp_def sum_list_triv)
  then have "length ys = 1" "length (product_lists xss) = 1" by (simp_all only: nat_mult_eq_1_iff)
  then show ?case using Cons by auto
qed simp

lemma apply_shards:
  assumes "torch_laws shp elem getitem allocate copy_into" "list_all dim_ok R" "inside R (shp t)"
  shows "\<exists>r. apply_local_reshard getitem allocate copy_into t (shards_of R) = Inr r \<and> shp r = sizes R \<and>
    (\<forall>y. in_local (map cells R) y \<longrightarrow> elem r y = elem t (pick (map cells R) y))"
proof (cases "length (shards_of R) = 1")
  case True
  then obtain k where k: "shards_of R = [k]" by (auto simp: length_Suc_conv)
  obtain j where len: "length (si_local_offset k) = length R" "length (si_global_offset k) = length R" "length (si_shape k) = length R"
    and nth: "\<And>d. d < length R \<Longrightarrow> j d < length (R ! d) \<and> si_local_offset k ! d = local_offsets 0 (R ! d) ! j d \<and>
      si_global_offset k ! d = fst (R ! d ! j d) \<and> si_shape k ! d = snd (R ! d ! j d)"
    using shards_of_nth [of k R] k by auto
  have one: "length (R ! d) = 1" if "d < length R" for d
    using single_product [of "map (enumerate 0) R" "enumerate 0 (R ! d)"] True that by (simp add: shards_of_def)
  have zero: "si_local_offset k ! d = 0" if d: "d < length R" for d
  proof -
    obtain x where "R ! d = [x]" using one [OF d] by (auto simp: length_Suc_conv)
    then show ?thesis using nth [OF d] by (cases x) simp
  qed
  have ok: "chunk_ok (shp t) (sizes R) k" using shards_of_chunk_ok [OF assms(2,3)] k by simp
  have ext: "extents (src_slices k) = si_shape k" using extents_slices [of k] len by simp
  have out: "output_shape [k] = sizes R" using output_shape_shards(2) [OF assms(2)] k by simp
  have "si_shape k ! d = sizes R ! d" if d: "d < length R" for d
    using arg_cong [OF out, of "\<lambda>xs. xs ! d"] zero [OF d] d len by (simp add: output_shape_def)
  then have shape: "si_shape k = sizes R" using len by (intro nth_equalityI) simp_all
  have "elem (getitem t (src_slices k)) y = elem t (pick (map cells R) y)" if y: "in_local (map cells R) y" for y
  proof -
    have "holds_local k y" "global_of k y = pick (map cells R) y"
      using shards_of_exists [OF assms(2) y] shards_of_local [OF assms(2)] k by auto
    moreover have "in_tensor (extents (src_slices k)) y"
      using y unfolding ext shape by (auto simp: in_tensor_def in_local_def list_all2_conv_all_nth)
    moreover have "map2 (\<lambda>(a, b) v. a + v) (src_slices k) y = global_of k y"
      using y len zero slices_nth [of k] by (intro nth_equalityI) (auto simp: global_of_def in_local_def list_all2_conv_all_nth)
    ultimately show ?thesis using torch_lawsD(2) [OF assms(1)] ok by (simp add: chunk_ok_def)
  qed
  then show ?thesis using torch_lawsD(1) [OF assms(1)] ok ext shape by (auto simp: apply_local_reshard_def k chunk_ok_def)
next
  case False
  let ?out = "allocate (sizes R)" and ?r = "foldl (copy_step getitem copy_into t) (allocate (sizes R)) (shards_of R)"
  have out: "shp ?out = sizes R" using torch_lawsD(3) [OF assms(1)] by (simp add: list_all_iff)
  have ok: "list_all (chunk_ok (shp t) (shp ?out)) (shards_of R)"
    using shards_of_chunk_ok [OF assms(2,3)] out by (simp add: list_all_iff)
  have "apply_local_reshard getitem allocate copy_into t (shards_of R) = Inr ?r"
    using False output_shape_shards [OF assms(2)] by (simp add: apply_local_reshard_def copy_step_def [abs_def])
  moreover have "elem ?r y = elem t (pick (map cells R) y)" if y: "in_local (map cells R) y" for y
    using copy_chunks [OF assms(1) ok, of y "elem t (pick (map cells R) y)"] shards_of_exists [OF assms(2) y]
      shards_of_local [OF assms(2)] by (simp add: comp_def)
  ultimately show ?thesis using copy_chunks [OF assms(1) ok] out by (auto simp: comp_def)
qed

section \<open>Placements in another order\<close>

lemma place_commute:
  assumes "dim_of (fst a) \<noteq> dim_of (fst b)"
  shows "place (place xss a) b = place (place xss b) a"
proof -
  obtain p i g q j h where ab: "a = (p, i, g)" "b = (q, j, h)" by (metis prod_cases3)
  then show ?thesis using assms
    by (cases "dim_of p"; cases "dim_of q") (auto simp: place_def list_update_swap)
qed

lemma foldl_place_commute:
  assumes "\<And>b. b \<in> set bs \<Longrightarrow> dim_of (fst a) \<noteq> dim_of (fst b)"
  shows "foldl place (place xss a) bs = place (foldl place xss bs) a"
  using assms by (induction bs arbitrary: xss) (simp_all add: place_commute)

fun reshard_order :: "(placement \<times> placement) list \<Rightarrow> bool" where
  "reshard_order [] = True"
| "reshard_order ((cur, tgt) # rest) \<longleftrightarrow>
     reshard_order rest \<and> (cur = tgt \<or> list_all (\<lambda>(c, _). dim_of c \<noteq> dim_of tgt) rest)"

definition convertible :: "placement \<Rightarrow> placement \<Rightarrow> bool" where
  "convertible cur tgt \<longleftrightarrow> cur = tgt \<or> cur = Replicate \<and> is_shard_like tgt"

text \<open>The placements that are new, with the indices of the owner.\<close>

definition converted :: "(placement \<times> placement \<times> 'i) list \<Rightarrow> (placement \<times> 'i) list" where
  "converted zs = map snd (filter (\<lambda>(cur, tgt, i). cur \<noteq> tgt) zs)"

lemma reshard_loop_converted:
  assumes "list_all (\<lambda>(cur, tgt, i). convertible cur tgt) zs"
  shows "reshard_loop zs = Inr (converted zs)"
  using assms
proof (induction zs)
  case (Cons z zs)
  obtain cur tgt i j where z: "z = (cur, tgt, i, j)" by (metis prod_cases4)
  have "same_type cur cur" "is_shard_like tgt \<Longrightarrow> \<not> same_type Replicate tgt" "is_shard_like tgt \<Longrightarrow> tgt \<noteq> Replicate" for cur tgt
    by (cases cur; cases tgt; simp)+
  then show ?case using Cons by (auto simp: z converted_def convertible_def)
qed (simp add: converted_def)

lemma foldl_place_converted:
  assumes "list_all (\<lambda>(cur, tgt, i). convertible cur tgt) zs" "reshard_order (map (\<lambda>(cur, tgt, i). (cur, tgt)) zs)"
  shows "foldl place xss (map (\<lambda>(cur, tgt, i). (tgt, i)) zs)
    = foldl place (foldl place xss (map (\<lambda>(cur, tgt, i). (cur, i)) zs)) (converted zs)"
  using assms
proof (induction zs arbitrary: xss)
  case (Cons z zs)
  obtain cur tgt i where z: "z = (cur, tgt, i)" by (cases z)
  show ?case
  proof (cases "cur = tgt")
    case True
    then show ?thesis using Cons by (simp add: z converted_def)
  next
    case False
    then have "cur = Replicate" using Cons.prems(1) by (simp add: z convertible_def)
    then have noop: "place xss (cur, i) = xss" for xss :: "'a list list" by (cases i) (simp add: place_def)
    have "list_all (\<lambda>(c, _). dim_of c \<noteq> dim_of tgt) (map (\<lambda>(cur, tgt, i). (cur, tgt)) zs)" using Cons.prems(2) False by (simp add: z)
    then have "foldl place (place xss (tgt, i)) (map (\<lambda>(cur, tgt, i). (cur, i)) zs)
      = place (foldl place xss (map (\<lambda>(cur, tgt, i). (cur, i)) zs)) (tgt, i)"
      by (intro foldl_place_commute) (auto simp: list_all_iff)
    then show ?thesis using Cons False noop by (simp add: z converted_def)
  qed
qed (simp add: converted_def)

section \<open>Splitting positions\<close>

lemma place_map2:
  assumes "length fs = length xss"
  shows "place (map2 map fs xss) q = map2 map fs (place xss q)"
proof -
  obtain p i g where q: "q = (p, i, g)" by (cases q)
  show ?thesis
  proof (cases "dim_of p")
    case (Some d)
    show ?thesis
    proof (cases "d < length xss")
      case True
      then have "(map2 map fs xss)[d := split p i g (map2 map fs xss ! d)] = map2 map fs (xss[d := split p i g (xss ! d)])"
        using assms by (intro nth_equalityI) (auto simp: nth_list_update split_map)
      then show ?thesis by (simp add: place_def q Some)
    qed (use assms Some in \<open>simp add: place_def q list_update_beyond\<close>)
  qed (simp add: place_def q)
qed

lemma foldl_place_map2:
  assumes "length fs = length xss"
  shows "foldl place (map2 map fs xss) qs = map2 map fs (foldl place xss qs)"
  using assms by (induction qs arbitrary: xss) (simp_all add: place_map2)

text \<open>Placing on a tensor is picking the positions that placing on its positions gives.\<close>

lemma map2_all_cells: "map2 map (map (\<lambda>xs v. xs ! nat v) xss) (all_cells (map (int \<circ> length) xss)) = xss"
  by (rule nth_equalityI) (auto simp: all_cells_def cells_of_def intro!: nth_equalityI)

lemma foldl_place_positions:
  "foldl place xss qs = map2 map (map (\<lambda>xs v. xs ! nat v) xss) (foldl place (all_cells (map (int \<circ> length) xss)) qs)"
  using foldl_place_map2 [of "map (\<lambda>xs v. xs ! nat v) xss" "all_cells (map (int \<circ> length) xss)" qs]
  by (simp add: map2_all_cells) (simp add: all_cells_def)

lemma split_subset: "set (split p i g xs) \<subseteq> set xs"
  by (cases p) (auto simp: block_def Let_def dest: in_set_takeD in_set_dropD)

lemma split_at_subset: "set (xss[d := split p i g (xss ! d)] ! e) \<subseteq> set (xss ! e)"
  using split_subset [of p i g "xss ! d"] by (cases "e = d"; cases "d < length xss") (auto simp: list_update_beyond)

lemma place_positions:
  assumes "list_all2 (\<lambda>xs n. list_all (\<lambda>v. 0 \<le> v \<and> v < n) xs) xss shape"
  shows "list_all2 (\<lambda>xs n. list_all (\<lambda>v. 0 \<le> v \<and> v < n) xs) (place xss q) (shape :: int list)"
proof -
  obtain p i g where q: "q = (p, i, g)" by (cases q)
  show ?thesis using assms
    by (auto simp: place_def q list_all2_conv_all_nth list_all_iff split: option.split dest!: subsetD [OF split_at_subset])
qed

lemma foldl_place_positions_ok:
  assumes "list_all2 (\<lambda>xs n. list_all (\<lambda>v. 0 \<le> v \<and> v < n) xs) xss shape"
  shows "list_all2 (\<lambda>xs n. list_all (\<lambda>v. 0 \<le> v \<and> v < n) xs) (foldl place xss qs) (shape :: int list)"
  using assms by (induction qs arbitrary: xss) (simp_all add: place_positions)

lemma pick_map2:
  assumes "length fs = length xss" "in_local xss y"
  shows "pick (map2 map fs xss) y = map2 (\<lambda>f v. f v) fs (pick xss y)" "in_local (map2 map fs xss) y"
  using assms by (auto simp: pick_def in_local_def list_all2_conv_all_nth intro!: nth_equalityI)

section \<open>Properties\<close>

lemma shards_of_placements:
  assumes "mesh_ok shape ps gs" "length c = length gs"
  obtains R where "compute_shards shape ps (indices_and_sizes c gs) = Inr (shards_of R)" "list_all dim_ok R"
    "map cells R = foldl place (all_cells shape) (with_indices ps c gs)"
  using compute_shards_ranges [OF assms] unfolding shards_of_def by blast

lemma whole_shard:
  "compute_shards shape [] [] = Inr [\<lparr>si_global_offset = replicate (length shape) 0, si_local_offset = replicate (length shape) 0, si_shape = shape\<rparr>]"
proof -
  have "product_lists (map (\<lambda>n. [(0 :: nat, 0 :: int, n)]) xs) = [map (\<lambda>n. (0, 0, n)) xs]" for xs :: "int list"
    by (induction xs) simp_all
  moreover have "map (\<lambda>(d, r). map (\<lambda>n. [0 :: int]) shape ! d ! fst r) (enumerate 0 (map (\<lambda>n. (0 :: nat, 0 :: int, n)) shape)) = replicate (length shape) 0"
    by (rule nth_equalityI) (simp_all add: nth_enumerate_eq)
  ultimately show ?thesis by (simp add: compute_shards_def comp_def chunk_of_def map_replicate_const)
qed

text \<open>The chunks of the reshard: the new placements on a tensor of the local shape.\<close>

lemma compute_local_reshard_shards:
  assumes "list_all2 convertible current target" "length current = length ixs"
  shows "compute_local_reshard shape current target ixs
    = compute_shards shape (map fst (converted (zip current (zip target ixs)))) (map snd (converted (zip current (zip target ixs))))"
proof -
  have "list_all (\<lambda>(cur, tgt, i). convertible cur tgt) (zip current (zip target ixs))"
    using assms by (auto simp: list_all_length list_all2_conv_all_nth)
  then show ?thesis using assms list_all2_lengthD [OF assms(1)]
    by (simp add: compute_local_reshard_def reshard_loop_converted whole_shard)
qed

lemma converted_subset: "set (converted zs) \<subseteq> snd ` set zs"
  by (auto simp: converted_def)

lemma converted_map: "converted (map (\<lambda>(cur, tgt, i). (cur, tgt, f i)) zs) = map (\<lambda>(p, i). (p, f i)) (converted zs)"
  by (induction zs) (auto simp: converted_def)

lemma with_indices_self: "with_indices (map fst qs) (map (fst \<circ> snd) qs) (map (snd \<circ> snd) qs) = qs"
  by (rule nth_equalityI) (simp_all add: with_indices_def)

lemma indices_and_sizes_self:
  "indices_and_sizes (map (fst \<circ> snd) qs) (map (snd \<circ> snd) qs) = map (\<lambda>(p, i, g). (int i, int g)) qs"
  by (rule nth_equalityI) (simp_all add: indices_and_sizes_def case_prod_beta)

text \<open>An owner: for every dimension of the mesh its current and its target placement, its index and the size.\<close>

definition owner :: "placement list \<Rightarrow> placement list \<Rightarrow> nat list \<Rightarrow> nat list \<Rightarrow> (placement \<times> placement \<times> nat \<times> nat) list" where
  "owner current target c gs = zip current (zip target (zip c gs))"

lemma owner_with_indices:
  assumes "length current = length gs" "length target = length gs" "length c = length gs"
  shows "map (\<lambda>(cur, tgt, i). (cur, i)) (owner current target c gs) = with_indices current c gs"
    "map (\<lambda>(cur, tgt, i). (tgt, i)) (owner current target c gs) = with_indices target c gs"
    "map (\<lambda>(cur, tgt, i). (cur, tgt)) (owner current target c gs) = zip current target"
    "zip current (zip target (indices_and_sizes c gs)) = map (\<lambda>(cur, tgt, i). (cur, tgt, (\<lambda>(i, g). (int i, int g)) i)) (owner current target c gs)"
  using assms by (auto simp: owner_def with_indices_def indices_and_sizes_def intro!: nth_equalityI)

lemma reshard_shards:
  assumes "mesh_ok shape target gs" "length c = length gs" "list_all2 convertible current target"
    and "list_all (\<lambda>n. 0 \<le> n) sh" "length sh = length shape"
  obtains S where "compute_local_reshard sh current target (indices_and_sizes c gs) = Inr (shards_of S)" "list_all dim_ok S"
    "map cells S = foldl place (all_cells sh) (converted (owner current target c gs))"
proof -
  define new where "new = converted (owner current target c gs)"
  have len: "length current = length gs" "length target = length gs"
    using assms(1) list_all2_lengthD [OF assms(3)] by (simp_all add: mesh_ok_def)
  have "p \<in> set target \<and> g \<in> set gs" if new: "(p, i, g) \<in> set new" for p i g
  proof -
    obtain x where "(x, p, i, g) \<in> set (zip current (zip target (zip c gs)))"
      using subsetD [OF converted_subset new [unfolded new_def owner_def]] by auto
    then have "(p, i, g) \<in> set (zip target (zip c gs))" by (rule set_zip_rightD)
    then show ?thesis by (metis set_zip_leftD set_zip_rightD)
  qed
  then have "list_all (placement_ok (length sh)) (map fst new)" "list_all (\<lambda>g. 0 < g) (map (snd \<circ> snd) new)"
    using assms(1,5) by (force simp: mesh_ok_def list_all_iff)+
  then have "mesh_ok sh (map fst new) (map (snd \<circ> snd) new)" using assms(4) by (simp add: mesh_ok_def)
  then obtain S where S: "compute_shards sh (map fst new) (indices_and_sizes (map (fst \<circ> snd) new) (map (snd \<circ> snd) new)) = Inr (shards_of S)"
    "list_all dim_ok S" "map cells S = foldl place (all_cells sh) new"
    using shards_of_placements [of sh "map fst new" "map (snd \<circ> snd) new" "map (fst \<circ> snd) new"] unfolding with_indices_self by force
  have conv: "converted (zip current (zip target (indices_and_sizes c gs))) = map (\<lambda>(p, i). (p, (\<lambda>(i, g). (int i, int g)) i)) new"
    unfolding owner_with_indices(4) [OF len assms(2)] converted_map new_def ..
  have ixs: "length current = length (indices_and_sizes c gs)" using len assms(2) by (simp add: indices_and_sizes_def)
  have "compute_local_reshard sh current target (indices_and_sizes c gs)
    = compute_shards sh (map fst new) (indices_and_sizes (map (fst \<circ> snd) new) (map (snd \<circ> snd) new))"
    unfolding indices_and_sizes_self compute_local_reshard_shards [OF assms(3) ixs] conv
    by (simp add: comp_def case_prod_unfold)
  then show thesis using that S unfolding new_def by simp
qed

lemma reshard_cells:
  assumes "mesh_ok shape target gs" "length c = length gs" "list_all2 convertible current target" "reshard_order (zip current target)"
  shows "foldl place xss (with_indices target c gs)
    = foldl place (foldl place xss (with_indices current c gs)) (converted (owner current target c gs))"
proof -
  have len: "length current = length gs" "length target = length gs"
    using assms(1) list_all2_lengthD [OF assms(3)] by (simp_all add: mesh_ok_def)
  have "list_all (\<lambda>(cur, tgt, i). convertible cur tgt) (owner current target c gs)"
    using assms(3) by (auto simp: owner_def list_all_length list_all2_conv_all_nth)
  then show ?thesis
    using foldl_place_converted [of "owner current target c gs" xss] assms(4) owner_with_indices [OF len assms(2)] by simp
qed

lemma pick_pick:
  assumes "map cells T = map2 map (map (\<lambda>xs v. xs ! nat v) xss) yss" "length yss = length xss" "in_local (map cells T) y"
    and "list_all2 (\<lambda>ys n. list_all (\<lambda>v. 0 \<le> v \<and> v < n) ys) yss (map (int \<circ> length) xss)"
  shows "in_local yss y" "in_local xss (pick yss y)" "pick xss (pick yss y) = pick (map cells T) y"
proof -
  show yss: "in_local yss y" using assms(1-3) by (auto simp: in_local_def list_all2_conv_all_nth)
  show "in_local xss (pick yss y)"
    using yss assms(2,4) by (auto simp: in_local_def pick_def list_all2_conv_all_nth list_all_iff)
  show "pick xss (pick yss y) = pick (map cells T) y"
    unfolding assms(1) using assms(2) yss by (intro nth_equalityI) (auto simp: pick_def in_local_def list_all2_conv_all_nth)
qed

text \<open>C18: Resharding without communication does what the target placements say: if a local tensor has the elements
  and the shape of the current shards, then \<open>compute_local_reshard\<close> and \<open>apply_local_reshard\<close> return a tensor with the
  elements and the shape of the target shards, for placements that differ only from \<open>Replicate\<close> to a sharding,
  as long as no placement that stays shards the same dimension further on in the mesh.\<close>

theorem local_reshard_correct:
  assumes "mesh_ok shape current gs" "mesh_ok shape target gs" "length c = length gs"
    and "list_all2 convertible current target" "reshard_order (zip current target)"
    and "torch_laws shp elem getitem allocate copy_into"
    and "compute_shards shape current (indices_and_sizes c gs) = Inr ks" "laid_out elem t data ks" "shp t = output_shape ks"
  shows "\<exists>chunks r ks'. compute_local_reshard (shp t) current target (indices_and_sizes c gs) = Inr chunks \<and>
    apply_local_reshard getitem allocate copy_into t chunks = Inr r \<and>
    compute_shards shape target (indices_and_sizes c gs) = Inr ks' \<and> laid_out elem r data ks' \<and> shp r = output_shape ks'"
proof -
  obtain R where R: "ks = shards_of R" "list_all dim_ok R" "map cells R = foldl place (all_cells shape) (with_indices current c gs)"
    using shards_of_placements [OF assms(1,3)] assms(7) by (metis Inr_inject)
  obtain T where T: "compute_shards shape target (indices_and_sizes c gs) = Inr (shards_of T)" "list_all dim_ok T"
    "map cells T = foldl place (all_cells shape) (with_indices target c gs)"
    using shards_of_placements [OF assms(2,3)] by metis
  have t: "shp t = map (int \<circ> length) (map cells R)" unfolding assms(9) R(1) output_shape_shards(2) [OF R(2)] by (simp add: comp_assoc)
  have "length R = length shape" using arg_cong [OF R(3), of length] by (simp add: all_cells_def)
  then obtain S where S: "compute_local_reshard (shp t) current target (indices_and_sizes c gs) = Inr (shards_of S)" "list_all dim_ok S"
    "map cells S = foldl place (all_cells (shp t)) (converted (owner current target c gs))"
    using reshard_shards [OF assms(2,3,4), of "shp t"] t by (auto simp: list_all_iff)
  have cells: "map cells T = map2 map (map (\<lambda>xs v. xs ! nat v) (map cells R)) (map cells S)"
    unfolding T(3) reshard_cells [OF assms(2-5)] R(3) [symmetric] S(3) t by (rule foldl_place_positions)
  have pos: "list_all2 (\<lambda>ys n. list_all (\<lambda>v. 0 \<le> v \<and> v < n) ys) (map cells S) (shp t)"
    unfolding S(3) by (rule foldl_place_positions_ok) (auto simp: all_cells_def cells_of_def list_all2_conv_all_nth list_all_iff)
  then have "inside S (shp t)" by (simp add: inside_def list.rel_map)
  then obtain r where r: "apply_local_reshard getitem allocate copy_into t (shards_of S) = Inr r" "shp r = sizes S"
    "\<And>y. in_local (map cells S) y \<Longrightarrow> elem r y = elem t (pick (map cells S) y)"
    using apply_shards [OF assms(6) S(2)] by blast
  have len: "length (map cells S) = length (map cells R)" using list_all2_lengthD [OF pos] t by simp
  have "elem r y = data (pick (map cells T) y)" if "in_local (map cells T) y" for y
  proof -
    note p = pick_pick [OF cells len that pos [unfolded t]]
    then show ?thesis using r(3) assms(8) [unfolded R(1) laid_out_iff [OF R(2)]] by metis
  qed
  then have "laid_out elem r data (shards_of T)" unfolding laid_out_iff [OF T(2)] by blast
  moreover have "sizes S = sizes T"
    using arg_cong [OF cells, of "map (int \<circ> length)"] len by (auto simp: list_eq_iff_nth_eq)
  ultimately show ?thesis using S(1) r(1,2) T(1) output_shape_shards(2) [OF T(2)] by auto
qed

text \<open>Tensors as a shape and a function, to apply the theorem.\<close>

definition fun_shape :: "int list \<times> (int list \<Rightarrow> 'a) \<Rightarrow> int list" where
  "fun_shape = fst"

definition fun_elem :: "int list \<times> (int list \<Rightarrow> 'a) \<Rightarrow> int list \<Rightarrow> 'a" where
  "fun_elem = snd"

definition fun_getitem :: "int list \<times> (int list \<Rightarrow> 'a) \<Rightarrow> (int \<times> int) list \<Rightarrow> int list \<times> (int list \<Rightarrow> 'a)" where
  "fun_getitem t sl = (extents sl, \<lambda>y. snd t (map2 (\<lambda>(a, b) v. a + v) sl y))"

definition fun_copy :: "int list \<times> (int list \<Rightarrow> 'a) \<Rightarrow> (int \<times> int) list \<Rightarrow> int list \<times> (int list \<Rightarrow> 'a) \<Rightarrow> int list \<times> (int list \<Rightarrow> 'a)" where
  "fun_copy t sl u =
     (fst t, \<lambda>y. if list_all2 (\<lambda>(a, b) v. a \<le> v \<and> v < b) sl y then snd u (map2 (\<lambda>(a, b) v. v - a) sl y) else snd t y)"

lemma fun_torch_laws: "torch_laws fun_shape fun_elem fun_getitem (\<lambda>shape. (shape, \<lambda>_. undefined)) fun_copy"
  by (simp add: torch_laws_def fun_shape_def fun_elem_def fun_getitem_def fun_copy_def)

theorem local_reshard_correct_witness:
  "\<exists>chunks r ks'. compute_local_reshard [4] [StridedShard 0 2, Replicate] [StridedShard 0 2, Shard 0] [(1, 2), (1, 2)] = Inr chunks \<and>
    apply_local_reshard fun_getitem (\<lambda>shape. (shape, \<lambda>_. undefined)) fun_copy ([4], \<lambda>y. [2, 3, 6, 7 :: int] ! nat (y ! 0)) chunks = Inr r \<and>
    compute_shards [8] [StridedShard 0 2, Shard 0] [(1, 2), (1, 2)] = Inr ks' \<and> fun_shape r = output_shape ks'"
proof -
  define t :: "int list \<times> (int list \<Rightarrow> int)" where "t = ([4], \<lambda>y. [2, 3, 6, 7] ! nat (y ! 0))"
  define R :: "ranges list" where "R = [[(2, 2), (6, 2)]]"
  have ixs: "indices_and_sizes [1, 1] [2, 2] = [(1, 2), (1, 2)]" by (simp add: indices_and_sizes_def)
  have "compute_shards [8] [StridedShard 0 2, Replicate] (indices_and_sizes [1, 1] [2, 2]) = Inr (shards_of R)"
    unfolding ixs R_def by code_simp
  moreover have "laid_out fun_elem t (\<lambda>x. x ! 0) (shards_of R)"
  proof -
    have "dim_ok (R ! 0)" "map cells R = [[2, 3, 6, 7]]" unfolding R_def by code_simp+
    then have "list_all dim_ok R" by (simp add: R_def)
    then show ?thesis unfolding laid_out_iff [OF \<open>list_all dim_ok R\<close>] \<open>map cells R = _\<close>
      by (auto simp: fun_elem_def t_def pick_def in_local_def list_all2_Cons1)
  qed
  moreover have "fun_shape t = output_shape (shards_of R)" unfolding t_def R_def fun_shape_def by code_simp
  moreover have "mesh_ok [8] [StridedShard 0 2, Replicate] [2, 2]" "mesh_ok [8] [StridedShard 0 2, Shard 0] [2, 2]"
    "list_all2 convertible [StridedShard 0 2, Replicate] [StridedShard 0 2, Shard 0]"
    "reshard_order (zip [StridedShard 0 2, Replicate] [StridedShard 0 2, Shard 0])"
    by (simp_all add: mesh_ok_def convertible_def)
  ultimately show ?thesis
    using local_reshard_correct [of "[8]" "[StridedShard 0 2, Replicate]" "[2, 2]" "[StridedShard 0 2, Shard 0]" "[1, 1]",
        OF _ _ _ _ _ fun_torch_laws, of "shards_of R" t "\<lambda>x. x ! 0"]
    unfolding ixs by (simp add: fun_shape_def t_def) blast
qed

text \<open>C19: The condition on the order is needed, and the code does not check it. On a mesh of two by two, from
  \<open>[Replicate, Shard 0]\<close> to \<open>[Shard 0, Shard 0]\<close>, the owner at \<open>(1, 0)\<close> has the elements 0 and 1 of four and should have
  the element 2: \<open>compute_local_reshard\<close> raises no error, and what \<open>apply_local_reshard\<close> returns is the element 1.\<close>

theorem local_reshard_needs_order:
  "compute_shards [4] [Replicate, Shard 0] [(1, 2), (0, 2)] = Inr [\<lparr>si_global_offset = [0], si_local_offset = [0], si_shape = [2]\<rparr>] \<and>
   compute_shards [4] [Shard 0, Shard 0] [(1, 2), (0, 2)] = Inr [\<lparr>si_global_offset = [2], si_local_offset = [0], si_shape = [1]\<rparr>] \<and>
   compute_local_reshard [2] [Replicate, Shard 0] [Shard 0, Shard 0] [(1, 2), (0, 2)]
     = Inr [\<lparr>si_global_offset = [1], si_local_offset = [0], si_shape = [1]\<rparr>] \<and>
   map_sum id (\<lambda>r. fun_elem r [0]) (apply_local_reshard fun_getitem (\<lambda>shape. (shape, \<lambda>_. undefined)) fun_copy ([2], \<lambda>y. y ! 0)
     [\<lparr>si_global_offset = [1], si_local_offset = [0], si_shape = [1]\<rparr>]) = Inr 1"
proof (intro conjI)
  show "map_sum id (\<lambda>r. fun_elem r [0]) (apply_local_reshard fun_getitem (\<lambda>shape. (shape, \<lambda>_. undefined)) fun_copy ([2], \<lambda>y. y ! 0)
     [\<lparr>si_global_offset = [1], si_local_offset = [0], si_shape = [1]\<rparr>]) = Inr 1"
    by (simp add: apply_local_reshard_def fun_getitem_def fun_elem_def src_slices_def)
qed code_simp+

end
