(* ===== verification/Spec2Isabelle.thy ===== *)
theory Spec2Isabelle
  imports Hash_Map_Client Serialization_Safety Vector_Correct Simple_Vector Intrusive_List Free_List Store_Routing Store_Calls Sharding_Local
begin

text \<open>
  A verification of moodist, a library for communication between the processes (\<^emph>\<open>ranks\<close>) of a
  distributed computation. All paths below are relative to \<^verbatim>\<open>src/\<close>.

  \<^bold>\<open>The program and its parts.\<close> The core library has its own containers and its own serializer; on them
  rests the store (\<^verbatim>\<open>core/store.cc\<close>), a distributed map from keys to values. Every rank runs one
  \<^verbatim>\<open>StoreImpl\<close>. The ranks agree on a sparse mesh by seeding the same generator with the store's key, find
  each other through datagrams to rank 0, keep one TCP connection per edge of the mesh, and route messages along first
  hops. A key lives at the rank its hash selects; \<^verbatim>\<open>set\<close>, \<^verbatim>\<open>get\<close>, \<^verbatim>\<open>check\<close> and \<^verbatim>\<open>wait\<close> are messages to it
  that are answered with \<^verbatim>\<open>messageDone\<close>. The Python package computes which parts of a distributed tensor a rank owns.

  \<^bold>\<open>Theories.\<close>
  \<^item> \<open>Prelude\<close>: machine integers, the ways the code can fail (\<open>error\<close>, \<open>result\<close>), generic lemmas.
  \<^item> \<open>Hash_Map\<close> and \<open>Hash_Map_*\<close>: \<^verbatim>\<open>core/hash_map.h\<close>. \<open>Hash_Map\<close> has the operations (\<open>find_it\<close> with
    \<open>findSlowPath\<close>, \<open>try_emplace\<close> with \<open>emplace_at\<close>, \<open>rehash_with\<close>, \<open>reserve_with\<close>, \<open>erase_it\<close>, iterators, \<open>clear_hm\<close>),
    \<open>Hash_Map_Lookup\<close> the invariant \<open>hm_inv\<close> and the abstraction \<open>hm_abs\<close> to a map; the others show that each
    operation keeps the invariant and does on the map what its name says, that insertion returns
    (\<open>Hash_Map_Total\<close>), and \<open>Hash_Map_Client\<close> interprets the map interface and holds the properties.
  \<^item> \<open>Serialization\<close>, \<open>Serialization_Write\<close>, \<open>Serialization_Read\<close>, \<open>Serialization_Safety\<close>: \<^verbatim>\<open>core/serialization.h\<close>.
    The C++ types an archive accepts are a datatype \<open>ty\<close>, their values \<open>val\<close>; the archives are the size counter, the
    copying writer, the growing writer and the checked reader. Round trip, agreement of the three
    serializers, safety of reading foreign bytes, and the overflow in the size of a view.
  \<^item> \<open>Deque\<close>, \<open>Vector\<close>, \<open>Vector_Correct\<close>, \<open>Simple_Vector\<close>, \<open>Intrusive_List\<close>, \<open>Free_List\<close>: \<^verbatim>\<open>core/vector.h\<close>,
    \<^verbatim>\<open>core/simple_vector.h\<close>, \<^verbatim>\<open>core/intrusive_list.h\<close>, \<^verbatim>\<open>core/freelist.h\<close>, each refined to lists.
  \<^item> \<open>Store_Topology\<close>, \<open>Store_Mesh\<close>, \<open>Store_Paths\<close>, \<open>Store_Routing\<close>: \<^verbatim>\<open>findPaths\<close>,
    \<^verbatim>\<open>getBroadcastForwardRanks\<close>, \<^verbatim>\<open>storeRank\<close>; the mesh is symmetric, connected and of degree at most four, the first
    hops lie on shortest paths, messages arrive and broadcasts reach every rank once.
  \<^item> \<open>Store_Messages\<close>: the message structures of \<^verbatim>\<open>store.cc\<close>, their bytes and the dispatch on signatures.
  \<^item> \<open>Store_State\<close>, \<open>Store_Node\<close>, \<open>Store_Handlers\<close>, \<open>Store_Events\<close>: one rank. \<open>store_state\<close> has the members of
    \<^verbatim>\<open>StoreImpl\<close>, \<open>Store_Node\<close> the functions under \<^verbatim>\<open>processMessage\<close>, \<open>Store_Handlers\<close> what \<^verbatim>\<open>onreadtcp\<close> and
    the connection management do, \<open>Store_Events\<close> datagrams, timers, shutdown, the calls of the user, the callback
    thread, and the relation \<open>store_step\<close> of everything that can happen to a rank.
  \<^item> \<open>Store_Step\<close>, \<open>Store_Core\<close>, \<open>Store_Fuel\<close>, \<open>Store_Wf\<close>: the proof library of the rank. A relation between
    the state before and after that the elementary updates respect is respected by every message function (locale
    \<open>message_relation\<close>) and by every step (locale \<open>core_relation\<close>); both are interpreted several times.
  \<^item> \<open>Store_Safe\<close>, \<open>Store_Calls\<close>: the properties of a rank: its states are well formed, timers fail no check, the
    message functions terminate, calls are answered, nobody waits for a value that is there, the exit wakes everyone.
  \<^item> \<open>Sharding\<close>, \<open>Sharding_Split\<close>, \<open>Sharding_Cover\<close>, \<open>Sharding_Reshard\<close>, \<open>Sharding_Local\<close>: \<^verbatim>\<open>py/moodist/sharding.py\<close>.
    \<open>Sharding\<close> has its functions; \<open>Sharding_Split\<close> reads lists of ranges as lists of indices and shows that a placement
    splits them (\<open>split\<close>); \<open>Sharding_Cover\<close> counts the owners of an element; \<open>Sharding_Reshard\<close> is about positions in the
    local tensors and the copying of chunks; \<open>Sharding_Local\<close> shows when resharding without communication is right, and
    a case that the code accepts although it is not.

  \<^bold>\<open>Choices of the model.\<close> Failure is a value: a failed \<^verbatim>\<open>CHECK\<close>, an exception of the serializer, an access outside
  an array, a null pointer followed. A handler of the store that fails with anything but a serialization error ends the
  process, so it makes no step. Random numbers and shuffles are arguments; the
  hash function of a table and the sizes of its cells are arguments. Hash tables of the store are association
  lists, which iterate in a fixed order; the table itself is verified on its own. \<^verbatim>\<open>std::sort\<close> by a key
  is a stable sort. The clock is read once per handler, in milliseconds. What is sent is appended
  to \<open>outs\<close>. Addresses and names are byte strings. Tensors of torch are parameters, with laws for indexing and copying.

  \<^bold>\<open>Bounds and fuel.\<close> The message functions of the store call each other; \<open>run\<close> follows the calls to depth eight, and
  \<open>messages_terminate\<close> shows that no input needs more. \<open>drain\<close> loops over the early messages with the length of the
  queue as its bound, which the same theorem shows to be enough. The shortcut loop of \<^verbatim>\<open>findPaths\<close> consumes a list
  of draws; it may fail to end for unlucky draws, and \<open>find_paths_can_finish\<close> shows that from seven ranks on it can.
  \<open>strided_loop\<close> is given the number of chunks that are left, enough for every positive group size (\<open>strided_loop_steps\<close>).
  The loops of the hash table carry fuel with lemmas that it suffices; growth is shown to return within the bounds that
  \<open>try_emplace_correct\<close> states.

  \<^bold>\<open>Not modelled.\<close> The CPU thread, the process group, the collectives, the RDMA transports, the kernels, the mapping of
  memory of other processes and the allocators: they drive CUDA, ibverbs and the memory of the operating system, and
  their correctness is about those. Sockets and threads under the store appear as the steps a rank can take. The text
  of messages for the user is modelled up to its rendering. The wrapper converts between PyTorch and the core library.
\<close>

end
